(* ===== verification/RVC_Prelude.thy ===== *)
theory RVC_Prelude
  imports Main "HOL-Library.Word" "HOL-Library.Signed_Division"
begin

unbundle bit_operations_syntax

text \<open>
  Shared vocabulary of the development.
  \<^item> Fixed-width types of the C++ code: \<open>byte\<close>, \<open>u16\<close>, \<open>u32\<close>, \<open>u64\<close>, \<open>u256\<close> are words (unsigned
    arithmetic wraps); signed types (\<open>int\<close>, \<open>int32_t\<close>, \<open>int64_t\<close>, \<open>CAmount\<close>) are HOL integers,
    and the places where a signed operation can leave its type go through \<open>i32\<close> or \<open>i64\<close>, which
    turn the undefined behaviour of signed overflow into the fault \<open>SignedOverflow\<close>.
  \<^item> A failing assertion, a null dereference, an out-of-range access and a thrown exception are
    values of \<open>cpp_fault\<close>; code that can fail returns \<open>cpp_fault + 'a\<close> and is sequenced with \<open>bindR\<close>.
    \<open>OutOfFuel\<close> is the one value that is not a fault of the program: a loop whose end depends on
    the shape of the data it walks over takes a bound, and running into the bound is \<open>OutOfFuel\<close>.
  \<^item> Byte strings are \<open>byte list\<close>, character strings are \<open>string\<close>.
\<close>

type_synonym byte = "8 word"
type_synonym u16 = "16 word"
type_synonym u32 = "32 word"
type_synonym u64 = "64 word"
type_synonym u256 = "256 word"
type_synonym bytes = "byte list"
type_synonym uint256 = "byte list"

named_theorems fault_simps \<open>equations that evaluate the fault monad\<close>
named_theorems range_simps \<open>definitions of the fixed-width ranges\<close>

definition uint256_null :: uint256 where
  "uint256_null = replicate 32 0"

subsection \<open>Faults\<close>

datatype cpp_fault =
    AssertFailed
  | SignedOverflow
  | NullDeref
  | OutOfRange
  | DivByZero
  | OutOfFuel
  | Thrown string

type_synonym 'a result = "cpp_fault + 'a"

definition bindR :: "'e + 'a \<Rightarrow> ('a \<Rightarrow> 'e + 'b) \<Rightarrow> 'e + 'b" where
  "bindR m f = (case m of Inl e \<Rightarrow> Inl e | Inr x \<Rightarrow> f x)"

lemma bindR_simps [simp, fault_simps]:
  "bindR (Inl e) f = Inl e"
  "bindR (Inr x) f = f x"
  by (simp_all add: bindR_def)

lemma bindR_Inr_iff:
  "bindR m f = Inr y \<longleftrightarrow> (\<exists>x. m = Inr x \<and> f x = Inr y)"
  by (cases m) auto

lemma bindR_Inl_iff:
  "bindR m f = Inl e \<longleftrightarrow> m = Inl e \<or> (\<exists>x. m = Inr x \<and> f x = Inl e)"
  by (cases m) auto

lemma bindR_InrE [elim]:
  assumes "bindR m f = Inr y"
  obtains x where "m = Inr x" and "f x = Inr y"
  using assms by (auto simp: bindR_Inr_iff)

lemma bindR_assoc: "bindR (bindR m f) g = bindR m (\<lambda>x. bindR (f x) g)"
  by (cases m) simp_all

lemma bindR_cong [fundef_cong]:
  assumes "m = m'" and "\<And>x. m' = Inr x \<Longrightarrow> f x = f' x"
  shows "bindR m f = bindR m' f'"
  using assms by (cases m') simp_all

definition assertR :: "bool \<Rightarrow> unit result" where
  "assertR b = (if b then Inr () else Inl AssertFailed)"

lemma assertR_simps [simp, fault_simps]:
  "assertR True = Inr ()"
  "assertR False = Inl AssertFailed"
  "assertR b = Inr u \<longleftrightarrow> b"
  by (simp_all add: assertR_def)

subsection \<open>Signed ranges\<close>

definition INT32_MAX :: int where "INT32_MAX = 2147483647"
definition INT64_MAX :: int where "INT64_MAX = 9223372036854775807"

definition in_int32 :: "int \<Rightarrow> bool" where
  "in_int32 x \<longleftrightarrow> - 2147483648 \<le> x \<and> x \<le> INT32_MAX"

definition in_int64 :: "int \<Rightarrow> bool" where
  "in_int64 x \<longleftrightarrow> - 9223372036854775808 \<le> x \<and> x \<le> INT64_MAX"

lemmas [range_simps] = INT32_MAX_def INT64_MAX_def in_int32_def in_int64_def

definition i32 :: "int \<Rightarrow> int result" where
  "i32 x = (if in_int32 x then Inr x else Inl SignedOverflow)"

definition i64 :: "int \<Rightarrow> int result" where
  "i64 x = (if in_int64 x then Inr x else Inl SignedOverflow)"

lemma i64_Inr_iff [simp]: "i64 x = Inr y \<longleftrightarrow> in_int64 x \<and> y = x"
  by (auto simp: i64_def)

lemma i32_Inr_iff [simp]: "i32 x = Inr y \<longleftrightarrow> in_int32 x \<and> y = x"
  by (auto simp: i32_def)

lemma i64_in [simp]: "in_int64 x \<Longrightarrow> i64 x = Inr x"
  by (simp add: i64_def)

lemma i32_in [simp]: "in_int32 x \<Longrightarrow> i32 x = Inr x"
  by (simp add: i32_def)

subsection \<open>Truncating division\<close>

text \<open>C++ divides integers towards zero; \<open>sdiv\<close> and \<open>smod\<close> of the library do the same.\<close>

lemma sdiv_nonneg: "0 \<le> (a::int) \<Longrightarrow> 0 \<le> b \<Longrightarrow> a sdiv b = a div b"
  by (cases "a = 0"; cases "b = 0") (simp_all add: signed_divide_int_def)

lemma smod_nonneg: "0 \<le> (a::int) \<Longrightarrow> 0 \<le> b \<Longrightarrow> a smod b = a mod b"
  by (cases "a = 0") (simp_all add: signed_modulo_int_def)

subsection \<open>Bytes\<close>

lemma byte_less [simp]: "unat (b :: byte) < 256"
  using unsigned_less [of b] by simp

lemma byte_unat_eq: "unat (a :: byte) = unat b \<longleftrightarrow> a = b"
  by (simp add: word_unat_eq_iff)

end
