(* ===== verification/Text_Prelude.thy ===== *)
theory Text_Prelude
  imports RVC_Prelude
begin

text \<open>
  Characters and decimal numerals as the C and C++ libraries handle them: the classification
  functions \<open>isdigit\<close> and \<open>isspace\<close> of the C locale, the \<open>%d\<close> and \<open>%08d\<close> conversions of
  non-negative numbers, and \<open>strtoll\<close> in base 10 on a string of digits.
\<close>

definition isdigit :: "char \<Rightarrow> bool" where
  "isdigit c \<longleftrightarrow> 48 \<le> (of_char c :: nat) \<and> (of_char c :: nat) \<le> 57"

definition isspace :: "char \<Rightarrow> bool" where
  "isspace c \<longleftrightarrow> (of_char c :: nat) = 32 \<or> (9 \<le> (of_char c :: nat) \<and> (of_char c :: nat) \<le> 13)"

definition digit_char :: "nat \<Rightarrow> char" where
  "digit_char d = char_of (48 + d)"

definition digit_val :: "char \<Rightarrow> nat" where
  "digit_val c = of_char c - 48"

text \<open>A C string ends at its first NUL character.\<close>

definition c_str :: "string \<Rightarrow> string" where
  "c_str s = takeWhile (\<lambda>c. c \<noteq> CHR 0x00) s"

fun dec_of_nat :: "nat \<Rightarrow> string" where
  "dec_of_nat n =
     (if n < 10 then [digit_char n] else dec_of_nat (n div 10) @ [digit_char (n mod 10)])"

declare dec_of_nat.simps [simp del]

fun dec_pad :: "nat \<Rightarrow> nat \<Rightarrow> string" where
  "dec_pad 0 n = []"
| "dec_pad (Suc w) n = dec_pad w (n div 10) @ [digit_char (n mod 10)]"

definition dec_val :: "string \<Rightarrow> nat" where
  "dec_val s = foldl (\<lambda>a c. 10 * a + digit_val c) 0 s"

subsection \<open>Digits\<close>

lemma of_char_digit_char [simp]: "d < 10 \<Longrightarrow> (of_char (digit_char d) :: nat) = 48 + d"
  by (simp add: digit_char_def)

lemma isdigit_digit_char [simp]: "d < 10 \<Longrightarrow> isdigit (digit_char d)"
  by (simp add: isdigit_def)

lemma digit_val_digit_char [simp]: "d < 10 \<Longrightarrow> digit_val (digit_char d) = d"
  by (simp add: digit_val_def)

lemma digit_val_less: "isdigit c \<Longrightarrow> digit_val c < 10"
  unfolding isdigit_def digit_val_def by linarith

lemma isdigit_not_special:
  "isdigit c \<Longrightarrow> c \<noteq> CHR ''.''" "isdigit c \<Longrightarrow> c \<noteq> CHR ''-''"
  "isdigit c \<Longrightarrow> \<not> isspace c" "isdigit c \<Longrightarrow> c \<noteq> CHR 0x00"
  by (auto simp: isdigit_def isspace_def)

lemma digit_zero: "isdigit (CHR ''0'')" "digit_val (CHR ''0'') = 0"
  by (simp_all add: isdigit_def digit_val_def)

subsection \<open>Decimal numerals\<close>

lemma dec_of_nat_digits: "c \<in> set (dec_of_nat n) \<Longrightarrow> isdigit c"
proof (induction n rule: dec_of_nat.induct)
  case (1 n)
  then show ?case
    by (cases "n < 10") (auto simp: dec_of_nat.simps [of n])
qed

lemma dec_pad_digits: "c \<in> set (dec_pad w n) \<Longrightarrow> isdigit c"
  by (induction w arbitrary: n) auto

lemma dec_of_nat_nonempty [simp]: "dec_of_nat n \<noteq> []"
  by (simp add: dec_of_nat.simps [of n])

lemma length_dec_pad [simp]: "length (dec_pad w n) = w"
  by (induction w arbitrary: n) auto

lemma dec_val_Nil [simp]: "dec_val [] = 0"
  by (simp add: dec_val_def)

lemma dec_val_snoc [simp]: "dec_val (s @ [c]) = 10 * dec_val s + digit_val c"
  by (simp add: dec_val_def)

lemma dec_val_append: "dec_val (s @ t) = dec_val s * 10 ^ length t + dec_val t"
proof (induction t rule: rev_induct)
  case (snoc c t)
  have "dec_val (s @ t @ [c]) = 10 * dec_val (s @ t) + digit_val c"
    using dec_val_snoc [of "s @ t" c] by simp
  with snoc show ?case by simp
qed simp

lemma dec_val_single [simp]: "dec_val [c] = digit_val c"
  by (simp add: dec_val_def)

lemma dec_val_Cons: "dec_val (c # s) = digit_val c * 10 ^ length s + dec_val s"
  using dec_val_append [of "[c]" s] by simp

lemma dec_val_zeros [simp]: "dec_val (replicate k (CHR ''0'')) = 0"
  by (induction k) (simp_all add: dec_val_Cons digit_zero)

lemma dec_val_of_nat [simp]: "dec_val (dec_of_nat n) = n"
proof (induction n rule: dec_of_nat.induct)
  case (1 n)
  then show ?case
    by (cases "n < 10") (simp_all add: dec_of_nat.simps [of n])
qed

lemma dec_val_pad: "dec_val (dec_pad w n) = n mod 10 ^ w"
proof (induction w arbitrary: n)
  case (Suc w)
  then show ?case
    by (simp add: mod_mult2_eq)
qed simp

lemma dec_val_less: "\<forall>c \<in> set s. isdigit c \<Longrightarrow> dec_val s < 10 ^ length s"
proof (induction s rule: rev_induct)
  case (snoc c s)
  then have "dec_val s < 10 ^ length s" and "digit_val c < 10"
    by (auto intro: digit_val_less)
  then show ?case by simp
qed simp

lemma length_dec_of_nat: "n < 10 ^ k \<Longrightarrow> 0 < k \<Longrightarrow> length (dec_of_nat n) \<le> k"
proof (induction k arbitrary: n)
  case (Suc k)
  show ?case
  proof (cases "n < 10")
    case False
    with Suc.prems have "0 < k" by (cases k) auto
    moreover from Suc.prems have "n div 10 < 10 ^ k"
      by (simp add: less_mult_imp_div_less mult.commute)
    ultimately have "length (dec_of_nat (n div 10)) \<le> k" by (rule Suc.IH [rotated])
    with False show ?thesis by (simp add: dec_of_nat.simps [of n])
  qed (simp add: dec_of_nat.simps [of n])
qed simp

lemma c_str_id: "\<forall>c \<in> set s. c \<noteq> CHR 0x00 \<Longrightarrow> c_str s = s"
  by (simp add: c_str_def takeWhile_eq_all_conv)

end
