(* ===== verification/Amount.thy ===== *)
theory Amount
  imports Text_Prelude
begin

text \<open>
  Amounts, fee rates and their text form: \<open>src/src/amount.h\<close>, \<open>src/src/policy/feerate.{h,cpp}\<close>,
  \<open>src/src/utilmoneystr.cpp\<close>. A \<open>CAmount\<close> is an \<open>int64_t\<close>; the arithmetic that can leave it
  goes through \<open>i64\<close>.
\<close>

type_synonym CAmount = int

definition COIN :: CAmount where "COIN = 100000000"
definition CENT :: CAmount where "CENT = 1000000"
definition MAX_MONEY :: CAmount where "MAX_MONEY = 200609375 * COIN"

definition MoneyRange :: "CAmount \<Rightarrow> bool" where
  "MoneyRange nValue \<longleftrightarrow> nValue \<ge> 0 \<and> nValue \<le> MAX_MONEY"

subsection \<open>Fee rates\<close>

record CFeeRate =
  nSatoshisPerK :: CAmount

definition CFeeRate_of :: "CAmount \<Rightarrow> int \<Rightarrow> CFeeRate result" where
  "CFeeRate_of nFeePaid nBytes =
     bindR (assertR (nBytes \<le> INT64_MAX)) (\<lambda>_.
       (if nBytes > 0
        then bindR (i64 (nFeePaid * 1000)) (\<lambda>p. Inr \<lparr>nSatoshisPerK = p sdiv nBytes\<rparr>)
        else Inr \<lparr>nSatoshisPerK = 0\<rparr>))"

definition GetFee :: "CFeeRate \<Rightarrow> int \<Rightarrow> CAmount result" where
  "GetFee r nBytes =
     bindR (assertR (nBytes \<le> INT64_MAX)) (\<lambda>_.
     bindR (i64 (nSatoshisPerK r * nBytes)) (\<lambda>p.
       (let nFee = p sdiv 1000 in
        Inr (if nFee = 0 \<and> nBytes \<noteq> 0
             then (if nSatoshisPerK r > 0 then 1
                   else if nSatoshisPerK r < 0 then -1 else nFee)
             else nFee))))"

definition GetFeePerK :: "CFeeRate \<Rightarrow> CAmount result" where
  "GetFeePerK r = GetFee r 1000"

definition CFeeRate_add :: "CFeeRate \<Rightarrow> CFeeRate \<Rightarrow> CFeeRate result" where
  "CFeeRate_add r a = bindR (i64 (nSatoshisPerK r + nSatoshisPerK a)) (\<lambda>s. Inr (r\<lparr>nSatoshisPerK := s\<rparr>))"

subsection \<open>FormatMoney\<close>

text \<open>
  The trimming loop runs from the last character downwards and looks two characters ahead, so it
  is written over the reversed string: \<open>c\<close> is \<open>str[i]\<close> and \<open>b\<close> is \<open>str[i-2]\<close>.
\<close>

fun trim_rev :: "string \<Rightarrow> string" where
  "trim_rev (c # a # b # r) =
     (if c = CHR ''0'' \<and> isdigit b then trim_rev (a # b # r) else c # a # b # r)"
| "trim_rev s = s"

definition FormatMoney :: "CAmount \<Rightarrow> string result" where
  "FormatMoney n =
     bindR (i64 (if n > 0 then n else - n)) (\<lambda>n_abs.
       (let quotient = n_abs sdiv COIN;
            remainder = n_abs smod COIN;
            str = dec_of_nat (nat quotient) @ CHR ''.'' # dec_pad 8 (nat remainder);
            str = rev (trim_rev (rev str))
        in Inr (if n < 0 then CHR ''-'' # str else str)))"

subsection \<open>ParseMoney\<close>

fun parse_frac :: "string \<Rightarrow> int \<Rightarrow> int \<Rightarrow> int \<times> string" where
  "parse_frac [] nMult nUnits = (nUnits, [])"
| "parse_frac (c # p) nMult nUnits =
     (if isdigit c \<and> nMult > 0
      then parse_frac p (nMult sdiv 10) (nUnits + nMult * int (digit_val c))
      else (nUnits, c # p))"

fun parse_whole :: "string \<Rightarrow> string \<Rightarrow> (string \<times> int \<times> string) option" where
  "parse_whole [] strWhole = Some (strWhole, 0, [])"
| "parse_whole (c # p) strWhole =
     (if c = CHR ''.'' then
        (let (nUnits, rest) = parse_frac p (CENT * 10) 0 in Some (strWhole, nUnits, rest))
      else if isspace c then Some (strWhole, 0, c # p)
      else if \<not> isdigit c then None
      else parse_whole p (strWhole @ [c]))"

definition ParseMoney :: "string \<Rightarrow> CAmount option" where
  "ParseMoney str =
     (case parse_whole (dropWhile isspace (c_str str)) [] of
        None \<Rightarrow> None
      | Some (strWhole, nUnits, p) \<Rightarrow>
          if \<not> list_all isspace p then None
          else if length strWhole > 10 then None
          else if nUnits < 0 \<or> nUnits > COIN then None
          else Some (int (dec_val strWhole) * COIN + nUnits))"

subsection \<open>Fee rates: results and bounds\<close>

lemma MAX_MONEY_in_int64: "MoneyRange v \<Longrightarrow> in_int64 v"
  by (simp add: MoneyRange_def MAX_MONEY_def COIN_def range_simps)

lemma GetFee_nonneg:
  assumes "GetFee r n = Inr f" and "0 \<le> nSatoshisPerK r" and "0 \<le> n"
  shows "f = (if nSatoshisPerK r * n div 1000 = 0 \<and> n \<noteq> 0 \<and> nSatoshisPerK r \<noteq> 0 then 1
              else nSatoshisPerK r * n div 1000)"
  using assms by (auto simp: GetFee_def bindR_Inr_iff Let_def sdiv_nonneg split: if_splits)

text \<open>
  The fee of a rate is monotone in the size, positive when rate and size are, and never
  undercuts the rate by a whole satoshi.
\<close>

lemma GetFee_mono_size:
  assumes "GetFee r n = Inr f" and "GetFee r m = Inr g"
    and "0 \<le> nSatoshisPerK r" and "0 \<le> n" and "n \<le> m"
  shows "f \<le> g"
proof -
  let ?k = "nSatoshisPerK r"
  have le: "?k * n div 1000 \<le> ?k * m div 1000"
    using assms by (simp add: mult_left_mono zdiv_mono1)
  have "0 \<le> ?k * n div 1000"
    using assms by (simp add: pos_imp_zdiv_nonneg_iff)
  with le GetFee_nonneg [OF assms(1,3,4)] GetFee_nonneg [OF assms(2,3)] assms(4,5)
  show ?thesis by (auto split: if_splits)
qed

lemma GetFee_add_rate:
  assumes "CFeeRate_add r a = Inr s" and "GetFee r n = Inr f" and "GetFee s n = Inr g"
    and "0 \<le> nSatoshisPerK r" and "0 \<le> nSatoshisPerK a" and "0 \<le> n"
  shows "f \<le> g"
proof -
  have s: "nSatoshisPerK s = nSatoshisPerK r + nSatoshisPerK a" using assms(1) by (auto simp: CFeeRate_add_def bindR_Inr_iff)
  then have "nSatoshisPerK r * n \<le> nSatoshisPerK s * n" using assms(5,6) by (intro mult_right_mono) simp_all
  then have "nSatoshisPerK r * n div 1000 \<le> nSatoshisPerK s * n div 1000" by (rule zdiv_mono1) simp
  moreover have "0 \<le> nSatoshisPerK r * n div 1000" using assms(4,6) by (simp add: pos_imp_zdiv_nonneg_iff)
  ultimately show ?thesis
    using GetFee_nonneg [OF assms(2,4,6)] GetFee_nonneg [OF assms(3) _ assms(6)] s assms(4,5) by (auto split: if_splits)
qed

subsection \<open>The text form round-trips\<close>

lemma trim_rev_digits:
  assumes "\<forall>c \<in> set xs. isdigit c" and "2 \<le> length xs"
  shows "\<exists>ys k. trim_rev (rev xs @ CHR ''.'' # r) = rev ys @ CHR ''.'' # r
           \<and> xs = ys @ replicate k (CHR ''0'') \<and> 2 \<le> length ys"
  using assms
proof (induction xs rule: rev_induct)
  case (snoc x xs)
  show ?case
  proof (cases "x = CHR ''0'' \<and> 2 \<le> length xs")
    case True
    then obtain ws a b where xs: "xs = ws @ [b, a]"
      by (metis (no_types, lifting) One_nat_def Suc_1 Suc_le_length_iff append.assoc append_Cons
          append_Nil append_butlast_last_id length_0_conv length_append_singleton list.size(3)
          not_less_eq_eq numeral_2_eq_2 zero_le)
    from True snoc obtain ys k where
      ys: "trim_rev (rev xs @ CHR ''.'' # r) = rev ys @ CHR ''.'' # r"
        "xs = ys @ replicate k (CHR ''0'')" "2 \<le> length ys"
      by auto
    from snoc.prems xs have "isdigit b" by simp
    with True xs have "trim_rev (rev (xs @ [x]) @ CHR ''.'' # r) = trim_rev (rev xs @ CHR ''.'' # r)"
      by simp
    moreover from True ys(2) have "xs @ [x] = ys @ replicate (Suc k) (CHR ''0'')"
      by (simp add: replicate_append_same)
    ultimately show ?thesis using ys by metis
  next
    case False
    then have stop: "trim_rev (rev (xs @ [x]) @ CHR ''.'' # r) = rev (xs @ [x]) @ CHR ''.'' # r"
    proof (cases "x = CHR ''0''")
      case True
      with False snoc.prems obtain y where "xs = [y]"
        by (cases xs) (auto simp: Suc_le_eq numeral_2_eq_2)
      then show ?thesis by (simp add: isdigit_def)
    next
      case False
      from snoc.prems obtain ws y where "xs = ws @ [y]"
        by (cases xs rule: rev_cases) auto
      with False show ?thesis by (cases "rev ws") simp_all
    qed
    then show ?thesis using snoc.prems by (intro exI [of _ "xs @ [x]"] exI [of _ 0]) simp
  qed
qed simp

lemma parse_frac_digits:
  assumes "\<forall>c \<in> set ds. isdigit c" and "length ds \<le> Suc j"
  shows "parse_frac ds (10 ^ j) u = (u + int (dec_val ds) * 10 ^ (Suc j - length ds), [])"
  using assms
proof (induction ds arbitrary: j u)
  case (Cons c ds)
  show ?case
  proof (cases j)
    case 0
    with Cons.prems show ?thesis by simp
  next
    case (Suc i)
    have "(10::int) ^ j sdiv 10 = 10 ^ i"
      using Suc by (simp add: sdiv_nonneg)
    moreover have "(10::int) * 10 ^ i = 10 ^ length ds * 10 ^ (Suc i - length ds)"
      using Cons.prems Suc by (simp add: power_add [symmetric])
    ultimately show ?thesis
      using Cons Suc by (simp add: dec_val_Cons algebra_simps)
  qed
qed simp

lemma parse_whole_digits:
  assumes "\<forall>c \<in> set ds. isdigit c"
  shows "parse_whole (ds @ CHR ''.'' # p) w = parse_whole (CHR ''.'' # p) (w @ ds)"
  using assms
proof (induction ds arbitrary: w)
  case (Cons c ds)
  then show ?case by (simp add: isdigit_not_special)
qed simp

lemma ParseMoney_digits:
  assumes ds: "\<forall>c \<in> set ds. isdigit c" and fs: "\<forall>c \<in> set fs. isdigit c"
    and "ds \<noteq> []" and "length ds \<le> 10" and "length fs \<le> 8"
  shows "ParseMoney (ds @ CHR ''.'' # fs)
           = Some (int (dec_val ds) * COIN + int (dec_val fs) * 10 ^ (8 - length fs))"
proof -
  have "\<forall>c \<in> set (ds @ CHR ''.'' # fs). c \<noteq> CHR 0x00"
    using ds fs by (auto dest: isdigit_not_special)
  then have c: "c_str (ds @ CHR ''.'' # fs) = ds @ CHR ''.'' # fs" by (rule c_str_id)
  have d: "dropWhile isspace (ds @ CHR ''.'' # fs) = ds @ CHR ''.'' # fs"
    using assms by (cases ds) (auto dest: isdigit_not_special)
  have f: "parse_frac fs (CENT * 10) 0 = (int (dec_val fs) * 10 ^ (8 - length fs), [])"
    using parse_frac_digits [OF fs, of 7 0] assms by (simp add: CENT_def)
  have "int (dec_val fs) * 10 ^ (8 - length fs) \<le> int (10 ^ length fs) * 10 ^ (8 - length fs)"
    using dec_val_less [OF fs] by (intro mult_right_mono) auto
  also have "\<dots> = COIN"
    using assms by (simp add: power_add [symmetric] COIN_def)
  finally have "int (dec_val fs) * 10 ^ (8 - length fs) \<le> COIN" .
  moreover have "0 \<le> int (dec_val fs) * 10 ^ (8 - length fs)" by simp
  ultimately show ?thesis
    using assms parse_whole_digits [OF ds, of fs "[]"]
    by (simp add: ParseMoney_def c d f not_less)
qed

lemma FormatMoney_nonneg:
  assumes "0 \<le> n" and "in_int64 n"
  shows "\<exists>ys k. FormatMoney n = Inr (dec_of_nat (nat (n div COIN)) @ CHR ''.'' # ys)
           \<and> dec_pad 8 (nat (n mod COIN)) = ys @ replicate k (CHR ''0'') \<and> 2 \<le> length ys"
proof -
  let ?q = "dec_of_nat (nat (n div COIN))" and ?f = "dec_pad 8 (nat (n mod COIN))"
  have "\<forall>c \<in> set ?f. isdigit c" and "2 \<le> length ?f"
    by (auto intro: dec_pad_digits)
  then obtain ys k where t: "trim_rev (rev ?f @ CHR ''.'' # rev ?q) = rev ys @ CHR ''.'' # rev ?q"
    and "?f = ys @ replicate k (CHR ''0'')" and "2 \<le> length ys"
    using trim_rev_digits [of ?f "rev ?q"] by blast
  moreover have "(if n > 0 then n else - n) = n" using assms by simp
  ultimately show ?thesis
    using assms by (simp add: FormatMoney_def sdiv_nonneg smod_nonneg COIN_def)
qed

text \<open>C24. Formatting an amount in the money range and parsing the text gives the amount back.\<close>

theorem ParseMoney_FormatMoney:
  assumes "MoneyRange n"
  shows "\<exists>s. FormatMoney n = Inr s \<and> ParseMoney s = Some n"
proof -
  from assms have n: "0 \<le> n" "in_int64 n" "n div COIN < 10 ^ 10"
    by (auto simp: MAX_MONEY_in_int64 MoneyRange_def MAX_MONEY_def COIN_def)
  obtain ys k where s: "FormatMoney n = Inr (dec_of_nat (nat (n div COIN)) @ CHR ''.'' # ys)"
    and f: "dec_pad 8 (nat (n mod COIN)) = ys @ replicate k (CHR ''0'')"
    using FormatMoney_nonneg [OF n(1,2)] by blast
  have len: "length ys + k = 8" using arg_cong [OF f, of length] by simp
  have ys: "\<forall>c \<in> set ys. isdigit c"
    using dec_pad_digits [of _ 8 "nat (n mod COIN)"] f by auto
  have "dec_val ys * 10 ^ k = nat (n mod COIN)"
    using dec_val_pad [of 8 "nat (n mod COIN)"] f
    by (simp add: dec_val_append COIN_def nat_mod_distrib)
  then have v: "int (dec_val ys) * 10 ^ (8 - length ys) = n mod COIN"
    using len by (metis COIN_def add_diff_cancel_left' int_nat_eq of_nat_mult of_nat_numeral
        of_nat_power pos_mod_sign zero_less_numeral)
  have q: "length (dec_of_nat (nat (n div COIN))) \<le> 10"
    using n by (intro length_dec_of_nat) (simp_all add: nat_less_iff)
  have "ParseMoney (dec_of_nat (nat (n div COIN)) @ CHR ''.'' # ys) = Some n"
    using ParseMoney_digits [OF _ ys _ q] len n v
    by (auto intro: dec_of_nat_digits simp: pos_imp_zdiv_nonneg_iff COIN_def)
  with s show ?thesis by blast
qed

theorem ParseMoney_FormatMoney_witness:
  "MoneyRange 123450000000 \<and>
   (\<exists>s. FormatMoney 123450000000 = Inr s \<and> ParseMoney s = Some 123450000000)"
proof -
  have "MoneyRange 123450000000" by (simp add: MoneyRange_def MAX_MONEY_def COIN_def)
  then show ?thesis using ParseMoney_FormatMoney [of 123450000000] by blast
qed

end
