(* ===== verification/Serialize.thy ===== *)
theory Serialize
  imports RVC_Prelude
begin

text \<open>
  The wire format of \<open>src/src/serialize.h\<close>: fixed-width little-endian integers, compact sizes,
  variable-length integers, byte blobs, vectors and the bit sets.

  A writer turns a value into bytes; a reader takes the rest of the stream and returns the value
  and what is left, or throws as the C++ stream does. The locale \<open>codec\<close> is the contract of a
  pair of them (what is written reads back, whatever follows), \<open>canonical_codec\<close> adds that a
  successful read consumed exactly the bytes a write of the value makes, so that no value has two
  encodings. The two locales carry the lemmas on pairs and vectors.
\<close>

type_synonym 'a reader = "bytes \<Rightarrow> ('a \<times> bytes) result"

definition MAX_SIZE :: nat where "MAX_SIZE = 0x02000000"

subsection \<open>Streams and fixed-width integers\<close>

definition ser_read :: "nat \<Rightarrow> bytes reader" where
  "ser_read n s =
     (if n \<le> length s then Inr (take n s, drop n s)
      else Inl (Thrown ''CDataStream::read(): end of data''))"

fun le_bytes :: "nat \<Rightarrow> nat \<Rightarrow> bytes" where
  "le_bytes 0 x = []"
| "le_bytes (Suc k) x = of_nat (x mod 256) # le_bytes k (x div 256)"

fun le_val :: "bytes \<Rightarrow> nat" where
  "le_val [] = 0"
| "le_val (b # bs) = unat b + 256 * le_val bs"

definition ser_writedata :: "nat \<Rightarrow> nat \<Rightarrow> bytes" where
  "ser_writedata k obj = le_bytes k obj"

definition ser_readdata :: "nat \<Rightarrow> nat reader" where
  "ser_readdata k s = bindR (ser_read k s) (\<lambda>(b, s). Inr (le_val b, s))"

subsection \<open>Compact sizes\<close>

definition GetSizeOfCompactSize :: "nat \<Rightarrow> nat" where
  "GetSizeOfCompactSize nSize =
     (if nSize < 253 then 1 else if nSize \<le> 0xFFFF then 1 + 2
      else if nSize \<le> 0xFFFFFFFF then 1 + 4 else 1 + 8)"

definition WriteCompactSize :: "nat \<Rightarrow> bytes" where
  "WriteCompactSize nSize =
     (if nSize < 253 then ser_writedata 1 nSize
      else if nSize \<le> 0xFFFF then ser_writedata 1 253 @ ser_writedata 2 nSize
      else if nSize \<le> 0xFFFFFFFF then ser_writedata 1 254 @ ser_writedata 4 nSize
      else ser_writedata 1 255 @ ser_writedata 8 nSize)"

definition ReadCompactSize :: "nat reader" where
  "ReadCompactSize s =
     bindR (ser_readdata 1 s) (\<lambda>(chSize, s).
     bindR (if chSize < 253 then Inr (chSize, s)
            else if chSize = 253 then
              bindR (ser_readdata 2 s) (\<lambda>(n, s).
                if n < 253 then Inl (Thrown ''non-canonical ReadCompactSize()'') else Inr (n, s))
            else if chSize = 254 then
              bindR (ser_readdata 4 s) (\<lambda>(n, s).
                if n < 0x10000 then Inl (Thrown ''non-canonical ReadCompactSize()'') else Inr (n, s))
            else
              bindR (ser_readdata 8 s) (\<lambda>(n, s).
                if n < 0x100000000 then Inl (Thrown ''non-canonical ReadCompactSize()'')
                else Inr (n, s)))
       (\<lambda>(nSizeRet, s).
         if nSizeRet > MAX_SIZE then Inl (Thrown ''ReadCompactSize(): size too large'')
         else Inr (nSizeRet, s)))"

subsection \<open>Variable-length integers\<close>

text \<open>
  \<open>WriteVarInt\<close> fills \<open>tmp\<close> from the low end and writes it backwards; \<open>tmp\<close> is kept here as the
  list of the bytes stored so far, last one first, which is the order they are written in.
  \<open>W\<close> is the width of the template's unsigned integer type.
\<close>

fun WriteVarInt_loop :: "nat \<Rightarrow> bytes \<Rightarrow> bytes" where
  "WriteVarInt_loop n tmp =
     (let tmp = of_nat (n mod 128 + (if tmp \<noteq> [] then 128 else 0)) # tmp in
      if n \<le> 0x7F then tmp else WriteVarInt_loop (n div 128 - 1) tmp)"

declare WriteVarInt_loop.simps [simp del]

definition WriteVarInt :: "nat \<Rightarrow> bytes" where
  "WriteVarInt n = WriteVarInt_loop n []"

fun GetSizeOfVarInt :: "nat \<Rightarrow> nat" where
  "GetSizeOfVarInt n = (if n \<le> 0x7F then 1 else Suc (GetSizeOfVarInt (n div 128 - 1)))"

declare GetSizeOfVarInt.simps [simp del]

fun ReadVarInt_loop :: "nat \<Rightarrow> nat \<Rightarrow> nat reader" where
  "ReadVarInt_loop W n [] = Inl (Thrown ''CDataStream::read(): end of data'')"
| "ReadVarInt_loop W n (chData # s) =
     (if n > (2 ^ W - 1) div 128 then Inl (Thrown ''ReadVarInt(): size too large'')
      else let n = (n * 128) mod 2 ^ W + unat chData mod 128 in
        if unat chData \<ge> 128 then
          (if n = 2 ^ W - 1 then Inl (Thrown ''ReadVarInt(): size too large'')
           else ReadVarInt_loop W (n + 1) s)
        else Inr (n, s))"

definition ReadVarInt :: "nat \<Rightarrow> nat reader" where
  "ReadVarInt W s = ReadVarInt_loop W 0 s"

subsection \<open>Blobs and vectors\<close>

definition Serialize_blob :: "bytes \<Rightarrow> bytes" where
  "Serialize_blob v = WriteCompactSize (length v) @ v"

text \<open>The blob is read in blocks of at most five million bytes; \<open>n\<close> is what is left of \<open>nSize\<close>.\<close>

definition BLOCK :: nat where "BLOCK = 1 + 4999999"

lemma BLOCK_pos: "0 < BLOCK"
  by (simp add: BLOCK_def)

function read_blocks :: "nat \<Rightarrow> bytes \<Rightarrow> bytes reader" where
  "read_blocks n v s =
     (if n = 0 then Inr (v, s)
      else bindR (ser_read (min n BLOCK) s)
             (\<lambda>(b, s). read_blocks (n - min n BLOCK) (v @ b) s))"
  by pat_completeness auto
termination
  using BLOCK_pos by (relation "measure (\<lambda>(n, v, s). n)") (simp_all add: min_def)

declare read_blocks.simps [simp del]

definition Unserialize_blob :: "bytes reader" where
  "Unserialize_blob s = bindR (ReadCompactSize s) (\<lambda>(nSize, s). read_blocks nSize [] s)"

definition Serialize_vec :: "('a \<Rightarrow> bytes) \<Rightarrow> 'a list \<Rightarrow> bytes" where
  "Serialize_vec ser v = WriteCompactSize (length v) @ concat (map ser v)"

fun read_elems :: "'a reader \<Rightarrow> nat \<Rightarrow> 'a list reader" where
  "read_elems unser 0 s = Inr ([], s)"
| "read_elems unser (Suc n) s =
     bindR (unser s) (\<lambda>(x, s). bindR (read_elems unser n s) (\<lambda>(xs, s). Inr (x # xs, s)))"

definition Unserialize_vec :: "'a reader \<Rightarrow> 'a list reader" where
  "Unserialize_vec unser s = bindR (ReadCompactSize s) (\<lambda>(nSize, s). read_elems unser nSize s)"

definition Serialize_pair :: "('a \<Rightarrow> bytes) \<Rightarrow> ('b \<Rightarrow> bytes) \<Rightarrow> 'a \<times> 'b \<Rightarrow> bytes" where
  "Serialize_pair sa sb p = sa (fst p) @ sb (snd p)"

definition Unserialize_pair :: "'a reader \<Rightarrow> 'b reader \<Rightarrow> ('a \<times> 'b) reader" where
  "Unserialize_pair ua ub s =
     bindR (ua s) (\<lambda>(a, s). bindR (ub s) (\<lambda>(b, s). Inr ((a, b), s)))"

subsection \<open>The contract\<close>

locale codec =
  fixes enc :: "'a \<Rightarrow> bytes" and dec :: "'a reader" and wf :: "'a \<Rightarrow> bool"
  assumes dec_enc: "wf x \<Longrightarrow> dec (enc x @ s) = Inr (x, s)"
begin

lemma enc_inject:
  assumes "wf x" and "wf y" and "enc x @ s = enc y @ t"
  shows "x = y \<and> s = t"
proof -
  have "Inr (x, s) = (Inr (y, t) :: ('a \<times> bytes) result)"
    using dec_enc [OF assms(1), of s] dec_enc [OF assms(2), of t] assms(3) by metis
  then show ?thesis by blast
qed

lemma dec_elems:
  "\<forall>x \<in> set xs. wf x \<Longrightarrow> read_elems dec (length xs) (concat (map enc xs) @ s) = Inr (xs, s)"
  by (induction xs) (simp_all add: dec_enc)

end

locale canonical_codec = codec +
  assumes canonical: "dec s = Inr (x, t) \<Longrightarrow> wf x \<and> s = enc x @ t"
begin

lemma dec_iff: "dec s = Inr (x, t) \<longleftrightarrow> wf x \<and> s = enc x @ t"
  using canonical dec_enc by blast

lemma elems_canonical:
  "read_elems dec n s = Inr (xs, t) \<Longrightarrow>
     length xs = n \<and> (\<forall>x \<in> set xs. wf x) \<and> s = concat (map enc xs) @ t"
proof (induction n arbitrary: s xs)
  case (Suc n)
  then obtain x s' ys where "dec s = Inr (x, s')" and "read_elems dec n s' = Inr (ys, t)"
    and "xs = x # ys"
    by (auto simp: bindR_Inr_iff split: prod.splits)
  with Suc.IH [of s' ys] show ?case by (simp add: dec_iff)
qed simp

end

subsection \<open>Fixed-width integers and compact sizes\<close>

lemma length_le_bytes [simp]: "length (le_bytes k x) = k"
  by (induction k arbitrary: x) simp_all

lemma le_val_bytes: "le_val (le_bytes k x) = x mod 256 ^ k"
proof (induction k arbitrary: x)
  case (Suc k)
  then show ?case by (simp add: unat_of_nat mod_mult2_eq)
qed simp

lemma le_bytes_val: "le_bytes (length b) (le_val b) = b"
proof (induction b)
  case (Cons c b)
  have "unat c < 256" by simp
  then have "(unat c + 256 * le_val b) mod 256 = unat c"
    and "(unat c + 256 * le_val b) div 256 = le_val b" by simp_all
  with Cons show ?case by simp
qed simp

lemma le_val_less: "le_val b < 256 ^ length b"
proof (induction b)
  case (Cons c b)
  then show ?case using byte_less [of c] by (simp del: byte_less)
qed simp

lemma ser_read_iff: "ser_read n s = Inr (b, t) \<longleftrightarrow> length b = n \<and> s = b @ t"
  by (auto simp: ser_read_def)

lemma ser_read_append [simp]: "length b = n \<Longrightarrow> ser_read n (b @ t) = Inr (b, t)"
  by (simp add: ser_read_iff)

interpretation data: canonical_codec "ser_writedata k" "ser_readdata k" "\<lambda>x. x < 256 ^ k" for k
proof
  show "ser_readdata k (ser_writedata k x @ s) = Inr (x, s)" if "x < 256 ^ k" for x s
    using that by (simp add: ser_readdata_def ser_writedata_def le_val_bytes)
  show "x < 256 ^ k \<and> s = ser_writedata k x @ t" if "ser_readdata k s = Inr (x, t)" for s x t
  proof -
    from that obtain b where b: "ser_read k s = Inr (b, t)" and x: "x = le_val b"
      by (auto simp: ser_readdata_def bindR_Inr_iff)
    then have "length b = k" "s = b @ t" by (simp_all add: ser_read_iff)
    then show ?thesis using x le_val_less [of b] le_bytes_val [of b]
      by (simp add: ser_writedata_def)
  qed
qed

lemmas data_dec = data.dec_enc [of _ 1, simplified] data.dec_enc [of _ 2] data.dec_enc [of _ 4]
  data.dec_enc [of _ 8]

lemma WriteCompactSize_length: "length (WriteCompactSize n) = GetSizeOfCompactSize n"
  by (simp add: WriteCompactSize_def GetSizeOfCompactSize_def ser_writedata_def)

lemma ReadCompactSize_Write:
  "n \<le> MAX_SIZE \<Longrightarrow> ReadCompactSize (WriteCompactSize n @ s) = Inr (n, s)"
  by (simp add: ReadCompactSize_def WriteCompactSize_def data_dec MAX_SIZE_def)

lemma ReadCompactSize_canonical:
  assumes "ReadCompactSize s = Inr (n, t)"
  shows "n \<le> MAX_SIZE \<and> s = WriteCompactSize n @ t"
proof -
  from assms obtain ch s' where ch: "ser_readdata 1 s = Inr (ch, s')" and n: "n \<le> MAX_SIZE"
    and rest: "ch < 253 \<and> n = ch \<and> t = s'
      \<or> ch = 253 \<and> ser_readdata 2 s' = Inr (n, t) \<and> 253 \<le> n
      \<or> ch = 254 \<and> ser_readdata 4 s' = Inr (n, t) \<and> 0x10000 \<le> n
      \<or> ch > 254 \<and> ser_readdata 8 s' = Inr (n, t) \<and> 0x100000000 \<le> n"
    by (auto simp: ReadCompactSize_def bindR_Inr_iff split: if_splits)
  have c: "ch < 256" "s = ser_writedata 1 ch @ s'" using ch by (simp_all add: data.dec_iff)
  with n rest show ?thesis
    by (auto simp: WriteCompactSize_def data.dec_iff MAX_SIZE_def)
qed

interpretation csize: canonical_codec WriteCompactSize ReadCompactSize "\<lambda>n. n \<le> MAX_SIZE"
  using ReadCompactSize_Write ReadCompactSize_canonical by unfold_locales blast+

subsection \<open>Variable-length integers\<close>

text \<open>The continuation bytes of a number: every digit carries the flag.\<close>

fun varint_hi :: "nat \<Rightarrow> bytes" where
  "varint_hi n =
     (if n \<le> 127 then [of_nat (128 + n)]
      else varint_hi (n div 128 - 1) @ [of_nat (128 + n mod 128)])"

declare varint_hi.simps [simp del]

lemma WriteVarInt_loop_hi: "tmp \<noteq> [] \<Longrightarrow> WriteVarInt_loop n tmp = varint_hi n @ tmp"
proof (induction n tmp rule: WriteVarInt_loop.induct)
  case (1 n tmp)
  then show ?case
    by (cases "n \<le> 127")
      (simp_all add: WriteVarInt_loop.simps [of n] varint_hi.simps [of n] add.commute)
qed

lemma WriteVarInt_eq:
  "WriteVarInt n =
     (if n \<le> 127 then [of_nat n] else varint_hi (n div 128 - 1) @ [of_nat (n mod 128)])"
  by (simp add: WriteVarInt_def WriteVarInt_loop.simps [of n] WriteVarInt_loop_hi)

lemma unat_digit:
  "d < 128 \<Longrightarrow> unat (of_nat d :: byte) = d"
  "d < 128 \<Longrightarrow> unat (of_nat (128 + d) :: byte) = 128 + d"
  by (simp_all add: unat_of_nat del: of_nat_add)

lemma varint_step:
  fixes n :: nat
  assumes "n < 2 ^ W"
  shows "(n div 128 * 128) mod 2 ^ W + n mod 128 = n"
proof -
  have "n div 128 * 128 < 2 ^ W"
    using assms by (meson div_times_less_eq_dividend order_le_less_trans)
  then show ?thesis by (simp add: div_mult_mod_eq)
qed

lemma varint_guard: "n < 2 ^ W \<Longrightarrow> \<not> (2 ^ W - 1) div 128 < n div (128::nat)"
  by (simp add: div_le_mono not_less)

lemma ReadVarInt_hi:
  "n + 1 < 2 ^ W \<Longrightarrow> ReadVarInt_loop W 0 (varint_hi n @ s) = ReadVarInt_loop W (n + 1) s"
proof (induction n arbitrary: s rule: varint_hi.induct)
  case (1 n)
  show ?case
  proof (cases "n \<le> 127")
    case True
    moreover from 1(2) have "n \<noteq> 2 ^ W - 1" by linarith
    ultimately show ?thesis
      by (simp add: varint_hi.simps [of n] Let_def unat_digit del: of_nat_add)
  next
    case False
    then have q: "n div 128 - 1 + 1 = n div 128" by (simp add: Suc_leI div_greater_zero_iff)
    have "n div 128 < 2 ^ W" using 1(2) by (meson add_lessD1 div_le_dividend order_le_less_trans)
    with False 1 q have "ReadVarInt_loop W 0 (varint_hi n @ s)
        = ReadVarInt_loop W (n div 128) (of_nat (128 + n mod 128) # s)"
      by (simp add: varint_hi.simps [of n])
    also have "\<dots> = ReadVarInt_loop W (n + 1) s"
      using 1(2) varint_step [of n W] varint_guard [of n W]
      by (auto simp add: Let_def unat_digit simp del: of_nat_add)
    finally show ?thesis .
  qed
qed

lemma ReadVarInt_Write:
  assumes "n < 2 ^ W"
  shows "ReadVarInt W (WriteVarInt n @ s) = Inr (n, s)"
proof (cases "n \<le> 127")
  case True
  then show ?thesis using assms
    by (simp add: ReadVarInt_def WriteVarInt_eq Let_def unat_digit)
next
  case False
  then have q: "n div 128 - 1 + 1 = n div 128" by (simp add: Suc_leI div_greater_zero_iff)
  have "n div 128 < 2 ^ W" using assms by (meson div_le_dividend order_le_less_trans)
  moreover have "\<not> 128 \<le> n mod 128" by (simp add: not_le)
  ultimately show ?thesis
    using False q ReadVarInt_hi [of "n div 128 - 1" W "of_nat (n mod 128) # s"] assms
      varint_step [of n W] varint_guard [of n W]
    by (simp add: ReadVarInt_def WriteVarInt_eq Let_def unat_digit)
qed

lemma varint_room:
  assumes "7 \<le> W" and "a \<le> (2 ^ W - 1) div 128" and "d < (128::nat)"
  shows "(a * 128) mod 2 ^ W + d = a * 128 + d" and "a * 128 + d < 2 ^ W"
proof -
  obtain v where W: "W = v + 7" using assms(1) by (metis add.commute le_Suc_ex)
  have "2 ^ v * 128 - 1 < 2 ^ v * (128::nat)" by simp
  then have "(2 ^ v * 128 - 1) div 128 < (2::nat) ^ v" by (rule less_mult_imp_div_less)
  then have "a < 2 ^ v" using assms(2) W by (simp add: power_add)
  then have "a * 128 + 128 \<le> 2 ^ W" using W by (simp add: power_add)
  with assms(3) show "a * 128 + d < 2 ^ W" by linarith
  with \<open>a * 128 + 128 \<le> 2 ^ W\<close> show "(a * 128) mod 2 ^ W + d = a * 128 + d" by simp
qed

lemma byte_split: "c = of_nat (unat c mod 128 + (if 128 \<le> unat c then 128 else 0))" for c :: byte
proof -
  have "unat c mod 128 + (if 128 \<le> unat c then 128 else 0) = unat c"
    using byte_less [of c] by (auto simp del: byte_less simp: mod_if)
  then show ?thesis by simp
qed

lemma varint_hi_snoc:
  assumes "a = 0 \<and> p = [] \<or> 0 < a \<and> p = varint_hi (a - 1)" and "d < 128"
  shows "p @ [of_nat (128 + d)] = varint_hi (a * 128 + d)"
    and "p @ [of_nat d] = WriteVarInt (a * 128 + d)"
  using assms by (auto simp: varint_hi.simps [of "a * 128 + d"] varint_hi.simps [of d] WriteVarInt_eq)

lemma ReadVarInt_canonical_gen:
  "ReadVarInt_loop W a s = Inr (n, t) \<Longrightarrow> 7 \<le> W \<Longrightarrow>
    a = 0 \<and> p = [] \<or> 0 < a \<and> p = varint_hi (a - 1) \<Longrightarrow> n < 2 ^ W \<and> p @ s = WriteVarInt n @ t"
proof (induction W a s arbitrary: p rule: ReadVarInt_loop.induct)
  case (2 W a c s)
  let ?d = "unat c mod 128"
  let ?n = "a * 128 + ?d"
  have d: "?d < 128" by simp
  have a: "a \<le> (2 ^ W - 1) div 128" using "2.prems"(1) by (auto split: if_splits)
  note room = varint_room [OF "2.prems"(2) a d]
  note snoc = varint_hi_snoc [OF "2.prems"(3) d]
  show ?case
  proof (cases "128 \<le> unat c")
    case True
    with "2.prems"(1) a room have "ReadVarInt_loop W (?n + 1) s = Inr (n, t)" "?n \<noteq> 2 ^ W - 1"
      by (auto simp: Let_def split: if_splits)
    then have "n < 2 ^ W \<and> varint_hi ?n @ s = WriteVarInt n @ t"
      using "2.IH" [of ?n "varint_hi ?n"] "2.prems"(2) a room True by simp
    moreover have "c = of_nat (128 + ?d)" using byte_split [of c] True by (simp add: add.commute)
    with snoc(1) have "varint_hi ?n @ s = p @ c # s" by (metis append.assoc append_Cons append_Nil)
    ultimately show ?thesis by simp
  next
    case False
    moreover have "c = of_nat ?d" using byte_split [of c] False by simp
    ultimately show ?thesis
      using "2.prems"(1) a room snoc(2) by (auto simp: Let_def split: if_splits)
  qed
qed simp

text \<open>Read with a width of at least seven bits, every variable-length integer has one encoding.\<close>

lemma varint_codec: "7 \<le> W \<Longrightarrow> canonical_codec WriteVarInt (ReadVarInt W) (\<lambda>n. n < 2 ^ W)"
  by unfold_locales
    (use ReadVarInt_Write ReadVarInt_canonical_gen [where a = 0 and p = "[]"] in
      \<open>auto simp: ReadVarInt_def\<close>)

interpretation varint32: canonical_codec WriteVarInt "ReadVarInt 32" "\<lambda>n. n < 2 ^ 32"
  by (rule varint_codec) simp

interpretation varint64: canonical_codec WriteVarInt "ReadVarInt 64" "\<lambda>n. n < 2 ^ 64"
  by (rule varint_codec) simp

text \<open>The buffer \<open>tmp\<close> holds \<open>(W + 6) div 7\<close> bytes; \<open>GetSizeOfVarInt\<close> is the number used.\<close>

lemma length_varint_hi: "length (varint_hi n) = GetSizeOfVarInt n"
proof (induction n rule: varint_hi.induct)
  case (1 n)
  then show ?case
    by (cases "n \<le> 127") (simp_all add: varint_hi.simps [of n] GetSizeOfVarInt.simps [of n])
qed

lemma length_WriteVarInt: "length (WriteVarInt n) = GetSizeOfVarInt n"
  by (simp add: WriteVarInt_eq length_varint_hi GetSizeOfVarInt.simps [of n])

lemma GetSizeOfVarInt_bound: "n < 2 ^ W \<Longrightarrow> 0 < W \<Longrightarrow> GetSizeOfVarInt n \<le> (W + 6) div 7"
proof (induction n arbitrary: W rule: GetSizeOfVarInt.induct)
  case (1 n)
  show ?case
  proof (cases "n \<le> 127")
    case True
    with "1.prems" show ?thesis by (simp add: GetSizeOfVarInt.simps [of n])
  next
    case False
    have "7 < W"
    proof (rule ccontr)
      assume "\<not> 7 < W"
      then have "(2::nat) ^ W \<le> 2 ^ 7" by (intro power_increasing) auto
      with False "1.prems" show False by simp
    qed
    then obtain v where v: "W = v + 7" "0 < v" by (metis add.commute less_imp_add_positive)
    with "1.prems" have "n div 128 < 2 ^ v"
      by (simp add: power_add less_mult_imp_div_less)
    then have "n div 128 - 1 < 2 ^ v" by linarith
    with False v "1.IH" [of v] have "GetSizeOfVarInt (n div 128 - 1) \<le> (v + 6) div 7" by simp
    with False v show ?thesis by (simp add: GetSizeOfVarInt.simps [of n])
  qed
qed

subsection \<open>Blobs, vectors and pairs\<close>

lemma read_blocks_eq:
  "read_blocks n v s = bindR (ser_read n s) (\<lambda>(b, t). Inr (v @ b, t))"
proof (induction n v s rule: read_blocks.induct)
  case (1 n v s)
  show ?case
  proof (cases "n = 0")
    case True
    then show ?thesis by (simp add: read_blocks.simps [of 0] ser_read_def)
  next
    case False
    let ?m = "min n BLOCK"
    show ?thesis
    proof (cases "?m \<le> length s")
      case True
      then have r: "ser_read ?m s = Inr (take ?m s, drop ?m s)" by (simp add: ser_read_def)
      have "read_blocks n v s = read_blocks (n - ?m) (v @ take ?m s) (drop ?m s)"
        using False r by (simp add: read_blocks.simps [of n])
      also have "\<dots> = bindR (ser_read (n - ?m) (drop ?m s)) (\<lambda>(b, t). Inr ((v @ take ?m s) @ b, t))"
        using "1.IH" [OF False r] by simp
      also have "\<dots> = bindR (ser_read n s) (\<lambda>(b, t). Inr (v @ b, t))"
        using True by (auto simp: ser_read_def take_add [symmetric] min_def)
      finally show ?thesis .
    next
      case False
      with \<open>n \<noteq> 0\<close> show ?thesis by (simp add: read_blocks.simps [of n] ser_read_def)
    qed
  qed
qed

interpretation blob: canonical_codec Serialize_blob Unserialize_blob "\<lambda>v. length v \<le> MAX_SIZE"
proof
  show "Unserialize_blob (Serialize_blob v @ s) = Inr (v, s)" if "length v \<le> MAX_SIZE" for v s
    using that by (simp add: Unserialize_blob_def Serialize_blob_def csize.dec_enc read_blocks_eq)
  show "length v \<le> MAX_SIZE \<and> s = Serialize_blob v @ t" if "Unserialize_blob s = Inr (v, t)" for s v t
    using that
    by (auto simp: Unserialize_blob_def Serialize_blob_def csize.dec_iff read_blocks_eq
        bindR_Inr_iff ser_read_iff)
qed

context codec
begin

lemma vec_codec:
  "codec (Serialize_vec enc) (Unserialize_vec dec) (\<lambda>v. length v \<le> MAX_SIZE \<and> (\<forall>x \<in> set v. wf x))"
  by unfold_locales
    (simp add: Serialize_vec_def Unserialize_vec_def csize.dec_enc dec_elems)

lemma pair_codec:
  assumes "codec enc' dec' wf'"
  shows "codec (Serialize_pair enc enc') (Unserialize_pair dec dec') (\<lambda>p. wf (fst p) \<and> wf' (snd p))"
  by unfold_locales
    (simp add: Serialize_pair_def Unserialize_pair_def dec_enc codec.dec_enc [OF assms])

end

context canonical_codec
begin

lemma vec_canonical:
  "canonical_codec (Serialize_vec enc) (Unserialize_vec dec)
     (\<lambda>v. length v \<le> MAX_SIZE \<and> (\<forall>x \<in> set v. wf x))"
proof (intro canonical_codec.intro vec_codec canonical_codec_axioms.intro)
  fix s v t
  assume "Unserialize_vec dec s = Inr (v, t)"
  then obtain n s' where "ReadCompactSize s = Inr (n, s')" and "read_elems dec n s' = Inr (v, t)"
    by (auto simp: Unserialize_vec_def bindR_Inr_iff)
  with elems_canonical [of n s' v t]
  show "(length v \<le> MAX_SIZE \<and> (\<forall>x \<in> set v. wf x)) \<and> s = Serialize_vec enc v @ t"
    by (auto simp: csize.dec_iff Serialize_vec_def)
qed

end

subsection \<open>Properties\<close>

text \<open>A compact size is accepted exactly when it is the encoding that \<open>WriteCompactSize\<close> makes
  of a number of at most \<open>MAX_SIZE\<close>: non-canonical, oversized and truncated inputs all throw.\<close>

theorem ReadCompactSize_iff:
  "ReadCompactSize s = Inr (n, t) \<longleftrightarrow> n \<le> MAX_SIZE \<and> s = WriteCompactSize n @ t"
  by (rule csize.dec_iff)

text \<open>\<open>ReadVarInt\<close> on 64-bit integers accepts exactly the encodings of \<open>WriteVarInt\<close>, so the
  encoding is one-to-one as the comment in the source says, and \<open>WriteVarInt\<close> never writes past
  its buffer of \<open>(64 + 6) div 7\<close> bytes.\<close>

theorem ReadVarInt64_iff:
  "(ReadVarInt 64 s = Inr (n, t) \<longleftrightarrow> n < 2 ^ 64 \<and> s = WriteVarInt n @ t)
   \<and> length (WriteVarInt (unat (w :: u64))) \<le> (64 + 6) div 7"
proof -
  have "unat w < 2 ^ 64" using unsigned_less [of w] by simp
  then have "length (WriteVarInt (unat w)) \<le> (64 + 6) div 7"
    using GetSizeOfVarInt_bound [of "unat w" 64] by (simp add: length_WriteVarInt)
  then show ?thesis using varint64.dec_iff by blast
qed

end
