(* ===== verification/Arith_Uint.thy ===== *)
theory Arith_Uint
  imports RVC_Prelude
begin

unbundle bit_operations_syntax

text \<open>
  The big unsigned integers of \<open>src/src/arith_uint256.{h,cpp}\<close>. A \<open>base_uint<BITS>\<close> is its array
  \<open>pn\<close> of \<open>WIDTH = BITS/32\<close> limbs, least significant first, as a list of 32-bit words; the
  operations are the loops of the source over the limbs, with 64-bit intermediate values. \<open>lval\<close>
  is the number a limb list stands for, and every operation is shown to refine the arithmetic
  operation of its name modulo \<open>2 ^ BITS\<close>.
\<close>

type_synonym limbs = "u32 list"

fun lval :: "limbs \<Rightarrow> nat" where
  "lval [] = 0"
| "lval (p # ps) = unat p + 2 ^ 32 * lval ps"

subsection \<open>Construction, complement, increment, addition\<close>

definition base_uint_zero :: "nat \<Rightarrow> limbs" where
  "base_uint_zero WIDTH = replicate WIDTH 0"

definition base_uint_of :: "nat \<Rightarrow> u64 \<Rightarrow> limbs" where
  "base_uint_of WIDTH b = [ucast b, ucast (drop_bit 32 b)] @ replicate (WIDTH - 2) 0"

definition op_not :: "limbs \<Rightarrow> bool" where
  "op_not pn = list_all (\<lambda>p. p = 0) pn"

definition op_compl :: "limbs \<Rightarrow> limbs" where
  "op_compl pn = map (NOT) pn"

fun op_inc :: "limbs \<Rightarrow> limbs" where
  "op_inc [] = []"
| "op_inc (p # pn) = (if p + 1 = 0 then (p + 1) # op_inc pn else (p + 1) # pn)"

fun op_dec :: "limbs \<Rightarrow> limbs" where
  "op_dec [] = []"
| "op_dec (p # pn) = (if p - 1 = - 1 then (p - 1) # op_dec pn else (p - 1) # pn)"

definition op_neg :: "limbs \<Rightarrow> limbs" where
  "op_neg pn = op_inc (map (NOT) pn)"

fun add_loop :: "u64 \<Rightarrow> limbs \<Rightarrow> limbs \<Rightarrow> limbs" where
  "add_loop carry (p # pn) (b # bs) =
     (let n = carry + ucast p + ucast b in ucast n # add_loop (drop_bit 32 n) pn bs)"
| "add_loop carry pn bs = []"

definition op_add :: "limbs \<Rightarrow> limbs \<Rightarrow> limbs" where
  "op_add pn b = add_loop 0 pn b"

definition op_sub :: "limbs \<Rightarrow> limbs \<Rightarrow> limbs" where
  "op_sub pn b = op_add pn (op_neg b)"

definition op_add64 :: "limbs \<Rightarrow> u64 \<Rightarrow> limbs" where
  "op_add64 pn b64 = op_add pn (base_uint_of (length pn) b64)"

definition op_sub64 :: "limbs \<Rightarrow> u64 \<Rightarrow> limbs" where
  "op_sub64 pn b64 = op_add pn (op_neg (base_uint_of (length pn) b64))"

definition op_xor :: "limbs \<Rightarrow> limbs \<Rightarrow> limbs" where
  "op_xor pn b = map2 (XOR) pn b"

definition op_and :: "limbs \<Rightarrow> limbs \<Rightarrow> limbs" where
  "op_and pn b = map2 (AND) pn b"

definition op_or :: "limbs \<Rightarrow> limbs \<Rightarrow> limbs" where
  "op_or pn b = map2 (OR) pn b"

definition op_xor64 :: "limbs \<Rightarrow> u64 \<Rightarrow> limbs" where
  "op_xor64 pn b = pn[0 := pn ! 0 XOR ucast b, 1 := pn ! 1 XOR ucast (drop_bit 32 b)]"

definition op_or64 :: "limbs \<Rightarrow> u64 \<Rightarrow> limbs" where
  "op_or64 pn b = pn[0 := pn ! 0 OR ucast b, 1 := pn ! 1 OR ucast (drop_bit 32 b)]"

subsection \<open>Multiplication\<close>

fun mul32_loop :: "u64 \<Rightarrow> u32 \<Rightarrow> limbs \<Rightarrow> limbs" where
  "mul32_loop carry b32 [] = []"
| "mul32_loop carry b32 (p # pn) =
     (let n = carry + ucast b32 * ucast p in ucast n # mul32_loop (drop_bit 32 n) b32 pn)"

definition op_mul32 :: "limbs \<Rightarrow> u32 \<Rightarrow> limbs" where
  "op_mul32 pn b32 = mul32_loop 0 b32 pn"

text \<open>
  The inner loop of the schoolbook product adds \<open>a.pn[j] * b\<close> to the limbs from \<open>j\<close> on; the outer
  loop runs over \<open>j\<close>, so the limb at \<open>j\<close> is final once the inner loop has passed it. The argument is a
  value, which is what the code has unless it is the object itself, cleared before it is read.
\<close>

fun mul_row :: "u64 \<Rightarrow> u32 \<Rightarrow> limbs \<Rightarrow> limbs \<Rightarrow> limbs" where
  "mul_row carry aj (b # bs) (p # pn) =
     (let n = carry + ucast p + ucast aj * ucast b in ucast n # mul_row (drop_bit 32 n) aj bs pn)"
| "mul_row carry aj bs pn = []"

fun mul_rows :: "limbs \<Rightarrow> limbs \<Rightarrow> limbs \<Rightarrow> limbs" where
  "mul_rows (aj # a) b (p # pn) =
     (case mul_row 0 aj b (p # pn) of [] \<Rightarrow> [] | q # qs \<Rightarrow> q # mul_rows a b qs)"
| "mul_rows a b pn = []"

definition op_mul :: "limbs \<Rightarrow> limbs \<Rightarrow> limbs" where
  "op_mul a b = mul_rows a b (replicate (length a) 0)"

subsection \<open>Shifts\<close>

definition shl_body :: "limbs \<Rightarrow> nat \<Rightarrow> nat \<Rightarrow> nat \<Rightarrow> limbs \<Rightarrow> limbs" where
  "shl_body a k shift i pn =
     (let WIDTH = length a;
          pn = (if i + k + 1 < WIDTH \<and> shift \<noteq> 0
                then pn[i + k + 1 := pn ! (i + k + 1) OR drop_bit (32 - shift) (a ! i)] else pn)
      in if i + k < WIDTH then pn[i + k := pn ! (i + k) OR push_bit shift (a ! i)] else pn)"

definition op_shl :: "limbs \<Rightarrow> nat \<Rightarrow> limbs" where
  "op_shl a shift =
     fold (shl_body a (shift div 32) (shift mod 32)) [0..<length a] (replicate (length a) 0)"

definition shr_body :: "limbs \<Rightarrow> nat \<Rightarrow> nat \<Rightarrow> nat \<Rightarrow> limbs \<Rightarrow> limbs" where
  "shr_body a k shift i pn =
     (let pn = (if int i - int k - 1 \<ge> 0 \<and> shift \<noteq> 0
                then pn[i - k - 1 := pn ! (i - k - 1) OR push_bit (32 - shift) (a ! i)] else pn)
      in if int i - int k \<ge> 0 then pn[i - k := pn ! (i - k) OR drop_bit shift (a ! i)] else pn)"

definition op_shr :: "limbs \<Rightarrow> nat \<Rightarrow> limbs" where
  "op_shr a shift =
     fold (shr_body a (shift div 32) (shift mod 32)) [0..<length a] (replicate (length a) 0)"

subsection \<open>Comparison and bit length\<close>

primrec cmp_loop :: "limbs \<Rightarrow> limbs \<Rightarrow> nat \<Rightarrow> int" where
  "cmp_loop pn b 0 = 0"
| "cmp_loop pn b (Suc i) =
     (if pn ! i < b ! i then - 1 else if pn ! i > b ! i then 1 else cmp_loop pn b i)"

definition CompareTo :: "limbs \<Rightarrow> limbs \<Rightarrow> int" where
  "CompareTo pn b = cmp_loop pn b (length pn)"

definition EqualTo :: "limbs \<Rightarrow> u64 \<Rightarrow> bool" where
  "EqualTo pn b \<longleftrightarrow> list_all (\<lambda>p. p = 0) (drop 2 pn)
     \<and> ucast (pn ! 1) = drop_bit 32 b \<and> ucast (pn ! 0) = b AND 0xffffffff"

primrec nbits_loop :: "u32 \<Rightarrow> nat \<Rightarrow> nat option" where
  "nbits_loop p 0 = None"
| "nbits_loop p (Suc n) = (if p AND push_bit (Suc n) 1 \<noteq> 0 then Some (Suc n) else nbits_loop p n)"

primrec bits_loop :: "limbs \<Rightarrow> nat \<Rightarrow> nat" where
  "bits_loop pn 0 = 0"
| "bits_loop pn (Suc pos) =
     (if pn ! pos \<noteq> 0
      then (case nbits_loop (pn ! pos) 31 of Some nbits \<Rightarrow> 32 * pos + nbits + 1 | None \<Rightarrow> 32 * pos + 1)
      else bits_loop pn pos)"

definition bits_of :: "limbs \<Rightarrow> nat" where
  "bits_of pn = bits_loop pn (length pn)"

definition GetLow64 :: "limbs \<Rightarrow> u64" where
  "GetLow64 pn = ucast (pn ! 0) OR push_bit 32 (ucast (pn ! 1))"

subsection \<open>Division\<close>

text \<open>\<open>n\<close> is \<open>shift + 1\<close>: the loop runs while \<open>shift \<ge> 0\<close>.\<close>

primrec div_loop :: "nat \<Rightarrow> limbs \<Rightarrow> limbs \<Rightarrow> limbs \<Rightarrow> limbs" where
  "div_loop 0 num dv q = q"
| "div_loop (Suc shift) num dv q =
     (if CompareTo num dv \<ge> 0
      then div_loop shift (op_sub num dv) (op_shr dv 1)
             (q[shift div 32 := q ! (shift div 32) OR push_bit (shift mod 32) 1])
      else div_loop shift num (op_shr dv 1) q)"

definition op_div :: "limbs \<Rightarrow> limbs \<Rightarrow> limbs result" where
  "op_div a b =
     (let num_bits = bits_of a; div_bits = bits_of b in
      if div_bits = 0 then Inl (Thrown ''Division by zero'')
      else if div_bits > num_bits then Inr (replicate (length a) 0)
      else let shift = num_bits - div_bits
           in Inr (div_loop (Suc shift) a (op_shl b shift) (replicate (length a) 0)))"

subsection \<open>The compact format\<close>

definition SetCompact :: "u32 \<Rightarrow> limbs \<times> bool \<times> bool" where
  "SetCompact nCompact =
     (let nSize = unat (drop_bit 24 nCompact);
          nWord = nCompact AND 0x007fffff;
          nWord' = (if nSize \<le> 3 then drop_bit (8 * (3 - nSize)) nWord else nWord);
          v = (if nSize \<le> 3 then base_uint_of 8 (ucast nWord')
               else op_shl (base_uint_of 8 (ucast nWord')) (8 * (nSize - 3)));
          fNegative = (nWord' \<noteq> 0 \<and> nCompact AND 0x00800000 \<noteq> 0);
          fOverflow = (nWord' \<noteq> 0 \<and> (nSize > 34 \<or> (nWord' > 0xff \<and> nSize > 33)
                         \<or> (nWord' > 0xffff \<and> nSize > 32)))
      in (v, fNegative, fOverflow))"

definition GetCompact :: "limbs \<Rightarrow> bool \<Rightarrow> u32 result" where
  "GetCompact a fNegative =
     (let nSize = (bits_of a + 7) div 8;
          nCompact = (if nSize \<le> 3 then ucast (push_bit (8 * (3 - nSize)) (GetLow64 a))
                      else ucast (GetLow64 (op_shr a (8 * (nSize - 3)))) :: u32);
          (nCompact, nSize) =
            (if nCompact AND 0x00800000 \<noteq> 0 then (drop_bit 8 nCompact, nSize + 1)
             else (nCompact, nSize))
      in bindR (assertR (nCompact AND NOT 0x007fffff = 0)) (\<lambda>_.
         bindR (assertR (nSize < 256)) (\<lambda>_.
           (let nCompact = nCompact OR push_bit 24 (of_nat nSize) in
            Inr (nCompact OR (if fNegative \<and> nCompact AND 0x007fffff \<noteq> 0
                              then 0x00800000 else 0))))))"

subsection \<open>Byte and text forms\<close>

text \<open>\<open>uint256\<close> is a blob of 32 bytes, little-endian.\<close>

definition ReadLE32 :: "bytes \<Rightarrow> u32" where
  "ReadLE32 b = ucast (b ! 0) OR push_bit 8 (ucast (b ! 1)) OR push_bit 16 (ucast (b ! 2))
     OR push_bit 24 (ucast (b ! 3))"

definition WriteLE32 :: "u32 \<Rightarrow> bytes" where
  "WriteLE32 x = [ucast x, ucast (drop_bit 8 x), ucast (drop_bit 16 x), ucast (drop_bit 24 x)]"

definition ArithToUint256 :: "limbs \<Rightarrow> bytes" where
  "ArithToUint256 a = concat (map WriteLE32 a)"

definition UintToArith256 :: "bytes \<Rightarrow> limbs" where
  "UintToArith256 b = map (\<lambda>x. ReadLE32 (drop (4 * x) b)) [0..<8]"

definition ArithToUint512 :: "limbs \<Rightarrow> bytes" where
  "ArithToUint512 a = concat (map WriteLE32 a)"

definition UintToArith512 :: "bytes \<Rightarrow> limbs" where
  "UintToArith512 b = map (\<lambda>x. ReadLE32 (drop (4 * x) b)) [0..<16]"

definition arith_uint512_of :: "limbs \<Rightarrow> limbs" where
  "arith_uint512_of b = b @ replicate (16 - length b) 0"

definition trim256 :: "limbs \<Rightarrow> limbs" where
  "trim256 pn = take 8 pn"

text \<open>
  \<open>SetHex\<close> copies the bytes of the C string into the limbs, four at a time; \<open>psz\<close> is the memory
  from the start of the string on, and reading past it is out of range.
\<close>

definition SetHex :: "nat \<Rightarrow> bytes \<Rightarrow> limbs result" where
  "SetHex WIDTH psz =
     (if length psz < 4 * WIDTH then Inl OutOfRange
      else Inr (map (\<lambda>x. ReadLE32 (drop (4 * x) psz)) [0..<WIDTH]))"

subsection \<open>Limb arithmetic\<close>

lemma u32_less [simp]: "unat (p :: u32) < 4294967296"
  using unsigned_less [of p] by simp

lemma u64_less [simp]: "unat (p :: u64) < 18446744073709551616"
  using unsigned_less [of p] by simp

lemma unat_low32: "unat (ucast (n :: u64) :: u32) = unat n mod 4294967296"
  by (simp add: unsigned_ucast_eq take_bit_eq_mod)

lemma unat_high32: "unat (drop_bit 32 (n :: u64)) = unat n div 4294967296"
  using drop_bit_eq_div [of 32 "unat n"] by (simp add: unat_drop_bit_eq)

lemma unat_ucast_up: "unat (ucast (p :: u32) :: u64) = unat p"
  by (simp add: unsigned_ucast_eq take_bit_nat_eq_self order_less_trans [OF u32_less])

lemma unat_sum3:
  assumes "unat (c :: u64) \<le> 1"
  shows "unat (c + ucast (p :: u32) + ucast (b :: u32)) = unat c + unat p + unat b"
  using assms u32_less [of p] u32_less [of b]
  by (simp add: unat_word_ariths unat_ucast_up del: u32_less)

lemma mult32_le: "unat (a :: u32) * unat (b :: u32) \<le> 18446744065119617025"
proof -
  have "unat a \<le> 4294967295" and "unat b \<le> 4294967295"
    using u32_less [of a] u32_less [of b] by linarith+
  then have "unat a * unat b \<le> 4294967295 * 4294967295" by (rule mult_le_mono)
  then show ?thesis by simp
qed

lemma unat_mac:
  assumes "unat (c :: u64) < 4294967296"
  shows "unat (c + ucast (p :: u32) + ucast (a :: u32) * ucast (b :: u32))
           = unat c + unat p + unat a * unat b"
  using assms mult32_le [of a b] u32_less [of p]
  by (simp add: unat_word_ariths unat_ucast_up del: u32_less)

lemma unat_mac0:
  assumes "unat (c :: u64) < 4294967296"
  shows "unat (c + ucast (a :: u32) * ucast (b :: u32)) = unat c + unat a * unat b"
  using unat_mac [OF assms, of 0 a b] by simp

lemma lval_less: "lval ps < 2 ^ (32 * length ps)"
proof (induction ps)
  case (Cons p ps)
  then have "lval ps + 1 \<le> 2 ^ (32 * length ps)" by simp
  then have "4294967296 * (lval ps + 1) \<le> 4294967296 * 2 ^ (32 * length ps)" by simp
  with u32_less [of p] show ?case by (simp add: power_add algebra_simps del: u32_less)
qed simp

lemma carry_mod:
  "n mod B + B * ((n div B + y) mod M) = (n + B * y) mod (B * M)" if "0 < B" for n B y M :: nat
  using that by (simp add: mod_mult2_eq add.commute)

lemma length_add_loop [simp]: "length (add_loop c ps bs) = min (length ps) (length bs)"
  by (induction c ps bs rule: add_loop.induct) (simp_all add: Let_def)

lemma lval_add_loop:
  assumes "length ps = length bs" and "unat c \<le> 1"
  shows "lval (add_loop c ps bs) = (unat c + lval ps + lval bs) mod 2 ^ (32 * length ps)"
  using assms
proof (induction c ps bs rule: add_loop.induct)
  case (1 c p ps b bs)
  let ?n = "c + ucast p + ucast b :: u64"
  note n = unat_sum3 [OF "1.prems"(2), of p b]
  have "unat (drop_bit 32 ?n) \<le> 1"
    using "1.prems"(2) u32_less [of p] u32_less [of b] by (simp add: unat_high32 n del: u32_less)
  with "1.IH" [OF refl] "1.prems" have IH: "lval (add_loop (drop_bit 32 ?n) ps bs)
      = (unat ?n div 4294967296 + (lval ps + lval bs)) mod 2 ^ (32 * length ps)"
    by (simp add: unat_high32 add.assoc)
  have "lval (add_loop c (p # ps) (b # bs))
      = unat ?n mod 4294967296 + 4294967296 * ((unat ?n div 4294967296 + (lval ps + lval bs))
          mod 2 ^ (32 * length ps))"
    by (simp add: Let_def unat_low32 IH)
  also have "\<dots> = (unat ?n + 4294967296 * (lval ps + lval bs)) mod (4294967296 * 2 ^ (32 * length ps))"
    by (rule carry_mod) simp
  finally show ?case unfolding n by (simp add: power_add algebra_simps)
qed simp_all

lemma length_op_add [simp]: "length (op_add a b) = min (length a) (length b)"
  by (simp add: op_add_def)

lemma lval_add:
  "length a = length b \<Longrightarrow> lval (op_add a b) = (lval a + lval b) mod 2 ^ (32 * length a)"
  by (simp add: op_add_def lval_add_loop)

lemma length_op_inc [simp]: "length (op_inc ps) = length ps"
  by (induction ps) simp_all

lemma lval_inc: "lval (op_inc ps) = (lval ps + 1) mod 2 ^ (32 * length ps)"
proof (induction ps)
  case (Cons p ps)
  show ?case
  proof (cases "p + 1 = 0")
    case True
    then have "p = - 1" by (simp add: eq_neg_iff_add_eq_0)
    then have p: "unat p = 4294967295" by (simp add: unsigned_minus_1_eq_mask mask_eq_exp_minus_1)
    have "lval (op_inc (p # ps)) = 0 mod 4294967296 + 4294967296 * ((4294967296 div 4294967296 + lval ps)
            mod 2 ^ (32 * length ps))"
      using True Cons by simp
    also have "\<dots> = (4294967296 + 4294967296 * lval ps) mod (4294967296 * 2 ^ (32 * length ps))"
      using carry_mod [of 4294967296 4294967296 "lval ps" "2 ^ (32 * length ps)"] by simp
    finally show ?thesis using p by (simp add: power_add algebra_simps)
  next
    case False
    then have "unat (p + 1) = unat p + 1" using unatSuc [of p] by (simp add: add.commute)
    with False have "lval (op_inc (p # ps)) = lval (p # ps) + 1" by simp
    moreover have "lval (op_inc (p # ps)) < 2 ^ (32 * length (op_inc (p # ps)))" by (rule lval_less)
    ultimately show ?thesis by (metis length_op_inc mod_less)
  qed
qed simp

lemma unat_NOT32: "unat (NOT (p :: u32)) = 4294967295 - unat p"
proof -
  have "NOT p = - 1 - p" by (simp add: not_eq_complement)
  moreover have "unat (- 1 - p) = unat (- 1 :: u32) - unat p" by (rule unat_sub) simp
  ultimately show ?thesis by (simp add: unsigned_minus_1_eq_mask mask_eq_exp_minus_1)
qed

lemma lval_compl: "lval (map (NOT) ps) = 2 ^ (32 * length ps) - 1 - lval ps"
proof (induction ps)
  case (Cons p ps)
  have "lval ps + 1 \<le> 2 ^ (32 * length ps)" using lval_less [of ps] by simp
  with Cons u32_less [of p] show ?case
    by (simp add: unat_NOT32 power_add algebra_simps diff_mult_distrib del: u32_less)
qed simp

lemma length_op_neg [simp]: "length (op_neg ps) = length ps"
  by (simp add: op_neg_def)

lemma lval_neg: "lval (op_neg ps) = (2 ^ (32 * length ps) - lval ps) mod 2 ^ (32 * length ps)"
proof -
  have "2 ^ (32 * length ps) - 1 - lval ps + 1 = 2 ^ (32 * length ps) - lval ps"
    using lval_less [of ps] by linarith
  then show ?thesis by (simp only: op_neg_def lval_inc lval_compl length_map)
qed

lemma lval_sub:
  assumes "length a = length b"
  shows "lval (op_sub a b) = (lval a + (2 ^ (32 * length a) - lval b)) mod 2 ^ (32 * length a)"
  using assms by (simp add: op_sub_def lval_add lval_neg mod_simps)

lemma lval_sub_le:
  assumes "length a = length b" and "lval b \<le> lval a"
  shows "lval (op_sub a b) = lval a - lval b"
proof -
  have "lval a + (2 ^ (32 * length a) - lval b) = (lval a - lval b) + 2 ^ (32 * length a)"
    using assms lval_less [of b] by simp
  moreover have "lval a - lval b < 2 ^ (32 * length a)" using lval_less [of a] by linarith
  ultimately show ?thesis using assms by (metis lval_sub mod_add_self2 mod_less)
qed

lemma length_op_sub [simp]: "length (op_sub a b) = min (length a) (length b)"
  by (simp add: op_sub_def)

lemma lval_mul32_loop:
  assumes "unat c < 4294967296"
  shows "lval (mul32_loop c b ps) = (unat c + unat b * lval ps) mod 2 ^ (32 * length ps)"
  using assms
proof (induction c b ps rule: mul32_loop.induct)
  case (2 c b p ps)
  let ?n = "c + ucast b * ucast p :: u64"
  note n = unat_mac0 [OF "2.prems", of b p]
  have "unat (drop_bit 32 ?n) < 4294967296"
    using u64_less [of ?n] by (simp add: unat_high32 less_mult_imp_div_less del: u64_less)
  with "2.IH" [OF refl] have IH: "lval (mul32_loop (drop_bit 32 ?n) b ps)
      = (unat ?n div 4294967296 + unat b * lval ps) mod 2 ^ (32 * length ps)"
    by (simp add: unat_high32)
  have "lval (mul32_loop c b (p # ps)) = unat ?n mod 4294967296
      + 4294967296 * ((unat ?n div 4294967296 + unat b * lval ps) mod 2 ^ (32 * length ps))"
    by (simp add: Let_def unat_low32 IH)
  also have "\<dots> = (unat ?n + 4294967296 * (unat b * lval ps)) mod (4294967296 * 2 ^ (32 * length ps))"
    by (rule carry_mod) simp
  finally show ?case unfolding n by (simp add: power_add algebra_simps)
qed simp

lemma length_mul32_loop [simp]: "length (mul32_loop c b ps) = length ps"
  by (induction c b ps rule: mul32_loop.induct) (simp_all add: Let_def)

lemma length_op_mul32 [simp]: "length (op_mul32 ps b) = length ps"
  by (simp add: op_mul32_def)

lemma lval_mul32: "lval (op_mul32 ps b) = (lval ps * unat b) mod 2 ^ (32 * length ps)"
  by (simp add: op_mul32_def lval_mul32_loop mult.commute)

lemma lval_mul_row:
  assumes "unat c < 4294967296" and "length ps \<le> length bs"
  shows "lval (mul_row c a bs ps) = (unat c + lval ps + unat a * lval bs) mod 2 ^ (32 * length ps)"
  using assms
proof (induction c a bs ps rule: mul_row.induct)
  case (1 c a b bs p ps)
  let ?n = "c + ucast p + ucast a * ucast b :: u64"
  note n = unat_mac [OF "1.prems"(1), of p a b]
  have "unat (drop_bit 32 ?n) < 4294967296"
    using u64_less [of ?n] by (simp add: unat_high32 less_mult_imp_div_less del: u64_less)
  with "1.IH" [OF refl] "1.prems"(2) have IH: "lval (mul_row (drop_bit 32 ?n) a bs ps)
      = (unat ?n div 4294967296 + (lval ps + unat a * lval bs)) mod 2 ^ (32 * length ps)"
    by (simp add: unat_high32 add.assoc)
  have "lval (mul_row c a (b # bs) (p # ps)) = unat ?n mod 4294967296
      + 4294967296 * ((unat ?n div 4294967296 + (lval ps + unat a * lval bs)) mod 2 ^ (32 * length ps))"
    by (simp add: Let_def unat_low32 IH)
  also have "\<dots> = (unat ?n + 4294967296 * (lval ps + unat a * lval bs))
      mod (4294967296 * 2 ^ (32 * length ps))"
    by (rule carry_mod) simp
  finally show ?case unfolding n by (simp add: power_add algebra_simps)
qed simp_all

lemma length_mul_row [simp]: "length ps \<le> length bs \<Longrightarrow> length (mul_row c a bs ps) = length ps"
  by (induction c a bs ps rule: mul_row.induct) (simp_all add: Let_def)

lemma lval_mul_rows:
  assumes "length a = length ps" and "length ps \<le> length b"
  shows "length (mul_rows a b ps) = length ps \<and>
    lval (mul_rows a b ps) = (lval ps + lval a * lval b) mod 2 ^ (32 * length ps)"
  using assms
proof (induction a b ps rule: mul_rows.induct)
  case (1 aj a b p ps)
  obtain q qs where q: "mul_row 0 aj b (p # ps) = q # qs"
    using length_mul_row [of "p # ps" b 0 aj] "1.prems"(2) by (cases "mul_row 0 aj b (p # ps)") auto
  have lq: "length qs = length ps" using length_mul_row [of "p # ps" b 0 aj] "1.prems"(2) q by simp
  have v: "unat q + 4294967296 * lval qs
      = (lval (p # ps) + unat aj * lval b) mod (4294967296 * 2 ^ (32 * length ps))"
    using lval_mul_row [of 0 "p # ps" b aj] "1.prems"(2) q by (simp add: power_add)
  have IH: "length (mul_rows a b qs) = length qs"
    "lval (mul_rows a b qs) = (lval qs + lval a * lval b) mod 2 ^ (32 * length ps)"
    using "1.IH" [OF q] "1.prems" lq by simp_all
  have "lval (mul_rows (aj # a) b (p # ps))
      = (unat q + 4294967296 * lval qs + 4294967296 * (lval a * lval b)) mod (4294967296 * 2 ^ (32 * length ps))"
    using carry_mod [of 4294967296 "unat q" "lval qs + lval a * lval b" "2 ^ (32 * length ps)"] q IH(2)
    by (simp add: algebra_simps)
  also have "\<dots> = (lval (p # ps) + lval (aj # a) * lval b) mod (4294967296 * 2 ^ (32 * length ps))"
    unfolding v by (simp add: mod_simps algebra_simps)
  finally show ?case using q IH(1) lq by (simp add: power_add)
qed simp_all

lemma lval_replicate_0 [simp]: "lval (replicate n 0) = 0"
  by (induction n) simp_all

lemma length_op_mul [simp]: "length a = length b \<Longrightarrow> length (op_mul a b) = length a"
  using lval_mul_rows [of a "replicate (length a) 0" b] by (simp add: op_mul_def)

lemma lval_mul: "length a = length b \<Longrightarrow> lval (op_mul a b) = (lval a * lval b) mod 2 ^ (32 * length a)"
  using lval_mul_rows [of a "replicate (length a) 0" b] by (simp add: op_mul_def)

subsection \<open>Bits of a limb list and shifts\<close>

lemma bit_u32_less: "bit (p :: u32) n \<Longrightarrow> n < 32"
  using bit_imp_le_length [of p n] by simp

lemma bit_unat: "bit (unat w) n \<longleftrightarrow> bit w n" for w :: "'a::len word"
  by (simp add: bit_unsigned_iff)

lemma bit_lval: "bit (lval ps) n \<longleftrightarrow> n div 32 < length ps \<and> bit (ps ! (n div 32)) (n mod 32)"
proof (induction ps arbitrary: n)
  case (Cons p ps)
  have "lval (p # ps) = unat p OR push_bit 32 (lval ps)"
  proof -
    have "unat p + push_bit 32 (lval ps) = unat p OR push_bit 32 (lval ps)"
    proof (rule disjunctive_add)
      fix n
      show "\<not> bit (unat p) n \<or> \<not> bit (push_bit 32 (lval ps)) n"
        by (auto simp: bit_unat bit_push_bit_iff_nat dest: bit_u32_less)
    qed
    then show ?thesis by (simp add: push_bit_eq_mult mult.commute)
  qed
  then have b: "bit (lval (p # ps)) n \<longleftrightarrow> bit p n \<or> 32 \<le> n \<and> bit (lval ps) (n - 32)"
    by (simp add: bit_or_iff bit_unat bit_push_bit_iff_nat)
  show ?case
  proof (cases "n < 32")
    case True
    then show ?thesis using b by (simp del: lval.simps)
  next
    case False
    then obtain m where n: "n = m + 32" by (metis add.commute le_Suc_ex not_less)
    then have "n div 32 = Suc (m div 32)" and "n mod 32 = m mod 32" by simp_all
    moreover from False have "\<not> bit p n" by (auto dest: bit_u32_less)
    ultimately show ?thesis using Cons [of m] n b by (simp del: lval.simps)
  qed
qed simp

lemma lval_eqI:
  assumes "\<And>n. bit (lval ps) n \<longleftrightarrow> bit x n"
  shows "lval ps = x"
  by (rule bit_eqI) (use assms in simp)

lemma length_shl_body [simp]: "length (shl_body a k s i pn) = length pn"
  by (simp add: shl_body_def Let_def)

lemma nth_shl_body:
  assumes "length pn = length a" and "j < length a"
  shows "shl_body a k s i pn ! j = pn ! j
      OR (if j = i + k + 1 \<and> s \<noteq> 0 then drop_bit (32 - s) (a ! i) else 0)
      OR (if j = i + k then push_bit s (a ! i) else 0)"
  using assms by (auto simp: shl_body_def Let_def nth_list_update)

text \<open>The limb at \<open>j\<close> after the iterations below \<open>m\<close>, bit by bit.\<close>

lemma shl_fold_bit:
  assumes "m \<le> length a" and "j < length a"
  shows "length (fold (shl_body a k s) [0..<m] (replicate (length a) 0)) = length a \<and>
    (bit (fold (shl_body a k s) [0..<m] (replicate (length a) 0) ! j) b \<longleftrightarrow>
      (\<exists>i < m. j = i + k + 1 \<and> s \<noteq> 0 \<and> bit (drop_bit (32 - s) (a ! i)) b
        \<or> i < m \<and> j = i + k \<and> bit (push_bit s (a ! i)) b))"
  using assms
proof (induction m)
  case (Suc m)
  then show ?case
    by (simp add: nth_shl_body bit_or_iff less_Suc_eq) (auto simp: less_Suc_eq)
qed simp

lemma length_op_shl [simp]: "length (op_shl a s) = length a"
proof -
  have "length (fold f xs pn) = length pn" if "\<And>i q. length (f i q) = length q"
    for f :: "nat \<Rightarrow> limbs \<Rightarrow> limbs" and xs pn
    using that by (induction xs arbitrary: pn) simp_all
  then show ?thesis by (simp add: op_shl_def)
qed

lemma op_shl_bit:
  assumes "j < length a" and "s = sh mod 32" and "k = sh div 32"
  shows "bit (op_shl a sh ! j) b \<longleftrightarrow>
    (s \<noteq> 0 \<and> k + 1 \<le> j \<and> bit (drop_bit (32 - s) (a ! (j - k - 1))) b)
    \<or> (k \<le> j \<and> bit (push_bit s (a ! (j - k))) b)"
proof -
  have *: "bit (op_shl a sh ! j) b \<longleftrightarrow>
      (\<exists>i < length a. j = i + k + 1 \<and> s \<noteq> 0 \<and> bit (drop_bit (32 - s) (a ! i)) b
        \<or> i < length a \<and> j = i + k \<and> bit (push_bit s (a ! i)) b)"
    using shl_fold_bit [of "length a" a j k s b] assms by (simp add: op_shl_def)
  show ?thesis unfolding *
  proof (intro iffI; elim disjE exE conjE)
    assume "s \<noteq> 0" "k + 1 \<le> j" "bit (drop_bit (32 - s) (a ! (j - k - 1))) b"
    then show "\<exists>i < length a. j = i + k + 1 \<and> s \<noteq> 0 \<and> bit (drop_bit (32 - s) (a ! i)) b
        \<or> i < length a \<and> j = i + k \<and> bit (push_bit s (a ! i)) b"
      using assms(1) by (intro exI [of _ "j - k - 1"]) auto
  next
    assume "k \<le> j" "bit (push_bit s (a ! (j - k))) b"
    then show "\<exists>i < length a. j = i + k + 1 \<and> s \<noteq> 0 \<and> bit (drop_bit (32 - s) (a ! i)) b
        \<or> i < length a \<and> j = i + k \<and> bit (push_bit s (a ! i)) b"
      using assms(1) by (intro exI [of _ "j - k"]) auto
  qed auto
qed

lemma limb_index_low:
  assumes "s \<le> b" and "b < 32"
  shows "32 * k + s \<le> 32 * j + b \<longleftrightarrow> k \<le> (j::nat)"
    and "k \<le> j \<Longrightarrow> (32 * j + b - (32 * k + s)) div 32 = j - k"
    and "k \<le> j \<Longrightarrow> (32 * j + b - (32 * k + s)) mod 32 = b - s"
proof -
  show "32 * k + s \<le> 32 * j + b \<longleftrightarrow> k \<le> j" using assms by (intro iffI; linarith)
  assume "k \<le> j"
  then obtain i where j: "j = k + i" by (metis le_Suc_ex)
  from assms obtain d where b: "b = s + d" by (metis le_Suc_ex)
  have "32 * j + b - (32 * k + s) = 32 * i + d" using j b by simp
  then show "(32 * j + b - (32 * k + s)) div 32 = j - k"
    and "(32 * j + b - (32 * k + s)) mod 32 = b - s" using assms j b by simp_all
qed

lemma limb_index_high:
  assumes "b < s" and "s < 32"
  shows "32 * k + s \<le> 32 * j + b \<longleftrightarrow> k + 1 \<le> (j::nat)"
    and "k + 1 \<le> j \<Longrightarrow> (32 * j + b - (32 * k + s)) div 32 = j - k - 1"
    and "k + 1 \<le> j \<Longrightarrow> (32 * j + b - (32 * k + s)) mod 32 = 32 - s + b"
proof -
  show "32 * k + s \<le> 32 * j + b \<longleftrightarrow> k + 1 \<le> j" using assms by (intro iffI; linarith)
  assume "k + 1 \<le> j"
  then obtain i where j: "j = k + 1 + i" by (metis le_Suc_ex)
  define d where "d = 32 - s + b"
  then have d: "s + d = 32 + b" "d < 32" using assms by simp_all
  have "32 * j + b - (32 * k + s) = 32 * i + d" using j d by simp
  then show "(32 * j + b - (32 * k + s)) div 32 = j - k - 1"
    and "(32 * j + b - (32 * k + s)) mod 32 = 32 - s + b"
    unfolding d_def [symmetric] using j d(2) by simp_all
qed

lemma shl_bit_lval:
  assumes "j < length a" and "b < 32" and "s < 32"
  shows "(s \<noteq> 0 \<and> k + 1 \<le> j \<and> bit (drop_bit (32 - s) (a ! (j - k - 1))) b)
      \<or> (k \<le> j \<and> bit (push_bit s (a ! (j - k))) b) \<longleftrightarrow>
    32 * k + s \<le> 32 * j + b \<and> bit (lval a) (32 * j + b - (32 * k + s))"
proof (cases "s \<le> b")
  case True
  have "\<not> bit (drop_bit (32 - s) (a ! (j - k - 1))) b"
    using True assms by (auto simp: bit_drop_bit_eq dest!: bit_u32_less)
  moreover have "bit (push_bit s (a ! (j - k))) b \<longleftrightarrow> bit (a ! (j - k)) (b - s)"
    using True assms by (simp add: bit_push_bit_iff)
  moreover have "bit (lval a) (32 * j + b - (32 * k + s)) \<longleftrightarrow> bit (a ! (j - k)) (b - s)" if "k \<le> j"
    using limb_index_low [OF True assms(2), of k j] that assms(1)
    by (simp only: bit_lval) (simp add: less_imp_diff_less)
  ultimately show ?thesis using limb_index_low(1) [OF True assms(2), of k j] by blast
next
  case False
  then have bs: "b < s" by simp
  have "\<not> bit (push_bit s (a ! (j - k))) b"
    using False by (simp add: bit_push_bit_iff)
  moreover have "bit (lval a) (32 * j + b - (32 * k + s)) \<longleftrightarrow>
      bit (drop_bit (32 - s) (a ! (j - k - 1))) b" if "k + 1 \<le> j"
    using limb_index_high [OF bs assms(3), of k j] that assms(1)
    by (simp only: bit_lval bit_drop_bit_eq) (simp add: less_imp_diff_less)
  moreover have "s \<noteq> 0" using bs by simp
  ultimately show ?thesis using limb_index_high(1) [OF bs assms(3), of k j] by blast
qed

lemma lval_shl: "lval (op_shl a sh) = (lval a * 2 ^ sh) mod 2 ^ (32 * length a)"
proof -
  have "lval (op_shl a sh) = take_bit (32 * length a) (push_bit sh (lval a))"
  proof (rule lval_eqI)
    fix n :: nat
    have n: "32 * (n div 32) + n mod 32 = n" and sh: "32 * (sh div 32) + sh mod 32 = sh" by simp_all
    show "bit (lval (op_shl a sh)) n \<longleftrightarrow> bit (take_bit (32 * length a) (push_bit sh (lval a))) n"
    proof (cases "n div 32 < length a")
      case True
      then have "bit (lval (op_shl a sh)) n \<longleftrightarrow> bit (op_shl a sh ! (n div 32)) (n mod 32)"
        by (simp only: bit_lval length_op_shl simp_thms)
      also have "\<dots> \<longleftrightarrow> sh \<le> n \<and> bit (lval a) (n - sh)"
        unfolding op_shl_bit [OF True refl refl]
        using shl_bit_lval [OF True, of "n mod 32" "sh mod 32" "sh div 32"] unfolding n sh by simp
      finally have "bit (lval (op_shl a sh)) n \<longleftrightarrow> sh \<le> n \<and> bit (lval a) (n - sh)" .
      moreover have "n < 32 * length a" using True by (simp add: div_less_iff_less_mult mult.commute)
      ultimately show ?thesis by (simp add: bit_take_bit_iff bit_push_bit_iff_nat)
    next
      case False
      then have "\<not> n < 32 * length a" by (simp add: div_less_iff_less_mult mult.commute)
      with False show ?thesis by (simp add: bit_lval [of "op_shl a sh"] bit_take_bit_iff)
    qed
  qed
  then show ?thesis by (simp add: take_bit_eq_mod push_bit_eq_mult)
qed

lemma length_shr_body [simp]: "length (shr_body a k s i pn) = length pn"
  by (simp add: shr_body_def Let_def)

lemma nth_shr_body:
  assumes "length pn = length a" and "j < length a" and "i < length a"
  shows "shr_body a k s i pn ! j = pn ! j
      OR (if i = j + k + 1 \<and> s \<noteq> 0 then push_bit (32 - s) (a ! i) else 0)
      OR (if i = j + k then drop_bit s (a ! i) else 0)"
  using assms by (auto simp: shr_body_def Let_def nth_list_update)

lemma shr_fold_bit:
  assumes "m \<le> length a" and "j < length a"
  shows "length (fold (shr_body a k s) [0..<m] (replicate (length a) 0)) = length a \<and>
    (bit (fold (shr_body a k s) [0..<m] (replicate (length a) 0) ! j) b \<longleftrightarrow>
      (j + k + 1 < m \<and> s \<noteq> 0 \<and> bit (push_bit (32 - s) (a ! (j + k + 1))) b)
      \<or> (j + k < m \<and> bit (drop_bit s (a ! (j + k))) b))"
  using assms
proof (induction m)
  case (Suc m)
  then show ?case
    by (simp add: nth_shr_body bit_or_iff less_Suc_eq) (auto simp: less_Suc_eq)
qed simp

lemma length_fold_body:
  assumes "\<And>i q. length (f i q) = length q"
  shows "length (fold f xs pn) = length pn"
  using assms by (induction xs arbitrary: pn) simp_all

lemma length_op_shr [simp]: "length (op_shr a s) = length a"
  by (simp add: op_shr_def length_fold_body)

lemma shr_bit_lval:
  assumes "j < length a" and "b < 32" and "s < 32"
  shows "(j + k + 1 < length a \<and> s \<noteq> 0 \<and> bit (push_bit (32 - s) (a ! (j + k + 1))) b)
      \<or> (j + k < length a \<and> bit (drop_bit s (a ! (j + k))) b) \<longleftrightarrow>
    bit (lval a) (32 * k + s + (32 * j + b))"
proof (cases "s + b < 32")
  case True
  have eq: "32 * k + s + (32 * j + b) = 32 * (j + k) + (s + b)" by simp
  have d: "(32 * k + s + (32 * j + b)) div 32 = j + k" "(32 * k + s + (32 * j + b)) mod 32 = s + b"
    unfolding eq using True by (simp_all del: distrib_left_numeral)
  have "\<not> (s \<noteq> 0 \<and> bit (push_bit (32 - s) (a ! (j + k + 1))) b)"
    using True by (auto simp: bit_push_bit_iff)
  then show ?thesis unfolding bit_lval d by (auto simp: bit_drop_bit_eq)
next
  case False
  define e where "e = s + b - 32"
  then have e: "s + b = 32 + e" "e < 32" using False assms by simp_all
  have eq: "32 * k + s + (32 * j + b) = 32 * (j + k + 1) + e" using e by simp
  have d: "(32 * k + s + (32 * j + b)) div 32 = j + k + 1" "(32 * k + s + (32 * j + b)) mod 32 = e"
    unfolding eq using e(2) by (simp_all del: distrib_left_numeral add_Suc_right mult_Suc_right)
  have "\<not> bit (drop_bit s (a ! (j + k))) b"
    using False by (auto simp: bit_drop_bit_eq dest!: bit_u32_less)
  moreover have "bit (push_bit (32 - s) (a ! (j + k + 1))) b \<longleftrightarrow> bit (a ! (j + k + 1)) e"
  proof -
    have "32 - s \<le> b" and "b - (32 - s) = e" using False assms(3) e(1) by linarith+
    then show ?thesis using assms(2) by (simp add: bit_push_bit_iff)
  qed
  moreover have "s \<noteq> 0" using False assms by auto
  ultimately show ?thesis unfolding bit_lval d by blast
qed

lemma lval_shr: "lval (op_shr a sh) = lval a div 2 ^ sh"
proof -
  have "lval (op_shr a sh) = drop_bit sh (lval a)"
  proof (rule lval_eqI)
    fix n :: nat
    have n: "32 * (n div 32) + n mod 32 = n" and sh: "32 * (sh div 32) + sh mod 32 = sh" by simp_all
    show "bit (lval (op_shr a sh)) n \<longleftrightarrow> bit (drop_bit sh (lval a)) n"
    proof (cases "n div 32 < length a")
      case True
      then have "bit (lval (op_shr a sh)) n \<longleftrightarrow> bit (op_shr a sh ! (n div 32)) (n mod 32)"
        by (simp only: bit_lval length_op_shr simp_thms)
      also have "\<dots> \<longleftrightarrow> bit (lval a) (sh + n)"
        unfolding op_shr_def using shr_fold_bit [OF order_refl True, of "sh div 32" "sh mod 32" "n mod 32"]
          shr_bit_lval [OF True, of "n mod 32" "sh mod 32" "sh div 32"] unfolding n sh by simp
      finally show ?thesis by (simp add: bit_drop_bit_eq)
    next
      case False
      then have "32 * length a \<le> n" by (simp add: div_less_iff_less_mult mult.commute not_less)
      then have "\<not> (sh + n) div 32 < length a" by (simp add: div_less_iff_less_mult mult.commute)
      with False show ?thesis by (simp add: bit_lval bit_drop_bit_eq)
    qed
  qed
  then show ?thesis by (simp add: drop_bit_eq_div)
qed

subsection \<open>Comparison\<close>

lemma lval_append: "lval (xs @ ys) = lval xs + 2 ^ (32 * length xs) * lval ys"
  by (induction xs) (simp_all add: power_add algebra_simps)

lemma lval_take_Suc:
  "i < length xs \<Longrightarrow> lval (take (Suc i) xs) = lval (take i xs) + 2 ^ (32 * i) * unat (xs ! i)"
  by (simp add: take_Suc_conv_app_nth lval_append)

lemma lval_take_less: "i \<le> length xs \<Longrightarrow> lval (take i xs) < 2 ^ (32 * i)"
  using lval_less [of "take i xs"] by simp

lemma lex_less:
  fixes x y p q M :: nat
  assumes "x < M" and "p < q"
  shows "x + M * p < y + M * q"
proof -
  have "x + M * p < M * (p + 1)" using assms by simp
  also have "\<dots> \<le> M * q" using assms by (intro mult_le_mono2) simp
  finally show ?thesis by simp
qed

lemma cmp_loop_sgn:
  assumes "length a = length b" and "i \<le> length a"
  shows "cmp_loop a b i = sgn (int (lval (take i a)) - int (lval (take i b)))"
  using assms
proof (induction i)
  case (Suc i)
  note S = lval_take_Suc [of i a] lval_take_Suc [of i b]
  have l: "lval (take i a) < 2 ^ (32 * i)" "lval (take i b) < 2 ^ (32 * i)"
    using Suc.prems by (simp_all add: lval_take_less)
  consider "a ! i < b ! i" | "b ! i < a ! i" | "a ! i = b ! i" by fastforce
  then show ?case
  proof cases
    case 1
    then have "lval (take (Suc i) a) < lval (take (Suc i) b)"
      using Suc.prems S lex_less [OF l(1), of "unat (a ! i)" "unat (b ! i)"] by (simp add: word_less_nat_alt)
    with 1 show ?thesis by simp
  next
    case 2
    then have "lval (take (Suc i) b) < lval (take (Suc i) a)"
      using Suc.prems S lex_less [OF l(2), of "unat (b ! i)" "unat (a ! i)"] by (simp add: word_less_nat_alt)
    with 2 show ?thesis by simp
  next
    case 3
    with Suc S show ?thesis by simp
  qed
qed simp

lemma CompareTo_sgn: "length a = length b \<Longrightarrow> CompareTo a b = sgn (int (lval a) - int (lval b))"
  by (simp add: CompareTo_def cmp_loop_sgn)

lemma CompareTo_ge: "length a = length b \<Longrightarrow> 0 \<le> CompareTo a b \<longleftrightarrow> lval b \<le> lval a"
  by (simp add: CompareTo_sgn sgn_if)

lemma CompareTo_gt: "length a = length b \<Longrightarrow> 0 < CompareTo a b \<longleftrightarrow> lval b < lval a"
  by (simp add: CompareTo_sgn)

lemma limb_inject:
  fixes a b x y B :: nat
  assumes "a < B" and "b < B"
  shows "a + B * x = b + B * y \<longleftrightarrow> a = b \<and> x = y"
proof
  assume e: "a + B * x = b + B * y"
  then have "(a + B * x) mod B = (b + B * y) mod B" by (rule arg_cong)
  then have "a = b" using assms by simp
  with e assms show "a = b \<and> x = y" by simp
qed simp

lemma lval_inject: "length a = length b \<Longrightarrow> lval a = lval b \<longleftrightarrow> a = b"
proof (induction a b rule: list_induct2)
  case (Cons x xs y ys)
  then show ?case
    using limb_inject [OF u32_less [of x] u32_less [of y], of "lval xs" "lval ys"]
    by (simp add: word_unat_eq_iff)
qed simp

subsection \<open>Bit length\<close>

lemma nbits_loop_Suc:
  "nbits_loop p (Suc n) = (if bit p (Suc n) then Some (Suc n) else nbits_loop p n)"
  by (simp only: nbits_loop.simps bit_iff_and_push_bit_not_eq_0)

lemma nbits_loop_Some:
  "nbits_loop p n = Some k \<Longrightarrow> 0 < k \<and> k \<le> n \<and> bit p k \<and> (\<forall>m. k < m \<and> m \<le> n \<longrightarrow> \<not> bit p m)"
  by (induction n) (auto simp: nbits_loop_Suc le_Suc_eq simp del: nbits_loop.simps(2) split: if_splits)

lemma nbits_loop_None: "nbits_loop p n = None \<Longrightarrow> 0 < m \<Longrightarrow> m \<le> n \<Longrightarrow> \<not> bit p m"
  by (induction n) (auto simp: nbits_loop_Suc le_Suc_eq simp del: nbits_loop.simps(2) split: if_splits)

lemma bit_top_bounds:
  fixes x :: nat
  assumes "bit x k" and "\<And>m. k < m \<Longrightarrow> \<not> bit x m"
  shows "2 ^ k \<le> x" and "x < 2 ^ Suc k"
proof -
  have "x = take_bit (Suc k) x"
    by (rule bit_eqI) (use assms(2) in \<open>auto simp: bit_take_bit_iff intro: leI less_Suc_eq_le [THEN iffD2]\<close>)
  then show "x < 2 ^ Suc k" by (metis take_bit_nat_less_exp)
  show "2 ^ k \<le> x"
  proof (rule ccontr)
    assume "\<not> 2 ^ k \<le> x"
    then have "x div 2 ^ k = 0" by simp
    with assms(1) show False by (simp add: bit_iff_odd)
  qed
qed

lemma u32_top_bit:
  assumes "p \<noteq> 0" and "k = (case nbits_loop p 31 of Some n \<Rightarrow> n | None \<Rightarrow> 0)"
  shows "2 ^ k \<le> unat p \<and> unat p < 2 ^ Suc k"
proof -
  have hi: "\<not> bit p m" if "31 < m" for m using that by (auto dest: bit_u32_less)
  have "bit p k \<and> (\<forall>m > k. \<not> bit p m)"
  proof (cases "nbits_loop p 31")
    case (Some n)
    then have n: "bit p n" "\<And>m. n < m \<Longrightarrow> m \<le> 31 \<Longrightarrow> \<not> bit p m"
      using nbits_loop_Some [of p 31 n] by auto
    then have "\<not> bit p m" if "n < m" for m using hi that by (cases "m \<le> 31") auto
    with n(1) Some assms show ?thesis by simp
  next
    case None
    then have z: "\<not> bit p m" if "0 < m" for m
      using that hi nbits_loop_None [of p 31 m] by (cases "m \<le> 31") auto
    have "bit p 0"
    proof (rule ccontr)
      assume "\<not> bit p 0"
      with z have "\<not> bit p m" for m by (cases m) auto
      then have "p = 0" by (intro bit_eqI) simp
      with assms(1) show False by simp
    qed
    with z None assms show ?thesis by simp
  qed
  then show ?thesis using bit_top_bounds [of "unat p" k] by (simp add: bit_unat)
qed

lemma bits_loop_spec:
  assumes "n \<le> length pn"
  shows "lval (take n pn) < 2 ^ bits_loop pn n
    \<and> (lval (take n pn) \<noteq> 0 \<longrightarrow> 0 < bits_loop pn n \<and> 2 ^ (bits_loop pn n - 1) \<le> lval (take n pn))
    \<and> (lval (take n pn) = 0 \<longrightarrow> bits_loop pn n = 0)"
  using assms
proof (induction n)
  case (Suc n)
  note S = lval_take_Suc [of n pn]
  show ?case
  proof (cases "pn ! n = 0")
    case True
    with Suc S show ?thesis by simp
  next
    case False
    define k where "k = (case nbits_loop (pn ! n) 31 of Some n \<Rightarrow> n | None \<Rightarrow> 0)"
    have b: "bits_loop pn (Suc n) = 32 * n + k + 1"
      using False by (simp add: k_def split: option.split)
    note k = u32_top_bit [OF False k_def]
    have l: "lval (take n pn) < 2 ^ (32 * n)" using Suc.prems by (simp add: lval_take_less)
    have "lval (take (Suc n) pn) < 0 + 2 ^ (32 * n) * 2 ^ Suc k"
      using lex_less [OF l, of "unat (pn ! n)" "2 ^ Suc k" 0] k S Suc.prems by simp
    moreover have "2 ^ (32 * n) * 2 ^ k \<le> lval (take (Suc n) pn)"
      using k S Suc.prems by (simp add: trans_le_add2)
    moreover have "lval (take (Suc n) pn) \<noteq> 0"
      using calculation(2) by (metis le_zero_eq mult_is_0 power_not_zero zero_neq_numeral)
    ultimately show ?thesis unfolding b by (simp add: power_add mult.assoc)
  qed
qed simp

lemma bits_of_spec:
  "lval pn < 2 ^ bits_of pn"
  "lval pn \<noteq> 0 \<Longrightarrow> 0 < bits_of pn \<and> 2 ^ (bits_of pn - 1) \<le> lval pn"
  "bits_of pn = 0 \<longleftrightarrow> lval pn = 0"
  using bits_loop_spec [of "length pn" pn] by (auto simp: bits_of_def)

lemma bits_of_le: "bits_of pn \<le> 32 * length pn"
proof (cases "lval pn = 0")
  case False
  then have "2 ^ (bits_of pn - 1) < (2::nat) ^ (32 * length pn)"
    using bits_of_spec(2) [of pn] lval_less [of pn] by linarith
  then have "bits_of pn - 1 < 32 * length pn" by (simp add: power_strict_increasing_iff)
  then show ?thesis by linarith
qed (use bits_of_spec(3) [of pn] in simp)

subsection \<open>Division\<close>

lemma lval_set_bit:
  assumes "i < 32 * length q" and "\<not> bit (lval q) i"
  shows "lval (q[i div 32 := q ! (i div 32) OR push_bit (i mod 32) 1]) = lval q + 2 ^ i"
proof -
  have i: "i div 32 < length q" using assms(1) by (simp add: div_less_iff_less_mult mult.commute)
  have "lval (q[i div 32 := q ! (i div 32) OR push_bit (i mod 32) 1]) = lval q OR 2 ^ i"
  proof (rule lval_eqI)
    fix n :: nat
    have "n div 32 = i div 32 \<Longrightarrow> n mod 32 = i mod 32 \<longleftrightarrow> n = i" by (metis div_mult_mod_eq)
    then show "bit (lval (q[i div 32 := q ! (i div 32) OR push_bit (i mod 32) 1])) n
        \<longleftrightarrow> bit (lval q OR 2 ^ i) n"
      using i by (auto simp: bit_lval bit_or_iff bit_exp_iff bit_push_bit_iff bit_1_iff nth_list_update)
  qed
  also have "\<dots> = lval q + 2 ^ i"
    by (rule disjunctive_add [symmetric]) (use assms(2) in \<open>auto simp: bit_exp_iff\<close>)
  finally show ?thesis .
qed

lemma div_loop_spec:
  assumes "length num = length dv" and "length q = length dv"
    and "n \<noteq> 0 \<Longrightarrow> lval dv = D * 2 ^ (n - 1)" and "lval num < D * 2 ^ n" and "0 < D"
    and "n \<le> 32 * length dv" and "2 ^ n dvd lval q"
  shows "length (div_loop n num dv q) = length q \<and>
    lval (div_loop n num dv q) = lval q + lval num div D"
  using assms
proof (induction n arbitrary: num dv q)
  case (Suc s)
  have dv: "lval dv = D * 2 ^ s" using Suc.prems(3) by simp
  have sr: "lval (op_shr dv 1) = D * 2 ^ (s - 1)" if "s \<noteq> 0"
    using dv that by (cases s) (simp_all add: lval_shr)
  have dq: "2 ^ s dvd lval q" using Suc.prems(7) by (rule power_le_dvd) simp
  show ?case
  proof (cases "CompareTo num dv \<ge> 0")
    case True
    let ?q = "q[s div 32 := q ! (s div 32) OR push_bit (s mod 32) 1]"
    have le: "D * 2 ^ s \<le> lval num" using True Suc.prems(1) dv by (simp add: CompareTo_ge)
    have num: "lval (op_sub num dv) = lval num - D * 2 ^ s"
      using le Suc.prems(1) dv by (simp add: lval_sub_le)
    have "\<not> bit (lval q) s"
      using Suc.prems(7) by (auto simp: bit_iff_odd dvd_def)
    then have q: "lval ?q = lval q + 2 ^ s"
      using Suc.prems(2,6) by (intro lval_set_bit) simp_all
    have "length (div_loop s (op_sub num dv) (op_shr dv 1) ?q) = length ?q \<and>
      lval (div_loop s (op_sub num dv) (op_shr dv 1) ?q) = lval ?q + lval (op_sub num dv) div D"
      using Suc.prems sr dq q num by (intro Suc.IH) (auto simp: less_diff_conv)
    moreover have "2 ^ s + (lval num - D * 2 ^ s) div D = lval num div D"
      using le Suc.prems(5) by (metis add.commute div_mult_self2 le_add_diff_inverse2 neq0_conv)
    ultimately show ?thesis using True q num by simp
  next
    case False
    then have "lval num < D * 2 ^ s" using Suc.prems(1) dv by (simp add: CompareTo_ge)
    then have "length (div_loop s num (op_shr dv 1) q) = length q \<and>
      lval (div_loop s num (op_shr dv 1) q) = lval q + lval num div D"
      using Suc.prems sr dq by (intro Suc.IH) auto
    with False show ?thesis by simp
  qed
qed simp

lemma op_div_zero: "lval b = 0 \<Longrightarrow> op_div a b = Inl (Thrown ''Division by zero'')"
  by (simp add: op_div_def bits_of_spec(3))

lemma op_div_spec:
  assumes "length a = length b" and "lval b \<noteq> 0"
  shows "\<exists>q. op_div a b = Inr q \<and> length q = length a \<and> lval q = lval a div lval b"
proof -
  have nz: "bits_of b \<noteq> 0" using assms bits_of_spec(3) [of b] by simp
  have bb: "2 ^ (bits_of b - 1) \<le> lval b" using assms bits_of_spec(2) by simp
  show ?thesis
  proof (cases "bits_of b > bits_of a")
    case True
    then have "(2::nat) ^ bits_of a \<le> 2 ^ (bits_of b - 1)" by (intro power_increasing) simp_all
    then have "lval a < 2 ^ (bits_of b - 1)" using bits_of_spec(1) [of a] by linarith
    with bb have "lval a div lval b = 0" by simp
    with True nz show ?thesis by (simp add: op_div_def)
  next
    case False
    define s where "s = bits_of a - bits_of b"
    have sb: "s + bits_of b = bits_of a" using False by (simp add: s_def)
    have a: "bits_of a \<le> 32 * length a" by (rule bits_of_le)
    have "lval b * 2 ^ s < 2 ^ bits_of b * 2 ^ s" using bits_of_spec(1) [of b] by simp
    also have "\<dots> = 2 ^ bits_of a" by (simp add: power_add [symmetric] sb [symmetric] add.commute)
    also have "\<dots> \<le> 2 ^ (32 * length a)" using a by (intro power_increasing) simp_all
    finally have shl: "lval (op_shl b s) = lval b * 2 ^ s" using assms(1) by (simp add: lval_shl)
    have "lval a < 2 ^ bits_of a" by (rule bits_of_spec(1))
    also have "\<dots> = 2 ^ (bits_of b - 1) * 2 ^ Suc s"
      using nz sb by (simp add: power_add [symmetric] del: power_Suc)
    also have "\<dots> \<le> lval b * 2 ^ Suc s" using bb by simp
    finally have "lval a < lval b * 2 ^ Suc s" .
    then have "length (div_loop (Suc s) a (op_shl b s) (replicate (length a) 0)) = length (replicate (length a) (0::u32)) \<and>
      lval (div_loop (Suc s) a (op_shl b s) (replicate (length a) 0))
        = lval (replicate (length a) 0) + lval a div lval b"
      using assms shl a sb nz by (intro div_loop_spec) auto
    with False nz show ?thesis by (simp add: op_div_def Let_def s_def)
  qed
qed

subsection \<open>The compact format\<close>

lemma lval_base_uint_of:
  assumes "2 \<le> n"
  shows "length (base_uint_of n b) = n" and "lval (base_uint_of n b) = unat b"
proof -
  have "unat b div 4294967296 < 4294967296"
    using u64_less [of b] by (intro less_mult_imp_div_less) simp
  then show "lval (base_uint_of n b) = unat b"
    by (simp add: base_uint_of_def lval_append unat_low32 unat_high32)
qed (use assms in \<open>simp add: base_uint_of_def\<close>)

lemma GetLow64_val:
  assumes "2 \<le> length a"
  shows "unat (GetLow64 a) = lval a mod 2 ^ 64"
proof -
  from assms obtain p q r where a: "a = p # q # r"
    by (metis One_nat_def Suc_1 Suc_le_length_iff)
  have "unat (GetLow64 a) = unat p OR push_bit 32 (unat q)"
  proof (rule bit_eqI)
    fix n
    show "bit (unat (GetLow64 a)) n \<longleftrightarrow> bit (unat p OR push_bit 32 (unat q)) n"
      unfolding a GetLow64_def
      by (auto simp: bit_unat bit_or_iff bit_push_bit_iff bit_push_bit_iff_nat bit_ucast_iff
          dest: bit_u32_less)
  qed
  also have "\<dots> = unat p + push_bit 32 (unat q)"
    by (rule disjunctive_add [symmetric]) (auto simp: bit_unat bit_push_bit_iff_nat dest: bit_u32_less)
  also have "\<dots> = lval [p, q]" by (simp add: push_bit_eq_mult mult.commute)
  also have "\<dots> = lval a mod 2 ^ 64"
  proof -
    have "lval a = lval [p, q] + 2 ^ 64 * lval r" by (simp add: a algebra_simps)
    moreover have "lval [p, q] < 2 ^ 64" using lval_less [of "[p, q]"] by simp
    ultimately show ?thesis by simp
  qed
  finally show ?thesis .
qed

lemma bit23: "(c :: u32) AND 0x00800000 \<noteq> 0 \<longleftrightarrow> bit c 23"
  by (simp add: bit_iff_and_push_bit_not_eq_0)

lemma unat_mask23: "unat ((c :: u32) AND 0x007fffff) = unat c mod 2 ^ 23"
proof -
  have "c AND 0x007fffff = take_bit 23 c"
    by (simp add: take_bit_eq_mask mask_eq_exp_minus_1 and.commute)
  then show ?thesis by (simp add: unsigned_take_bit_eq) (simp add: take_bit_eq_mod)
qed

lemma pack_compact:
  assumes "m < 2 ^ 24" and "n < 256"
  shows "unat (of_nat m OR push_bit 24 (of_nat n) :: u32) = m + n * 2 ^ 24"
proof -
  have low: "\<not> bit m i" if "24 \<le> i" for i
  proof -
    have "(2::nat) ^ 24 \<le> 2 ^ i" using that by (intro power_increasing) simp_all
    then show ?thesis using assms(1) by (simp add: bit_iff_odd)
  qed
  have "m + push_bit 24 n = m OR push_bit 24 n"
    by (rule disjunctive_add) (use low in \<open>auto simp: bit_push_bit_iff_nat\<close>)
  then have "m + n * 2 ^ 24 = m OR push_bit 24 n" by (simp add: push_bit_eq_mult)
  moreover have "m < 2 ^ 32" "n < 2 ^ 8" using assms by simp_all
  ultimately show ?thesis
    by (simp add: unsigned_or_eq unsigned_of_nat unsigned_push_bit_eq take_bit_push_bit
        take_bit_nat_eq_self)
qed

lemma unat_drop_bit_u32: "unat (drop_bit k (c :: u32)) = unat c div 2 ^ k"
  by (simp add: unat_drop_bit_eq) (simp add: drop_bit_eq_div)

lemma unat_ucast_u64: "unat (ucast (c :: u32) :: u64) = unat c"
  by (rule unat_ucast_up)

text \<open>The mantissa that \<open>SetCompact\<close> works with, and its value as arithmetic.\<close>

definition compact_word :: "nat \<Rightarrow> nat" where
  "compact_word c =
     (let n = c div 2 ^ 24; w = c mod 2 ^ 23 in if n \<le> 3 then w div 256 ^ (3 - n) else w)"

lemma SetCompact_eq:
  assumes "SetCompact c = (v, neg, ovf)" and "n = unat c div 2 ^ 24" and "w = compact_word (unat c)"
  shows "length v = 8"
    and "lval v = (if n \<le> 3 then w else (w * 256 ^ (n - 3)) mod 2 ^ 256)"
    and "neg \<longleftrightarrow> w \<noteq> 0 \<and> bit c 23"
    and "ovf \<longleftrightarrow> w \<noteq> 0 \<and> (n > 34 \<or> (w > 0xff \<and> n > 33) \<or> (w > 0xffff \<and> n > 32))"
proof -
  define nw where "nw = (if n \<le> 3 then drop_bit (8 * (3 - n)) (c AND 0x007fffff) else c AND 0x007fffff)"
  have n: "unat (drop_bit 24 c) = n" using assms(2) by (simp add: unat_drop_bit_u32)
  have w: "unat nw = w"
    using assms(2,3)
    by (simp add: nw_def compact_word_def Let_def unat_drop_bit_u32 unat_mask23 power_mult
        del: drop_bit_and)
  have w0: "nw \<noteq> 0 \<longleftrightarrow> w \<noteq> 0" using w by (metis unat_eq_0)
  have wn: "nw > 0xff \<longleftrightarrow> w > 0xff" "nw > 0xffff \<longleftrightarrow> w > 0xffff"
    by (simp_all add: word_less_nat_alt w)
  have v: "v = (if n \<le> 3 then base_uint_of 8 (ucast nw) else op_shl (base_uint_of 8 (ucast nw)) (8 * (n - 3)))"
    and neg: "neg \<longleftrightarrow> nw \<noteq> 0 \<and> c AND 0x00800000 \<noteq> 0"
    and ovf: "ovf \<longleftrightarrow> nw \<noteq> 0 \<and> (n > 34 \<or> (nw > 0xff \<and> n > 33) \<or> (nw > 0xffff \<and> n > 32))"
    using assms(1) unfolding SetCompact_def Let_def n nw_def [symmetric] by auto
  show "length v = 8" by (simp add: v lval_base_uint_of)
  show "lval v = (if n \<le> 3 then w else (w * 256 ^ (n - 3)) mod 2 ^ 256)"
    by (simp add: v lval_base_uint_of lval_shl unat_ucast_up w power_mult)
  show "neg \<longleftrightarrow> w \<noteq> 0 \<and> bit c 23" by (simp add: neg w0 bit23)
  show "ovf \<longleftrightarrow> w \<noteq> 0 \<and> (n > 34 \<or> (w > 0xff \<and> n > 33) \<or> (w > 0xffff \<and> n > 32))"
    unfolding ovf w0 wn ..
qed

lemma compact_no_wrap:
  assumes "w < 2 ^ 23" and "\<not> (w \<noteq> 0 \<and> (n > 34 \<or> (w > 0xff \<and> n > 33) \<or> (w > 0xffff \<and> n > 32)))"
  shows "w * 256 ^ (n - 3) < (2::nat) ^ 256"
proof (cases "w = 0")
  case False
  then consider "n \<le> 32" | "n = 33" "w \<le> 0xffff" | "n = 34" "w \<le> 0xff" using assms(2) by linarith
  then show ?thesis
  proof cases
    case 1
    then have "(256::nat) ^ (n - 3) \<le> 256 ^ 29" by (intro power_increasing) simp_all
    then have "w * 256 ^ (n - 3) \<le> w * 256 ^ 29" by (rule mult_le_mono2)
    also have "\<dots> < 2 ^ 23 * 256 ^ 29" using assms(1) by (intro mult_strict_right_mono) simp_all
    finally show ?thesis by simp
  qed simp_all
qed simp

lemma compact_word_less: "compact_word c < 2 ^ 23"
proof -
  have "c mod 2 ^ 23 div k \<le> c mod 2 ^ 23" for k by simp
  also have "c mod 2 ^ 23 < 2 ^ 23" by simp
  finally have "c mod 2 ^ 23 div k < 2 ^ 23" for k .
  then show ?thesis by (simp add: compact_word_def Let_def)
qed

lemma SetCompact_val:
  assumes "SetCompact c = (v, neg, False)" and "n = unat c div 2 ^ 24"
  shows "length v = 8"
    and "lval v = (if n \<le> 3 then compact_word (unat c) else compact_word (unat c) * 256 ^ (n - 3))"
  using SetCompact_eq [OF assms(1,2) refl]
    compact_no_wrap [OF compact_word_less, of "unat c" n] by auto

subsection \<open>Compacting a number\<close>

definition compact_mant :: "limbs \<Rightarrow> nat" where
  "compact_mant a =
     (let n = (bits_of a + 7) div 8 in
      if n \<le> 3 then lval a * 256 ^ (3 - n) else lval a div 256 ^ (n - 3))"

lemma bytes_bound:
  assumes "n = (bits_of a + 7) div 8"
  shows "lval a < 256 ^ n" and "lval a \<noteq> 0 \<Longrightarrow> 256 ^ (n - 1) \<le> lval a \<and> 0 < n"
proof -
  have "bits_of a \<le> 8 * n" using assms by linarith
  then have "(2::nat) ^ bits_of a \<le> 2 ^ (8 * n)" by (intro power_increasing) simp_all
  then show "lval a < 256 ^ n" using bits_of_spec(1) [of a] by (simp add: power_mult)
  assume "lval a \<noteq> 0"
  then have b: "0 < bits_of a" "2 ^ (bits_of a - 1) \<le> lval a" using bits_of_spec(2) by auto
  have "8 * (n - 1) \<le> bits_of a - 1" using assms b(1) by linarith
  then have "(2::nat) ^ (8 * (n - 1)) \<le> 2 ^ (bits_of a - 1)" by (intro power_increasing) simp_all
  then show "256 ^ (n - 1) \<le> lval a \<and> 0 < n" using b assms by (simp add: power_mult)
qed

lemma compact_mant_bounds:
  "compact_mant a < 2 ^ 24" "lval a \<noteq> 0 \<Longrightarrow> 2 ^ 16 \<le> compact_mant a"
proof -
  define n where "n = (bits_of a + 7) div 8"
  note b = bytes_bound [OF n_def]
  have "compact_mant a < 2 ^ 24 \<and> (lval a \<noteq> 0 \<longrightarrow> 2 ^ 16 \<le> compact_mant a)"
  proof (cases "n \<le> 3")
    case True
    have "lval a * 256 ^ (3 - n) < 256 ^ n * 256 ^ (3 - n)" using b(1) by simp
    also have "\<dots> = 2 ^ 24" using True by (simp add: power_add [symmetric])
    finally have "lval a * 256 ^ (3 - n) < 2 ^ 24" .
    moreover have "2 ^ 16 \<le> lval a * 256 ^ (3 - n)" if "lval a \<noteq> 0"
    proof -
      have "(2::nat) ^ 16 = 256 ^ (n - 1) * 256 ^ (3 - n)"
        using True b(2) that by (simp add: power_add [symmetric])
      also have "\<dots> \<le> lval a * 256 ^ (3 - n)" using b(2) that by simp
      finally show ?thesis .
    qed
    ultimately show ?thesis using True by (simp add: compact_mant_def n_def [symmetric])
  next
    case False
    have "lval a < 2 ^ 24 * 256 ^ (n - 3)"
      using b(1) False power_add [of "256::nat" 3 "n - 3"] by simp
    then have "lval a div 256 ^ (n - 3) < 2 ^ 24" by (rule less_mult_imp_div_less)
    moreover have "2 ^ 16 \<le> lval a div 256 ^ (n - 3)" if "lval a \<noteq> 0"
    proof -
      have "n - 1 = 2 + (n - 3)" using False by simp
      then have "2 ^ 16 * 256 ^ (n - 3) \<le> lval a"
        using b(2) that power_add [of "256::nat" 2 "n - 3"] by simp
      then have "2 ^ 16 * 256 ^ (n - 3) div 256 ^ (n - 3) \<le> lval a div 256 ^ (n - 3)" by (rule div_le_mono)
      then show ?thesis by simp
    qed
    ultimately show ?thesis using False by (simp add: compact_mant_def n_def [symmetric])
  qed
  then show "compact_mant a < 2 ^ 24" "lval a \<noteq> 0 \<Longrightarrow> 2 ^ 16 \<le> compact_mant a" by auto
qed

lemma GetCompact_eq:
  assumes "length a = 8"
  defines "n \<equiv> (bits_of a + 7) div 8"
  defines "m \<equiv> (if bit (compact_mant a) 23 then compact_mant a div 256 else compact_mant a)"
    and "k \<equiv> (if bit (compact_mant a) 23 then n + 1 else n)"
  shows "\<exists>c. GetCompact a False = Inr c \<and> unat c = m + k * 2 ^ 24 \<and> m < 2 ^ 23 \<and> k \<le> 33"
proof -
  define r :: u32 where
    "r = (if n \<le> 3 then ucast (push_bit (8 * (3 - n)) (GetLow64 a))
          else ucast (GetLow64 (op_shr a (8 * (n - 3)))))"
  have M: "compact_mant a < 2 ^ 24" by (rule compact_mant_bounds)
  have ur: "unat r = compact_mant a"
  proof (cases "n \<le> 3")
    case True
    have "unat (push_bit (8 * (3 - n)) (GetLow64 a)) = take_bit 64 (push_bit (8 * (3 - n)) (unat (GetLow64 a)))"
      by (simp only: unsigned_push_bit_eq) simp
    also have "\<dots> = (unat (GetLow64 a) * 256 ^ (3 - n)) mod 2 ^ 64"
      by (simp add: take_bit_eq_mod push_bit_eq_mult power_mult)
    also have "\<dots> = (lval a * 256 ^ (3 - n)) mod 2 ^ 64"
      using assms(1) by (simp add: GetLow64_val mod_mult_left_eq)
    finally have "unat r = (lval a * 256 ^ (3 - n)) mod 2 ^ 32"
      using True by (simp add: r_def unat_low32 mod_mod_cancel)
    then show ?thesis using M True by (simp add: compact_mant_def n_def [symmetric])
  next
    case False
    have "unat r = (lval a div 256 ^ (n - 3)) mod 2 ^ 32"
      using False assms(1) by (simp add: r_def unat_low32 GetLow64_val lval_shr power_mult mod_mod_cancel)
    then show ?thesis using M False by (simp add: compact_mant_def n_def [symmetric])
  qed
  have br: "r AND 0x00800000 \<noteq> 0 \<longleftrightarrow> bit (compact_mant a) 23"
    using bit_unat [of r 23] by (simp add: bit23 ur)
  have "bits_of a \<le> 256" using bits_of_le [of a] assms(1) by simp
  then have n32: "n \<le> 32" by (simp add: n_def)
  have m23: "m < 2 ^ 23"
  proof (cases "bit (compact_mant a) 23")
    case False
    then have "even (compact_mant a div 2 ^ 23)" by (simp add: bit_iff_odd)
    moreover have "compact_mant a div 2 ^ 23 < 2" using M by (intro less_mult_imp_div_less) simp
    ultimately have "compact_mant a div 2 ^ 23 = 0" by (elim evenE) simp
    then have "compact_mant a < 2 ^ 23" by (simp add: div_eq_0_iff)
    with False show ?thesis by (simp add: m_def)
  next
    case True
    then show ?thesis using M by (simp add: m_def)
  qed
  have k33: "k \<le> 33" using n32 by (simp add: k_def)
  define r' where "r' = (if r AND 0x00800000 \<noteq> 0 then drop_bit 8 r else r)"
  have r': "unat r' = m" unfolding r'_def br m_def by (simp add: unat_drop_bit_u32 ur)
  have z: "r' AND NOT 0x007fffff = 0"
  proof -
    have "r' = take_bit 23 r'" using r' m23 by (simp add: word_unat_eq_iff unsigned_take_bit_eq take_bit_nat_eq_self)
    then have "r' = r' AND mask 23" by (simp add: take_bit_eq_mask)
    then have "r' AND NOT (mask 23) = 0" by (metis and.assoc and.right_neutral and_zero_eq bit.conj_cancel_right)
    then show ?thesis by (simp add: mask_eq_exp_minus_1)
  qed
  have "GetCompact a False = Inr (r' OR push_bit 24 (of_nat k))"
    unfolding GetCompact_def Let_def n_def [symmetric] r_def [symmetric]
    using z k33 by (auto simp: r'_def br k_def)
  moreover have "unat (r' OR push_bit 24 (of_nat k) :: u32) = m + k * 2 ^ 24"
  proof -
    have "r' = of_nat m" by (simp add: r' [symmetric])
    then show ?thesis using pack_compact [of m k] m23 k33 by simp
  qed
  ultimately show ?thesis using m23 k33 by blast
qed

lemma compact_mant_trunc:
  assumes "n = (bits_of a + 7) div 8"
    and "m = (if bit (compact_mant a) 23 then compact_mant a div 256 else compact_mant a)"
    and "k = (if bit (compact_mant a) 23 then n + 1 else n)"
  shows "k \<le> 3 \<Longrightarrow> m div 256 ^ (3 - k) = lval a"
    and "3 < k \<Longrightarrow> m = lval a div 256 ^ (k - 3)"
    and "3 < k \<Longrightarrow> 2 ^ 15 \<le> m"
proof -
  have M: "compact_mant a = (if n \<le> 3 then lval a * 256 ^ (3 - n) else lval a div 256 ^ (n - 3))"
    by (simp add: compact_mant_def assms(1) Let_def)
  show "m div 256 ^ (3 - k) = lval a" if "k \<le> 3"
  proof (cases "bit (compact_mant a) 23")
    case True
    then have "3 - n = Suc (3 - k)" "n \<le> 3" using that assms(3) by simp_all
    then show ?thesis using True assms(2) M by simp
  qed (use that assms(2,3) M in simp)
  show "m = lval a div 256 ^ (k - 3)" if "3 < k"
  proof (cases "bit (compact_mant a) 23")
    case True
    then have "k - 3 = Suc (n - 3)" "3 \<le> n" using that assms(3) by simp_all
    then show ?thesis using True assms(2) M
      by (cases "n = 3") (simp_all add: div_mult2_eq [symmetric] mult.commute)
  qed (use that assms(2,3) M in simp)
  assume "3 < k"
  then have "0 < n" using assms(3) by (simp split: if_splits)
  then have "lval a \<noteq> 0" using assms(1) bits_of_spec(3) [of a] by (cases "bits_of a = 0") simp_all
  then have lo: "2 ^ 16 \<le> compact_mant a" by (rule compact_mant_bounds)
  show "2 ^ 15 \<le> m"
  proof (cases "bit (compact_mant a) 23")
    case True
    then have "odd (compact_mant a div 2 ^ 23)" by (simp add: bit_iff_odd)
    then have "compact_mant a div 2 ^ 23 \<noteq> 0" by (metis even_zero)
    then have "2 ^ 23 \<le> compact_mant a" by (simp add: div_eq_0_iff not_less)
    then have "2 ^ 23 div 256 \<le> compact_mant a div 256" by (rule div_le_mono)
    with True assms(2) show ?thesis by simp
  qed (use lo assms(2) in simp)
qed

text \<open>
  Reading back the compact form of a number truncates it to its leading digits in base 256:
  \<open>e\<close> low digits become zero, and at least fifteen significant bits are kept.
\<close>

lemma compact_digits:
  assumes "length a = 8" and "GetCompact a False = Inr c" and "SetCompact c = (v, neg, ovf)"
  shows "length v = 8 \<and> \<not> neg \<and> \<not> ovf \<and>
    (\<exists>e. lval v = lval a div 256 ^ e * 256 ^ e \<and> (e = 0 \<or> 2 ^ 15 * 256 ^ e \<le> lval a))"
proof -
  define n where "n = (bits_of a + 7) div 8"
  define M where "M = compact_mant a"
  define m where "m = (if bit M 23 then M div 256 else M)"
  define k where "k = (if bit M 23 then n + 1 else n)"
  have c: "unat c = m + k * 2 ^ 24" and m: "m < 2 ^ 23" and k: "k \<le> 33"
    using GetCompact_eq [OF assms(1)] assms(2) by (auto simp: n_def m_def k_def M_def)
  have ck: "k = unat c div 2 ^ 24" using c m by simp
  have c2: "unat c = m + 2 ^ 23 * (2 * k)" using c by simp
  have cm: "unat c mod 2 ^ 23 = m" and cb: "unat c div 2 ^ 23 = 2 * k"
    unfolding c2 mod_mult_self2 using m div_mult_self2 [of "2 ^ 23" m "2 * k"] by simp_all
  have nb: "\<not> bit c 23" using bit_unat [of c 23] cb by (simp add: bit_iff_odd)
  have w: "compact_word (unat c) = (if k \<le> 3 then m div 256 ^ (3 - k) else m)"
    unfolding compact_word_def Let_def ck [symmetric] cm ..
  note t = compact_mant_trunc [OF n_def m_def [unfolded M_def] k_def [unfolded M_def]]
  have m33: "m \<le> 0xffff" if "32 < k"
  proof -
    have "n \<le> 32" using bits_of_le [of a] assms(1) by (simp add: n_def)
    then have "m = M div 256" using that by (auto simp: m_def k_def split: if_splits)
    moreover have "M < 2 ^ 24" unfolding M_def by (rule compact_mant_bounds)
    ultimately show ?thesis by simp
  qed
  note S = SetCompact_eq [OF assms(3) ck refl]
  have neg: "\<not> neg" using S(3) nb by simp
  have ovf: "\<not> ovf"
  proof (cases "k \<le> 32")
    case False
    then show ?thesis using S(4) m33 w k by auto
  qed (use S(4) in simp)
  have v: "lval v = (if k \<le> 3 then lval a else m * 256 ^ (k - 3))"
    using SetCompact_val(2) [OF _ ck, of v neg] assms(3) ovf w t(1) by simp
  have "lval v = lval a div 256 ^ (k - 3) * 256 ^ (k - 3) \<and> (k - 3 = 0 \<or> 2 ^ 15 * 256 ^ (k - 3) \<le> lval a)"
  proof (cases "k \<le> 3")
    case False
    then have "2 ^ 15 * 256 ^ (k - 3) \<le> m * 256 ^ (k - 3)" using t(3) by simp
    also have "\<dots> \<le> lval a" using t(2) False by simp
    finally show ?thesis using v t(2) False by simp
  qed (use v in simp)
  with S(1) neg ovf show ?thesis by blast
qed

subsection \<open>Byte forms\<close>

lemma ReadLE32_bit:
  assumes "i < 32" and "4 \<le> length b"
  shows "bit (ReadLE32 b) i \<longleftrightarrow> bit (b ! (i div 8)) (i mod 8)"
proof -
  have b8: "\<not> bit (x :: byte) j" if "8 \<le> j" for x j
    using bit_imp_le_length [of x j] that by (auto simp: not_less)
  consider "i < 8" | "8 \<le> i" "i < 16" | "16 \<le> i" "i < 24" | "24 \<le> i" "i < 32"
    using assms(1) by linarith
  then show ?thesis
  proof cases
    case 1
    then have "i div 8 = 0" "i mod 8 = i" by simp_all
    with 1 show ?thesis by (simp add: ReadLE32_def bit_or_iff bit_push_bit_iff bit_ucast_iff)
  next
    case 2
    then have "i div 8 = 1" "i mod 8 = i - 8" by (simp_all add: div_nat_eqI mod_nat_eqI)
    with 2 show ?thesis by (auto simp: ReadLE32_def bit_or_iff bit_push_bit_iff bit_ucast_iff b8)
  next
    case 3
    then have "i div 8 = 2" "i mod 8 = i - 16" by (simp_all add: div_nat_eqI mod_nat_eqI)
    with 3 show ?thesis by (auto simp: ReadLE32_def bit_or_iff bit_push_bit_iff bit_ucast_iff b8)
  next
    case 4
    then have "i div 8 = 3" "i mod 8 = i - 24" by (simp_all add: div_nat_eqI mod_nat_eqI)
    with 4 show ?thesis by (auto simp: ReadLE32_def bit_or_iff bit_push_bit_iff bit_ucast_iff b8)
  qed
qed

lemma length_WriteLE32 [simp]: "length (WriteLE32 x) = 4"
  by (simp add: WriteLE32_def)

lemma WriteLE32_nth: "j < 4 \<Longrightarrow> WriteLE32 x ! j = ucast (drop_bit (8 * j) x)"
  by (auto simp: WriteLE32_def less_Suc_eq numeral_eq_Suc)

lemma WriteLE32_ReadLE32:
  assumes "4 \<le> length b"
  shows "WriteLE32 (ReadLE32 b) = take 4 b"
proof (rule nth_equalityI)
  fix j
  assume "j < length (WriteLE32 (ReadLE32 b))"
  then have j: "j < 4" by simp
  have "ucast (drop_bit (8 * j) (ReadLE32 b)) = b ! j"
  proof (rule bit_word_eqI)
    fix i
    assume "i < LENGTH(8)"
    then have i: "i < 8" by simp
    then have "8 * j + i < 32" "(8 * j + i) div 8 = j" "(8 * j + i) mod 8 = i" using j by simp_all
    with i assms show "bit (ucast (drop_bit (8 * j) (ReadLE32 b)) :: byte) i \<longleftrightarrow> bit (b ! j) i"
      by (simp add: bit_ucast_iff bit_drop_bit_eq ReadLE32_bit)
  qed
  with j show "WriteLE32 (ReadLE32 b) ! j = take 4 b ! j" by (simp add: WriteLE32_nth)
qed (use assms in simp)

lemma ReadLE32_WriteLE32: "ReadLE32 (WriteLE32 x @ r) = x"
proof (rule bit_word_eqI)
  fix i
  assume "i < LENGTH(32)"
  then have i: "i < 32" by simp
  have d: "i div 8 < 4" using i by (simp add: less_mult_imp_div_less)
  have "8 * (i div 8) + i mod 8 = i" by simp
  then show "bit (ReadLE32 (WriteLE32 x @ r)) i \<longleftrightarrow> bit x i"
    using i by (simp add: ReadLE32_bit nth_append WriteLE32_nth d bit_ucast_iff bit_drop_bit_eq)
qed

lemma limbs_of_bytes:
  assumes "4 * n \<le> length b"
  shows "concat (map WriteLE32 (map (\<lambda>x. ReadLE32 (drop (4 * x) b)) [0..<n])) = take (4 * n) b"
  using assms
proof (induction n)
  case (Suc n)
  have "take (4 * Suc n) b = take (4 * n) b @ take 4 (drop (4 * n) b)"
    by (simp add: take_add [symmetric] add.commute)
  moreover have "WriteLE32 (ReadLE32 (drop (4 * n) b)) = take 4 (drop (4 * n) b)"
    using Suc.prems by (intro WriteLE32_ReadLE32) simp
  ultimately show ?case using Suc by simp
qed simp

lemma bytes_of_limbs:
  "map (\<lambda>x. ReadLE32 (drop (4 * x) (concat (map WriteLE32 a) @ r))) [0..<length a] = a"
proof (induction a)
  case (Cons p a)
  have "map (\<lambda>x. ReadLE32 (drop (4 * x) (concat (map WriteLE32 (p # a)) @ r))) [0..<length (p # a)]
      = ReadLE32 (WriteLE32 p @ concat (map WriteLE32 a) @ r)
        # map (\<lambda>x. ReadLE32 (drop (4 * x) (concat (map WriteLE32 a) @ r))) [0..<length a]"
    by (simp add: map_upt_Suc drop_append del: upt_Suc)
  then show ?case using Cons by (simp add: ReadLE32_WriteLE32)
qed simp

subsection \<open>Properties\<close>

definition w256 :: "limbs \<Rightarrow> u256" where
  "w256 a = of_nat (lval a)"

lemma w256_eqI: "lval a mod 2 ^ 256 = k mod 2 ^ 256 \<Longrightarrow> w256 a = of_nat k"
  by (simp add: w256_def word_of_nat_eq_iff take_bit_eq_mod)

lemma unat_w256: "length a = 8 \<Longrightarrow> unat (w256 a) = lval a"
  using lval_less [of a] by (simp add: w256_def unat_of_nat)

lemma w256_sub:
  assumes "length a = 8" and "length b = 8"
  shows "w256 (op_sub a b) = w256 a - w256 b"
proof -
  have l: "lval b \<le> 2 ^ 256" using lval_less [of b] assms(2) by simp
  have "w256 (op_sub a b) = of_nat (lval a + (2 ^ 256 - lval b))"
    using assms by (intro w256_eqI) (simp add: lval_sub)
  also have "\<dots> = w256 a + (of_nat (2 ^ 256) - w256 b)"
    using l by (simp only: of_nat_add of_nat_diff w256_def)
  also have "(of_nat (2 ^ 256) :: u256) = 0" by (simp add: word_of_nat_eq_0_iff)
  finally show ?thesis by simp
qed

lemma w256_less: "length a = 8 \<Longrightarrow> length b = 8 \<Longrightarrow> w256 a < w256 b \<longleftrightarrow> lval a < lval b"
  by (simp add: word_less_nat_alt unat_w256)

lemma w256_mul32: "length a = 8 \<Longrightarrow> w256 (op_mul32 a c) = w256 a * ucast c"
proof -
  assume a: "length a = 8"
  have "w256 (op_mul32 a c) = of_nat (lval a * unat c)"
    using a by (intro w256_eqI) (simp add: lval_mul32)
  also have "\<dots> = w256 a * of_nat (unat c)" by (simp only: w256_def of_nat_mult)
  also have "(of_nat (unat c) :: u256) = ucast c" by simp
  finally show ?thesis .
qed

lemma w256_shl: "length a = 8 \<Longrightarrow> w256 (op_shl a s) = push_bit s (w256 a)"
proof -
  assume a: "length a = 8"
  have "w256 (op_shl a s) = of_nat (lval a * 2 ^ s)"
    using a by (intro w256_eqI) (simp add: lval_shl)
  also have "\<dots> = push_bit s (w256 a)" by (simp only: w256_def of_nat_mult of_nat_power of_nat_numeral push_bit_eq_mult)
  finally show ?thesis .
qed

lemma w256_shr: "length a = 8 \<Longrightarrow> w256 (op_shr a s) = drop_bit s (w256 a)"
  by (simp add: word_unat_eq_iff unat_w256 lval_shr unat_drop_bit_eq flip: drop_bit_eq_div)

lemma w256_compl:
  assumes "length a = 8"
  shows "w256 (op_compl a) = NOT (w256 a)"
proof -
  have "lval a \<le> 2 ^ 256 - 1" using lval_less [of a] assms by simp
  then have "w256 (op_compl a) = of_nat (2 ^ 256 - 1) - w256 a"
    using assms by (simp only: w256_def op_compl_def lval_compl of_nat_diff) simp
  also have "(of_nat (2 ^ 256 - 1) :: u256) = - 1" by simp
  finally show ?thesis by (simp add: not_eq_complement)
qed

lemma bit_w256: "length a = 8 \<Longrightarrow> bit (w256 a) n \<longleftrightarrow> n div 32 < 8 \<and> bit (a ! (n div 32)) (n mod 32)"
  by (simp add: bit_lval unat_w256 flip: bit_unat)

lemma w256_bitwise:
  assumes "length a = 8" and "length b = 8"
  shows "w256 (op_xor a b) = w256 a XOR w256 b" and "w256 (op_and a b) = w256 a AND w256 b"
    and "w256 (op_or a b) = w256 a OR w256 b"
  using assms by (auto intro!: bit_word_eqI
      simp: bit_w256 op_xor_def op_and_def op_or_def bit_xor_iff bit_and_iff bit_or_iff)

text \<open>C21. The limb loops refine machine arithmetic on 256-bit words: addition, subtraction,
  multiplication by a word and by another number, both shifts, complement, increment, the
  bitwise operations and comparison.\<close>

theorem base_uint256_refines_word:
  assumes "length a = 8" and "length b = 8"
  shows "w256 (op_add a b) = w256 a + w256 b \<and> w256 (op_sub a b) = w256 a - w256 b \<and>
    w256 (op_mul a b) = w256 a * w256 b \<and> w256 (op_mul32 a c) = w256 a * ucast c \<and>
    w256 (op_shl a s) = push_bit s (w256 a) \<and> w256 (op_shr a s) = drop_bit s (w256 a) \<and>
    w256 (op_compl a) = NOT (w256 a) \<and> w256 (op_inc a) = w256 a + 1 \<and>
    w256 (op_xor a b) = w256 a XOR w256 b \<and> w256 (op_and a b) = w256 a AND w256 b \<and>
    w256 (op_or a b) = w256 a OR w256 b \<and> (CompareTo a b < 0 \<longleftrightarrow> w256 a < w256 b) \<and> (CompareTo a b = 0 \<longleftrightarrow> w256 a = w256 b)"
proof (intro conjI)
  have "w256 (op_add a b) = of_nat (lval a + lval b)"
    using assms by (intro w256_eqI) (simp add: lval_add)
  then show "w256 (op_add a b) = w256 a + w256 b" by (simp only: w256_def of_nat_add)
  have "w256 (op_mul a b) = of_nat (lval a * lval b)"
    using assms by (intro w256_eqI) (simp add: lval_mul)
  then show "w256 (op_mul a b) = w256 a * w256 b" by (simp only: w256_def of_nat_mult)
  have "w256 (op_inc a) = of_nat (lval a + 1)"
    using assms by (intro w256_eqI) (simp add: lval_inc)
  then show "w256 (op_inc a) = w256 a + 1" by (simp only: w256_def of_nat_add of_nat_1)
  show "CompareTo a b < 0 \<longleftrightarrow> w256 a < w256 b" "CompareTo a b = 0 \<longleftrightarrow> w256 a = w256 b"
    using assms by (simp_all add: CompareTo_sgn w256_less word_unat_eq_iff unat_w256 sgn_if)
qed (use assms in \<open>simp_all add: w256_bitwise w256_sub w256_mul32 w256_shl w256_shr w256_compl\<close>)

theorem base_uint256_refines_word_witness:
  "w256 (op_mul (base_uint_of 8 3) (base_uint_of 8 5)) = 15"
  using base_uint256_refines_word [of "base_uint_of 8 3" "base_uint_of 8 5" 0 0]
  by (simp add: lval_base_uint_of w256_def)

text \<open>\<open>operator/=\<close> returns the floor of the quotient for every non-zero divisor, and raises
  exactly on a zero divisor.\<close>

theorem op_div_floor:
  assumes "length a = length b"
  shows "if lval b = 0 then op_div a b = Inl (Thrown ''Division by zero'')
    else \<exists>q. op_div a b = Inr q \<and> length q = length a \<and> lval q = lval a div lval b"
  using assms op_div_spec op_div_zero by simp

theorem op_div_floor_witness:
  "(\<exists>q. op_div (base_uint_of 8 17) (base_uint_of 8 5) = Inr q \<and> lval q = 3) \<and>
   op_div (base_uint_of 8 17) (base_uint_of 8 0) = Inl (Thrown ''Division by zero'')"
  using op_div_floor [of "base_uint_of 8 17" "base_uint_of 8 5"]
    op_div_floor [of "base_uint_of 8 17" "base_uint_of 8 0"]
  by (auto simp: lval_base_uint_of)

text \<open>C22. Encoding a target as compact bits never faults, and decoding the bits gives the
  target back with its low bytes cleared: neither flag is set, and at least the fifteen leading
  binary digits survive.\<close>

theorem GetCompact_SetCompact:
  assumes "length a = 8"
  shows "\<exists>c v e. GetCompact a False = Inr c \<and> SetCompact c = (v, False, False) \<and> length v = 8 \<and>
    lval v = lval a div 256 ^ e * 256 ^ e \<and> (e = 0 \<or> 2 ^ 15 * 256 ^ e \<le> lval a)"
proof -
  obtain c where c: "GetCompact a False = Inr c" using GetCompact_eq [OF assms] by blast
  obtain v neg ovf where "SetCompact c = (v, neg, ovf)" using prod_cases3 by blast
  moreover from compact_digits [OF assms c this] have "\<not> neg" "\<not> ovf" by simp_all
  ultimately have s: "SetCompact c = (v, False, False)" by simp
  from compact_digits [OF assms c s] c s show ?thesis by simp
qed

theorem GetCompact_SetCompact_witness:
  "\<exists>c v e. GetCompact (base_uint_of 8 0x123456789a) False = Inr c \<and> SetCompact c = (v, False, False) \<and>
    lval v = 0x123456789a div 256 ^ e * 256 ^ e"
  using GetCompact_SetCompact [of "base_uint_of 8 0x123456789a"]
  by (simp add: lval_base_uint_of) blast

text \<open>C25. \<open>SetHex\<close> does not read hexadecimal digits: whatever memory it is given, the number
  it builds has the first 32 characters themselves as its bytes.\<close>

theorem SetHex_copies_characters:
  assumes "32 \<le> length psz"
  shows "\<exists>v. SetHex 8 psz = Inr v \<and> ArithToUint256 v = take 32 psz \<and> UintToArith256 psz = v"
  using assms limbs_of_bytes [of 8 psz] by (simp add: SetHex_def ArithToUint256_def UintToArith256_def)

theorem SetHex_copies_characters_witness:
  "\<exists>v. SetHex 8 (replicate 32 0x30) = Inr v \<and> ArithToUint256 v = replicate 32 0x30"
  using SetHex_copies_characters [of "replicate 32 0x30"] by simp

end
