(* ===== verification/Chain.thy ===== *)
theory Chain
  imports Arith_Uint "HOL-Library.Multiset"
begin

unbundle bit_operations_syntax

text \<open>
  The block index: \<open>src/src/chain.{h,cpp}\<close> and \<open>AddToBlockIndex\<close> of \<open>src/src/validation.cpp\<close>.
  The \<open>CBlockIndex\<close> objects live in a store, a map from pointers to records; \<open>pprev\<close> and \<open>pskip\<close>
  are pointers or null (\<open>None\<close>), and following a dangling pointer is the fault \<open>NullDeref\<close>.
  The tree a store holds is described by \<open>wf_store\<close>, which \<open>AddToBlockIndex\<close> keeps; over it the
  skip-list walk of \<open>GetAncestor\<close>, \<open>SetTip\<close>, \<open>FindFork\<close> and \<open>LastCommonAncestor\<close> are
  shown to agree with the plain walk along \<open>pprev\<close>.
\<close>

subsection \<open>Headers and index entries\<close>

record CBlockHeader =
  hdr_nVersion :: int
  hdr_hashPrevBlock :: uint256
  hdr_hashMerkleRoot :: uint256
  hdr_nTime :: u32
  hdr_nBits :: u32
  hdr_nNonce :: u32
  hdr_nHeight :: u32
  hdr_nNonce64 :: u64
  hdr_mix_hash :: uint256

definition BLOCK_VALID_TRANSACTIONS :: u32 where "BLOCK_VALID_TRANSACTIONS = 3"
definition BLOCK_VALID_CHAIN :: u32 where "BLOCK_VALID_CHAIN = 4"
definition BLOCK_VALID_SCRIPTS :: u32 where "BLOCK_VALID_SCRIPTS = 5"
definition BLOCK_VALID_MASK :: u32 where "BLOCK_VALID_MASK = 1 OR 2 OR 3 OR 4 OR 5"
definition BLOCK_HAVE_DATA :: u32 where "BLOCK_HAVE_DATA = 8"
definition BLOCK_HAVE_UNDO :: u32 where "BLOCK_HAVE_UNDO = 16"
definition BLOCK_FAILED_MASK :: u32 where "BLOCK_FAILED_MASK = 32 OR 64"

type_synonym ptr = nat

record CBlockIndex =
  phashBlock :: "uint256 option"
  pprev :: "ptr option"
  pskip :: "ptr option"
  nHeight :: int
  nFile :: int
  nDataPos :: u32
  nUndoPos :: u32
  nChainWork :: limbs
  nTx :: u32
  nChainTx :: u32
  nStatus :: u32
  nVersion :: int
  hashMerkleRoot :: uint256
  nTime :: u32
  nBits :: u32
  nNonce :: u32
  nNonce64 :: u64
  mix_hash :: uint256
  nSequenceId :: int
  nTimeMax :: u32

type_synonym store = "ptr \<Rightarrow> CBlockIndex option"

definition deref :: "store \<Rightarrow> ptr \<Rightarrow> CBlockIndex result" where
  "deref m p = (case m p of None \<Rightarrow> Inl NullDeref | Some b \<Rightarrow> Inr b)"

definition CBlockIndex_null :: CBlockIndex where
  "CBlockIndex_null =
     \<lparr>phashBlock = None, pprev = None, pskip = None, nHeight = 0, nFile = 0, nDataPos = 0,
      nUndoPos = 0, nChainWork = base_uint_zero 8, nTx = 0, nChainTx = 0, nStatus = 0,
      nVersion = 0, hashMerkleRoot = uint256_null, nTime = 0, nBits = 0, nNonce = 0,
      nNonce64 = 0, mix_hash = uint256_null, nSequenceId = 0, nTimeMax = 0\<rparr>"


definition GetBlockHash :: "CBlockIndex \<Rightarrow> uint256" where
  "GetBlockHash b = (case phashBlock b of None \<Rightarrow> uint256_null | Some h \<Rightarrow> h)"

definition GetBlockHeader :: "store \<Rightarrow> CBlockIndex \<Rightarrow> CBlockHeader result" where
  "GetBlockHeader m b =
     bindR (case pprev b of None \<Rightarrow> Inr uint256_null
              | Some q \<Rightarrow> bindR (deref m q) (\<lambda>bq. Inr (GetBlockHash bq))) (\<lambda>hashPrev.
       Inr \<lparr>hdr_nVersion = nVersion b, hdr_hashPrevBlock = hashPrev,
            hdr_hashMerkleRoot = hashMerkleRoot b, hdr_nTime = nTime b, hdr_nBits = nBits b,
            hdr_nNonce = nNonce b, hdr_nHeight = word_of_int (nHeight b),
            hdr_nNonce64 = nNonce64 b, hdr_mix_hash = mix_hash b\<rparr>)"

definition IsValid :: "CBlockIndex \<Rightarrow> u32 \<Rightarrow> bool result" where
  "IsValid b nUpTo =
     bindR (assertR (nUpTo AND NOT BLOCK_VALID_MASK = 0)) (\<lambda>_.
       Inr (if nStatus b AND BLOCK_FAILED_MASK \<noteq> 0 then False
            else nUpTo \<le> nStatus b AND BLOCK_VALID_MASK))"


subsection \<open>Median time\<close>

primrec past_times :: "store \<Rightarrow> nat \<Rightarrow> ptr option \<Rightarrow> int list result" where
  "past_times m 0 p = Inr []"
| "past_times m (Suc n) p =
     (case p of None \<Rightarrow> Inr []
      | Some q \<Rightarrow> bindR (deref m q) (\<lambda>b.
          bindR (past_times m n (pprev b)) (\<lambda>ts. Inr (uint (nTime b) # ts))))"

definition GetMedianTimePast :: "store \<Rightarrow> ptr \<Rightarrow> int result" where
  "GetMedianTimePast m p =
     bindR (past_times m 11 (Some p)) (\<lambda>ts. Inr (sort (rev ts) ! (length ts div 2)))"

subsection \<open>Skip list\<close>

definition InvertLowestOne :: "int \<Rightarrow> int" where
  "InvertLowestOne n = n AND (n - 1)"

definition GetSkipHeight :: "int \<Rightarrow> int" where
  "GetSkipHeight height =
     (if height < 2 then 0
      else if height AND 1 \<noteq> 0 then InvertLowestOne (InvertLowestOne (height - 1)) + 1
      else InvertLowestOne height)"

lemma InvertLowestOne_bounds: "0 < n \<Longrightarrow> 0 \<le> InvertLowestOne n \<and> InvertLowestOne n < n"
  unfolding InvertLowestOne_def using AND_upper2 [of "n - 1" n] by simp

lemma GetSkipHeight_bounds:
  assumes "0 < h"
  shows "0 \<le> GetSkipHeight h" and "GetSkipHeight h < h"
proof -
  have "0 \<le> GetSkipHeight h \<and> GetSkipHeight h < h"
  proof (cases "h < 2 \<or> h AND 1 = 0")
    case True
    then show ?thesis using assms InvertLowestOne_bounds [of h] by (auto simp: GetSkipHeight_def)
  next
    case False
    then have h: "2 < h" by (cases "h = 2") auto
    define k where "k = InvertLowestOne (h - 1)"
    have k: "0 \<le> k" "k < h - 1" using h InvertLowestOne_bounds [of "h - 1"] by (auto simp: k_def)
    have "0 \<le> InvertLowestOne k \<and> InvertLowestOne k \<le> k"
      using k InvertLowestOne_bounds [of k] by (cases "k = 0") (auto simp: InvertLowestOne_def)
    with False h k show ?thesis by (simp add: GetSkipHeight_def k_def [symmetric])
  qed
  then show "0 \<le> GetSkipHeight h" "GetSkipHeight h < h" by auto
qed

text \<open>
  The walk of \<open>GetAncestor\<close>; the source runs it while \<open>heightWalk > height\<close>, with
  \<open>height \<ge> 0\<close>, so the test against zero never decides.
\<close>

function ancestor_walk :: "store \<Rightarrow> int \<Rightarrow> ptr \<Rightarrow> int \<Rightarrow> ptr result" where
  "ancestor_walk m height pindexWalk heightWalk =
     (if heightWalk \<le> height \<or> heightWalk \<le> 0 then Inr pindexWalk
      else bindR (deref m pindexWalk) (\<lambda>b.
        let heightSkip = GetSkipHeight heightWalk; heightSkipPrev = GetSkipHeight (heightWalk - 1) in
        case pskip b of
          Some s \<Rightarrow>
            if heightSkip = height \<or>
               (heightSkip > height \<and> \<not> (heightSkipPrev < heightSkip - 2 \<and> heightSkipPrev \<ge> height))
            then ancestor_walk m height s heightSkip
            else (case pprev b of None \<Rightarrow> Inl AssertFailed
                  | Some q \<Rightarrow> ancestor_walk m height q (heightWalk - 1))
        | None \<Rightarrow> (case pprev b of None \<Rightarrow> Inl AssertFailed
                  | Some q \<Rightarrow> ancestor_walk m height q (heightWalk - 1))))"
  by pat_completeness auto
termination
  by (relation "measure (\<lambda>(m, h, p, w). nat w)") (auto simp: GetSkipHeight_bounds)

declare ancestor_walk.simps [simp del]

definition GetAncestor :: "store \<Rightarrow> ptr \<Rightarrow> int \<Rightarrow> ptr option result" where
  "GetAncestor m p height =
     bindR (deref m p) (\<lambda>b.
       if height > nHeight b \<or> height < 0 then Inr None
       else bindR (ancestor_walk m height p (nHeight b)) (\<lambda>q. Inr (Some q)))"


subsection \<open>The active chain\<close>

type_synonym CChain = "ptr option list"

definition Genesis :: "CChain \<Rightarrow> ptr option" where
  "Genesis vChain = (if length vChain > 0 then vChain ! 0 else None)"

definition Tip :: "CChain \<Rightarrow> ptr option" where
  "Tip vChain = (if length vChain > 0 then vChain ! (length vChain - 1) else None)"

definition chain_at :: "CChain \<Rightarrow> int \<Rightarrow> ptr option" where
  "chain_at vChain h = (if h < 0 \<or> h \<ge> int (length vChain) then None else vChain ! nat h)"

definition Contains :: "store \<Rightarrow> CChain \<Rightarrow> ptr \<Rightarrow> bool result" where
  "Contains m vChain p = bindR (deref m p) (\<lambda>b. Inr (chain_at vChain (nHeight b) = Some p))"

definition Next :: "store \<Rightarrow> CChain \<Rightarrow> ptr \<Rightarrow> ptr option result" where
  "Next m vChain p =
     bindR (Contains m vChain p) (\<lambda>c.
       if c then bindR (deref m p) (\<lambda>b. bindR (i32 (nHeight b + 1)) (\<lambda>h. Inr (chain_at vChain h)))
       else Inr None)"

definition Height :: "CChain \<Rightarrow> int" where
  "Height vChain = int (length vChain) - 1"

primrec SetTip_loop :: "store \<Rightarrow> nat \<Rightarrow> CChain \<Rightarrow> ptr option \<Rightarrow> CChain result" where
  "SetTip_loop m 0 vChain pindex = Inl OutOfFuel"
| "SetTip_loop m (Suc fuel) vChain pindex =
     (case pindex of None \<Rightarrow> Inr vChain
      | Some p \<Rightarrow> bindR (deref m p) (\<lambda>b.
          if nHeight b < 0 \<or> nHeight b \<ge> int (length vChain) then Inl OutOfRange
          else if vChain ! nat (nHeight b) = Some p then Inr vChain
          else SetTip_loop m fuel (vChain[nat (nHeight b) := Some p]) (pprev b)))"

definition SetTip :: "store \<Rightarrow> CChain \<Rightarrow> ptr option \<Rightarrow> CChain result" where
  "SetTip m vChain pindex =
     (case pindex of None \<Rightarrow> Inr []
      | Some p \<Rightarrow> bindR (deref m p) (\<lambda>b. bindR (i32 (nHeight b + 1)) (\<lambda>n.
          if n < 0 then Inl (Thrown ''length_error'')
          else SetTip_loop m (nat n + 1)
                 (take (nat n) vChain @ replicate (nat n - length vChain) None) (Some p))))"

primrec FindFork_loop :: "store \<Rightarrow> CChain \<Rightarrow> nat \<Rightarrow> ptr option \<Rightarrow> ptr option result" where
  "FindFork_loop m vChain 0 pindex = Inl OutOfFuel"
| "FindFork_loop m vChain (Suc fuel) pindex =
     (case pindex of None \<Rightarrow> Inr None
      | Some p \<Rightarrow> bindR (Contains m vChain p) (\<lambda>c.
          if c then Inr (Some p)
          else bindR (deref m p) (\<lambda>b. FindFork_loop m vChain fuel (pprev b))))"

definition FindFork :: "store \<Rightarrow> CChain \<Rightarrow> ptr option \<Rightarrow> ptr option result" where
  "FindFork m vChain pindex =
     (case pindex of None \<Rightarrow> Inr None
      | Some p \<Rightarrow> bindR (deref m p) (\<lambda>b.
          bindR (if nHeight b > Height vChain then GetAncestor m p (Height vChain) else Inr (Some p))
            (FindFork_loop m vChain (nat (nHeight b) + 2))))"

text \<open>\<open>nStep\<close> is an \<open>int\<close> and doubles once more than ten hashes are collected.\<close>

primrec GetLocator_loop :: "store \<Rightarrow> CChain \<Rightarrow> nat \<Rightarrow> ptr option \<Rightarrow> int \<Rightarrow> uint256 list \<Rightarrow> uint256 list result" where
  "GetLocator_loop m vChain 0 pindex nStep vHave = Inl OutOfFuel"
| "GetLocator_loop m vChain (Suc fuel) pindex nStep vHave =
     (case pindex of None \<Rightarrow> Inr vHave
      | Some p \<Rightarrow> bindR (deref m p) (\<lambda>b.
          let vHave = vHave @ [GetBlockHash b] in
          if nHeight b = 0 then Inr vHave
          else bindR (i32 (nHeight b - nStep)) (\<lambda>d.
            let h = max d 0 in
            bindR (Contains m vChain p) (\<lambda>c.
            bindR (if c then Inr (chain_at vChain h) else GetAncestor m p h) (\<lambda>pindex'.
            bindR (if length vHave > 10 then i32 (nStep * 2) else Inr nStep) (\<lambda>nStep'.
              GetLocator_loop m vChain fuel pindex' nStep' vHave))))))"

definition GetLocator :: "store \<Rightarrow> CChain \<Rightarrow> ptr option \<Rightarrow> uint256 list result" where
  "GetLocator m vChain pindex =
     (case (case pindex of None \<Rightarrow> Tip vChain | Some p \<Rightarrow> Some p) of
        None \<Rightarrow> Inr []
      | Some p \<Rightarrow> bindR (deref m p) (\<lambda>b.
          GetLocator_loop m vChain (nat (nHeight b) + 1) (Some p) 1 []))"

text \<open>\<open>std::lower_bound\<close>: the bisection of the standard library on a random-access range.\<close>

function lower_bound_loop :: "(nat \<Rightarrow> bool result) \<Rightarrow> nat \<Rightarrow> nat \<Rightarrow> nat result" where
  "lower_bound_loop lt first len =
     (if len = 0 then Inr first
      else let half = len div 2; middle = first + half in
           bindR (lt middle) (\<lambda>l.
             if l then lower_bound_loop lt (middle + 1) (len - half - 1)
             else lower_bound_loop lt first half))"
  by pat_completeness auto
termination by (relation "measure (\<lambda>(l, f, n). n)") auto

declare lower_bound_loop.simps [simp del]

definition FindEarliestAtLeast :: "store \<Rightarrow> CChain \<Rightarrow> int \<Rightarrow> ptr option result" where
  "FindEarliestAtLeast m vChain time =
     bindR (lower_bound_loop (\<lambda>i. case vChain ! i of None \<Rightarrow> Inl NullDeref
               | Some p \<Rightarrow> bindR (deref m p) (\<lambda>b. Inr (uint (nTimeMax b) < time))) 0 (length vChain))
       (\<lambda>lower. Inr (if lower = length vChain then None else vChain ! lower))"

primrec common_loop :: "store \<Rightarrow> nat \<Rightarrow> ptr option \<Rightarrow> ptr option \<Rightarrow> (ptr option \<times> ptr option) result" where
  "common_loop m 0 pa pb = Inl OutOfFuel"
| "common_loop m (Suc fuel) pa pb =
     (case (pa, pb) of
        (Some a, Some b) \<Rightarrow>
          if a = b then Inr (pa, pb)
          else bindR (deref m a) (\<lambda>ba. bindR (deref m b) (\<lambda>bb. common_loop m fuel (pprev ba) (pprev bb)))
      | _ \<Rightarrow> Inr (pa, pb))"

definition LastCommonAncestor :: "store \<Rightarrow> ptr \<Rightarrow> ptr \<Rightarrow> ptr option result" where
  "LastCommonAncestor m a b =
     bindR (deref m a) (\<lambda>ba. bindR (deref m b) (\<lambda>bb.
       bindR (if nHeight ba > nHeight bb then GetAncestor m a (nHeight bb) else Inr (Some a)) (\<lambda>pa.
       bindR (if nHeight bb > nHeight ba then GetAncestor m b (nHeight ba) else Inr (Some b)) (\<lambda>pb.
       bindR (common_loop m (nat (nHeight ba) + 2) pa pb) (\<lambda>(pa, pb).
       bindR (assertR (pa = pb)) (\<lambda>_. Inr pa))))))"

subsection \<open>Work\<close>

definition GetBlockProof :: "u32 \<Rightarrow> limbs result" where
  "GetBlockProof bits =
     (let (bnTarget, fNegative, fOverflow) = SetCompact bits in
      if fNegative \<or> fOverflow \<or> EqualTo bnTarget 0 then Inr (base_uint_of 8 0)
      else bindR (op_div (op_compl bnTarget) (op_add bnTarget (base_uint_of 8 1))) (\<lambda>q.
             Inr (op_add q (base_uint_of 8 1))))"

text \<open>\<open>sign * r.GetLow64()\<close> is computed in \<open>uint64_t\<close> and converted to \<open>int64_t\<close>.\<close>

definition GetBlockProofEquivalentTime :: "CBlockIndex \<Rightarrow> CBlockIndex \<Rightarrow> CBlockIndex \<Rightarrow> int \<Rightarrow> int result" where
  "GetBlockProofEquivalentTime to from tip nPowTargetSpacing =
     (let (r, sign) = (if CompareTo (nChainWork to) (nChainWork from) > 0
                       then (op_sub (nChainWork to) (nChainWork from), 1)
                       else (op_sub (nChainWork from) (nChainWork to), - 1)) in
      bindR (GetBlockProof (nBits tip)) (\<lambda>proof_tip.
      bindR (op_div (op_mul r (base_uint_of 8 (word_of_int nPowTargetSpacing))) proof_tip) (\<lambda>r.
        Inr (if bits_of r > 63 then sign * INT64_MAX
             else sint (word_of_int sign * GetLow64 r)))))"

subsection \<open>Adding a header\<close>








subsection \<open>The tree of a store\<close>

definition prev_of :: "store \<Rightarrow> ptr \<Rightarrow> ptr option" where
  "prev_of m p = Option.bind (m p) pprev"

primrec parents :: "store \<Rightarrow> nat \<Rightarrow> ptr \<Rightarrow> ptr option" where
  "parents m 0 p = Some p"
| "parents m (Suc n) p = Option.bind (parents m n p) (prev_of m)"

definition wf_entry :: "store \<Rightarrow> CBlockIndex \<Rightarrow> bool" where
  "wf_entry m b \<longleftrightarrow> 0 \<le> nHeight b \<and> in_int32 (nHeight b) \<and>
     (case pprev b of
        None \<Rightarrow> nHeight b = 0 \<and> pskip b = None
      | Some q \<Rightarrow> \<exists>bq. m q = Some bq \<and> nHeight b = nHeight bq + 1 \<and>
          (\<forall>s. pskip b = Some s \<longrightarrow> parents m (nat (nHeight bq - GetSkipHeight (nHeight b))) q = Some s))"

definition wf_store :: "store \<Rightarrow> bool" where
  "wf_store m \<longleftrightarrow> (\<forall>p b. m p = Some b \<longrightarrow> wf_entry m b)"

text \<open>The fields computed along the tree: the skip pointer is there, time and work accumulate.\<close>

definition wf_sums :: "store \<Rightarrow> CBlockIndex \<Rightarrow> bool" where
  "wf_sums m b \<longleftrightarrow> length (nChainWork b) = 8 \<and> (\<exists>pf. GetBlockProof (nBits b) = Inr pf \<and>
     (case pprev b of
        None \<Rightarrow> nTimeMax b = nTime b \<and> nChainWork b = op_add (base_uint_of 8 0) pf
      | Some q \<Rightarrow> \<exists>bq. m q = Some bq \<and> nTimeMax b = max (nTimeMax bq) (nTime b) \<and>
          nChainWork b = op_add (nChainWork bq) pf \<and>
          pskip b = parents m (nat (nHeight bq - GetSkipHeight (nHeight b))) q))"

definition wf_data :: "store \<Rightarrow> bool" where
  "wf_data m \<longleftrightarrow> (\<forall>p b. m p = Some b \<longrightarrow> wf_sums m b)"

definition is_chain :: "store \<Rightarrow> CChain \<Rightarrow> bool" where
  "is_chain m c \<longleftrightarrow> (\<forall>i < length c. \<exists>p b. c ! i = Some p \<and> m p = Some b \<and> nHeight b = int i \<and>
     pprev b = (if i = 0 then None else c ! (i - 1)))"

lemma deref_Some [simp]: "m p = Some b \<Longrightarrow> deref m p = Inr b"
  by (simp add: deref_def)

lemma parents_add: "parents m (a + b) p = Option.bind (parents m a p) (parents m b)"
  by (induction b) (simp_all add: Option.bind_assoc)

lemma parents_Suc_prev: "parents m (Suc n) p = Option.bind (prev_of m p) (parents m n)"
  using parents_add [of m 1 n p] by simp

lemma wf_prev:
  assumes "wf_store m" and "m p = Some b" and "pprev b = Some q"
  shows "\<exists>bq. m q = Some bq \<and> nHeight b = nHeight bq + 1 \<and>
    (\<forall>s. pskip b = Some s \<longrightarrow> parents m (nat (nHeight bq - GetSkipHeight (nHeight b))) q = Some s)"
  using assms unfolding wf_store_def wf_entry_def by fastforce

lemma wf_root: "wf_store m \<Longrightarrow> m p = Some b \<Longrightarrow> pprev b = None \<Longrightarrow> nHeight b = 0 \<and> pskip b = None"
  unfolding wf_store_def wf_entry_def by fastforce

lemma wf_height: "wf_store m \<Longrightarrow> m p = Some b \<Longrightarrow> 0 \<le> nHeight b \<and> nHeight b \<le> 2147483647"
  unfolding wf_store_def wf_entry_def by (auto simp: range_simps)

lemma wf_zero:
  assumes "wf_store m" and "m p = Some b" and "nHeight b = 0"
  shows "pprev b = None"
proof (rule ccontr)
  assume "pprev b \<noteq> None"
  then obtain q where "pprev b = Some q" by auto
  from wf_prev [OF assms(1,2) this] wf_height [OF assms(1)] assms(3) show False by force
qed

lemma wf_prev_exists:
  assumes "wf_store m" and "m p = Some b" and "0 < nHeight b"
  shows "\<exists>q bq. pprev b = Some q \<and> m q = Some bq \<and> nHeight bq = nHeight b - 1"
proof (cases "pprev b")
  case None
  with wf_root [OF assms(1,2)] assms(3) show ?thesis by simp
next
  case (Some q)
  with wf_prev [OF assms(1,2) Some] show ?thesis by auto
qed

lemma parents_height:
  assumes "wf_store m" and "m p = Some b" and "parents m n p = Some q"
  shows "\<exists>bq. m q = Some bq \<and> nHeight bq = nHeight b - int n"
  using assms(3)
proof (induction n arbitrary: q)
  case (Suc n)
  then obtain r br where "m r = Some br" "nHeight br = nHeight b - int n" "prev_of m r = Some q"
    by (auto simp: Option.bind_eq_Some_conv)
  moreover from this have "pprev br = Some q" by (simp add: prev_of_def)
  ultimately show ?case using wf_prev [OF assms(1), of r br q] by auto
qed (use assms in simp)

lemma parents_exists:
  assumes "wf_store m" and "m p = Some b" and "int n \<le> nHeight b"
  shows "\<exists>q bq. parents m n p = Some q \<and> m q = Some bq \<and> nHeight bq = nHeight b - int n"
  using assms(3)
proof (induction n)
  case (Suc n)
  then obtain r br where r: "parents m n p = Some r" "m r = Some br" "nHeight br = nHeight b - int n"
    by auto
  with Suc.prems have "0 < nHeight br" by simp
  from wf_prev_exists [OF assms(1) r(2) this] obtain q bq
    where "pprev br = Some q" "m q = Some bq" "nHeight bq = nHeight br - 1" by metis
  with r show ?case by (simp add: prev_of_def)
qed (use assms in simp)

lemma parents_none:
  assumes "wf_store m" and "m p = Some b" and "int n > nHeight b"
  shows "parents m n p = None"
proof (rule ccontr)
  assume "parents m n p \<noteq> None"
  then obtain q where "parents m n p = Some q" by auto
  from parents_height [OF assms(1,2) this] wf_height [OF assms(1)] assms(3) show False by force
qed

subsection \<open>The skip-list walk\<close>

lemma wf_skip:
  assumes "wf_store m" and "m p = Some b" and "pskip b = Some s"
  shows "parents m (nat (nHeight b - GetSkipHeight (nHeight b))) p = Some s \<and>
    (\<exists>bs. m s = Some bs \<and> nHeight bs = GetSkipHeight (nHeight b))"
proof -
  have "pprev b \<noteq> None" using wf_root [OF assms(1,2)] assms(3) by auto
  then obtain q where q: "pprev b = Some q" by auto
  obtain bq where bq: "m q = Some bq" "nHeight b = nHeight bq + 1"
    "parents m (nat (nHeight bq - GetSkipHeight (nHeight b))) q = Some s"
    using wf_prev [OF assms(1,2) q] assms(3) by auto
  have "0 < nHeight b" using bq(2) wf_height [OF assms(1) bq(1)] by simp
  note g = GetSkipHeight_bounds [OF this]
  have n: "nat (nHeight b - GetSkipHeight (nHeight b))
      = Suc (nat (nHeight bq - GetSkipHeight (nHeight b)))" using g bq(2) by simp
  have s: "parents m (nat (nHeight b - GetSkipHeight (nHeight b))) p = Some s"
    unfolding n parents_Suc_prev using bq q assms by (simp add: prev_of_def)
  show ?thesis using s parents_height [OF assms(1,2) s] g by auto
qed

lemma ancestor_walk_correct:
  assumes "wf_store m" and "m p = Some b" and "nHeight b = w" and "0 \<le> h" and "h \<le> w"
  shows "\<exists>q. ancestor_walk m h p w = Inr q \<and> parents m (nat (w - h)) p = Some q"
  using assms(2-)
proof (induction w arbitrary: p b rule: measure_induct_rule [of nat])
  case (less w)
  show ?case
  proof (cases "w \<le> h")
    case True
    with less.prems have "w = h" by simp
    then show ?thesis by (subst ancestor_walk.simps) simp
  next
    case False
    with less.prems have w: "0 < w" by simp
    from wf_prev_exists [OF assms(1) less.prems(1)] w less.prems(2)
    obtain q bq where q: "pprev b = Some q" "m q = Some bq" "nHeight bq = w - 1" by metis
    have up: "\<exists>r. ancestor_walk m h q (w - 1) = Inr r \<and> parents m (nat (w - h)) p = Some r"
    proof -
      obtain r where "ancestor_walk m h q (w - 1) = Inr r" "parents m (nat (w - 1 - h)) q = Some r"
        using less.IH [of "w - 1" q bq] q False w less.prems(3) by auto
      moreover have "nat (w - h) = Suc (nat (w - 1 - h))" using False by simp
      ultimately show ?thesis using q(1) less.prems(1) by (simp add: parents_Suc_prev prev_of_def del: parents.simps)
    qed
    show ?thesis
    proof (cases "pskip b")
      case None
      then show ?thesis using up q False w less.prems
        by (subst ancestor_walk.simps) (simp add: Let_def)
    next
      case (Some s)
      define k where "k = GetSkipHeight w"
      have k: "0 \<le> k" "k < w" using GetSkipHeight_bounds [OF w] by (simp_all add: k_def)
      have s: "parents m (nat (w - k)) p = Some s" "\<exists>bs. m s = Some bs \<and> nHeight bs = k"
        using wf_skip [OF assms(1) less.prems(1) Some] less.prems(2) by (auto simp: k_def)
      have skip: "\<exists>r. ancestor_walk m h s k = Inr r \<and> parents m (nat (w - h)) p = Some r" if hk: "h \<le> k"
      proof -
        obtain r where "ancestor_walk m h s k = Inr r" "parents m (nat (k - h)) s = Some r"
          using less.IH [of k s] s(2) k w hk less.prems(3) by auto
        moreover have "nat (w - h) = nat (w - k) + nat (k - h)" using hk k by simp
        ultimately show ?thesis using s(1) by (simp add: parents_add)
      qed
      show ?thesis using up skip q Some False w less.prems
        by (subst ancestor_walk.simps) (auto simp: Let_def k_def [symmetric])
    qed
  qed
qed

lemma GetAncestor_correct:
  assumes "wf_store m" and "m p = Some b"
  shows "GetAncestor m p h = Inr (if 0 \<le> h \<and> h \<le> nHeight b then parents m (nat (nHeight b - h)) p else None)"
  using ancestor_walk_correct [OF assms refl, of h] assms(2) by (auto simp: GetAncestor_def)

lemma GetAncestor_Some:
  assumes "wf_store m" and "m p = Some b" and "0 \<le> h" and "h \<le> nHeight b"
  shows "\<exists>q bq. GetAncestor m p h = Inr (Some q) \<and> parents m (nat (nHeight b - h)) p = Some q \<and>
    m q = Some bq \<and> nHeight bq = h"
  using GetAncestor_correct [OF assms(1,2), of h] parents_exists [OF assms(1,2), of "nat (nHeight b - h)"] assms(3,4)
  by auto

subsection \<open>Ancestry\<close>

definition ancestor :: "store \<Rightarrow> ptr \<Rightarrow> ptr \<Rightarrow> bool" where
  "ancestor m p q \<longleftrightarrow> (\<exists>n. parents m n p = Some q)"

lemma ancestor_refl [simp]: "ancestor m p p"
  unfolding ancestor_def by (rule exI [of _ 0]) simp

lemma ancestor_height:
  assumes "wf_store m" and "m p = Some b" and "ancestor m p q"
  shows "\<exists>bq. m q = Some bq \<and> nHeight bq \<le> nHeight b \<and> parents m (nat (nHeight b - nHeight bq)) p = Some q"
proof -
  obtain n where n: "parents m n p = Some q" using assms(3) by (auto simp: ancestor_def)
  from parents_height [OF assms(1,2) n] obtain bq where "m q = Some bq" "nHeight bq = nHeight b - int n" by auto
  then show ?thesis using n by auto
qed

lemma ancestor_below:
  assumes "wf_store m" and "m p = Some b" and "ancestor m p q" and "ancestor m p r"
    and "m q = Some bq" and "m r = Some br" and "nHeight bq \<le> nHeight br"
  shows "ancestor m r q"
proof -
  have q: "parents m (nat (nHeight b - nHeight bq)) p = Some q" and "nHeight bq \<le> nHeight b"
    using ancestor_height [OF assms(1-3)] assms(5) by auto
  have r: "parents m (nat (nHeight b - nHeight br)) p = Some r" and "nHeight br \<le> nHeight b"
    using ancestor_height [OF assms(1,2,4)] assms(6) by auto
  have "nat (nHeight b - nHeight bq) = nat (nHeight b - nHeight br) + nat (nHeight br - nHeight bq)"
    using assms(7) \<open>nHeight br \<le> nHeight b\<close> by simp
  with q r have "parents m (nat (nHeight br - nHeight bq)) r = Some q" by (simp add: parents_add)
  then show ?thesis by (auto simp: ancestor_def)
qed

lemma ancestor_step:
  assumes "m p = Some b"
  shows "ancestor m p q \<longleftrightarrow> p = q \<or> (\<exists>r. pprev b = Some r \<and> ancestor m r q)"
proof
  assume "ancestor m p q"
  then obtain n where n: "parents m n p = Some q" by (auto simp: ancestor_def)
  show "p = q \<or> (\<exists>r. pprev b = Some r \<and> ancestor m r q)"
  proof (cases n)
    case (Suc k)
    then show ?thesis using n assms
      by (auto simp: parents_Suc_prev prev_of_def ancestor_def Option.bind_eq_Some_conv simp del: parents.simps)
  qed (use n in simp)
next
  assume "p = q \<or> (\<exists>r. pprev b = Some r \<and> ancestor m r q)"
  then show "ancestor m p q"
  proof
    assume "\<exists>r. pprev b = Some r \<and> ancestor m r q"
    then obtain r n where "pprev b = Some r" "parents m n r = Some q" by (auto simp: ancestor_def)
    then have "parents m (Suc n) p = Some q" using assms by (simp add: parents_Suc_prev prev_of_def del: parents.simps)
    then show ?thesis unfolding ancestor_def by blast
  qed simp
qed

lemma GetAncestor_ancestor:
  assumes "wf_store m" and "m p = Some b" and "0 \<le> h" and "h \<le> nHeight b"
  shows "\<exists>q bq. GetAncestor m p h = Inr (Some q) \<and> ancestor m p q \<and> m q = Some bq \<and> nHeight bq = h"
  using GetAncestor_Some [OF assms] by (auto simp: ancestor_def)

subsection \<open>Last common ancestor\<close>

definition last_common :: "store \<Rightarrow> (ptr \<Rightarrow> bool) \<Rightarrow> ptr \<Rightarrow> ptr option \<Rightarrow> bool" where
  "last_common m P p r \<longleftrightarrow>
     (case r of None \<Rightarrow> \<forall>q. ancestor m p q \<longrightarrow> \<not> P q
      | Some q \<Rightarrow> ancestor m p q \<and> P q \<and> (\<forall>q'. ancestor m p q' \<longrightarrow> P q' \<longrightarrow> ancestor m q q'))"

lemma last_common_here: "P p \<Longrightarrow> last_common m P p (Some p)"
  by (simp add: last_common_def)

lemma last_common_root: "m p = Some b \<Longrightarrow> pprev b = None \<Longrightarrow> \<not> P p \<Longrightarrow> last_common m P p None"
  by (simp add: last_common_def ancestor_step)

lemma last_common_prev:
  assumes "m p = Some b" and "pprev b = Some q" and "\<not> P p" and "last_common m P q r"
  shows "last_common m P p r"
  using assms by (auto simp: last_common_def ancestor_step [of m p] split: option.splits)

lemma last_common_from:
  assumes "wf_store m" and "m p = Some b" and "ancestor m p q" and "m q = Some bq"
    and "\<And>r br. P r \<Longrightarrow> m r = Some br \<Longrightarrow> nHeight br \<le> nHeight bq"
    and "last_common m P q r"
  shows "last_common m P p r"
proof -
  have up: "ancestor m q q'" if "ancestor m p q'" "P q'" for q'
  proof -
    from ancestor_height [OF assms(1,2) that(1)] obtain b' where "m q' = Some b'" by auto
    with assms(5) [OF that(2) this] show ?thesis using ancestor_below [OF assms(1,2) that(1) assms(3)] assms(4) by blast
  qed
  have down: "ancestor m p q'" if "ancestor m q q'" for q'
    using that assms(3) parents_add [of m _ _ p] unfolding ancestor_def by (metis Option.bind.bind_lunit)
  show ?thesis
  proof (cases r)
    case None
    then have "\<forall>x. ancestor m q x \<longrightarrow> \<not> P x" using assms(6) by (simp add: last_common_def)
    then have "\<forall>x. ancestor m p x \<longrightarrow> \<not> P x" using up by blast
    then show ?thesis using None by (simp add: last_common_def)
  next
    case (Some q')
    then have "ancestor m q q'" "P q'" "\<forall>x. ancestor m q x \<longrightarrow> P x \<longrightarrow> ancestor m q' x"
      using assms(6) by (simp_all add: last_common_def)
    then have "ancestor m p q' \<and> P q' \<and> (\<forall>x. ancestor m p x \<longrightarrow> P x \<longrightarrow> ancestor m q' x)"
      using up down by blast
    then show ?thesis using Some by (simp add: last_common_def)
  qed
qed

lemma common_loop_correct:
  assumes "wf_store m" and "m a = Some ba" and "m b = Some bb" and "nHeight ba = nHeight bb"
    and "nat (nHeight ba) + 2 \<le> fuel"
  shows "\<exists>r. common_loop m fuel (Some a) (Some b) = Inr (r, r) \<and> last_common m (ancestor m b) a r"
  using assms(2-)
proof (induction fuel arbitrary: a b ba bb)
  case (Suc fuel)
  show ?case
  proof (cases "a = b")
    case True
    then show ?thesis by (auto intro: last_common_here)
  next
    case False
    have nab: "\<not> ancestor m b a"
    proof
      assume "ancestor m b a"
      from ancestor_height [OF assms(1) Suc.prems(2) this] Suc.prems False show False by auto
    qed
    show ?thesis
    proof (cases "nHeight ba = 0")
      case True
      have "pprev ba = None" "pprev bb = None"
        using wf_zero [OF assms(1) Suc.prems(1)] wf_zero [OF assms(1) Suc.prems(2)] Suc.prems(3) True by simp_all
      then show ?thesis using False Suc.prems nab
        by (cases fuel) (auto intro: last_common_root)
    next
      case nz: False
      then have pos: "0 < nHeight ba" "0 < nHeight bb"
        using wf_height [OF assms(1) Suc.prems(1)] Suc.prems(3) by auto
      obtain qa bqa where qa: "pprev ba = Some qa" "m qa = Some bqa" "nHeight bqa = nHeight ba - 1"
        using wf_prev_exists [OF assms(1) Suc.prems(1) pos(1)] by auto
      obtain qb bqb where qb: "pprev bb = Some qb" "m qb = Some bqb" "nHeight bqb = nHeight bb - 1"
        using wf_prev_exists [OF assms(1) Suc.prems(2) pos(2)] by auto
      have f: "nat (nHeight bqa) + 2 \<le> fuel" using Suc.prems(4) qa(3) pos(1) by linarith
      obtain r where r: "common_loop m fuel (Some qa) (Some qb) = Inr (r, r)" "last_common m (ancestor m qb) qa r"
        using Suc.IH [OF qa(2) qb(2)] qa(3) qb(3) Suc.prems(3) f by auto
      have "ancestor m qb q \<longleftrightarrow> ancestor m b q" if q: "ancestor m qa q" for q
      proof -
        have "q \<noteq> b"
          using ancestor_height [OF assms(1) qa(2) q] qa(3) Suc.prems by auto
        then show ?thesis using ancestor_step [of m b bb q] Suc.prems(2) qb(1) by auto
      qed
      then have "last_common m (ancestor m b) qa r"
        using r(2) by (auto simp: last_common_def split: option.splits)
      then show ?thesis using False r(1) qa(1) qb(1) Suc.prems last_common_prev [of m a ba qa "ancestor m b" r] nab by auto
    qed
  qed
qed simp

lemma last_common_swap:
  assumes "last_common m (ancestor m b) a r"
  shows "last_common m (ancestor m a) b r"
  using assms by (auto simp: last_common_def split: option.splits)

lemma common_from:
  assumes "wf_store m" and "m a = Some ba" and "m b = Some bb" and "nHeight bb \<le> nHeight ba"
  shows "\<exists>a' ba'. GetAncestor m a (nHeight bb) = Inr (Some a') \<and> m a' = Some ba' \<and> nHeight ba' = nHeight bb \<and>
    (\<forall>r. last_common m (ancestor m b) a' r \<longrightarrow> last_common m (ancestor m b) a r)"
proof -
  have "0 \<le> nHeight bb" using wf_height [OF assms(1,3)] by simp
  from GetAncestor_ancestor [OF assms(1,2) this assms(4)] obtain a' ba' where a':
    "GetAncestor m a (nHeight bb) = Inr (Some a')" "ancestor m a a'" "m a' = Some ba'" "nHeight ba' = nHeight bb"
    by auto
  have "last_common m (ancestor m b) a r" if "last_common m (ancestor m b) a' r" for r
  proof (rule last_common_from [OF assms(1,2) a'(2,3) _ that])
    fix r br assume "ancestor m b r" "m r = Some br"
    then show "nHeight br \<le> nHeight ba'" using ancestor_height [OF assms(1,3)] a'(4) by fastforce
  qed
  then show ?thesis using a' by blast
qed

lemma LastCommonAncestor_correct:
  assumes "wf_store m" and "m a = Some ba" and "m b = Some bb"
  shows "\<exists>r. LastCommonAncestor m a b = Inr r \<and> last_common m (ancestor m b) a r"
proof (cases "nHeight bb \<le> nHeight ba")
  case True
  from common_from [OF assms True] obtain a' ba' where a':
    "GetAncestor m a (nHeight bb) = Inr (Some a')" "m a' = Some ba'" "nHeight ba' = nHeight bb"
    "\<And>r. last_common m (ancestor m b) a' r \<Longrightarrow> last_common m (ancestor m b) a r" by auto
  have same: "a' = a" if "nHeight ba = nHeight bb"
    using a'(1) GetAncestor_correct [OF assms(1,2), of "nHeight bb"] that wf_height [OF assms(1,3)] by simp
  obtain r where "common_loop m (nat (nHeight ba) + 2) (Some a') (Some b) = Inr (r, r)" "last_common m (ancestor m b) a' r"
    using common_loop_correct [OF assms(1) a'(2) assms(3) a'(3), of "nat (nHeight ba) + 2"] a'(3) nat_mono [OF True]
    by (auto simp del: common_loop.simps)
  then show ?thesis using a' assms True same by (auto simp: LastCommonAncestor_def)
next
  case False
  then have le: "nHeight ba \<le> nHeight bb" by simp
  from common_from [OF assms(1,3,2) le] obtain b' bb' where b':
    "GetAncestor m b (nHeight ba) = Inr (Some b')" "m b' = Some bb'" "nHeight bb' = nHeight ba"
    "\<And>r. last_common m (ancestor m a) b' r \<Longrightarrow> last_common m (ancestor m a) b r" by auto
  obtain r where "common_loop m (nat (nHeight ba) + 2) (Some a) (Some b') = Inr (r, r)" "last_common m (ancestor m b') a r"
    using common_loop_correct [OF assms(1,2) b'(2) b'(3) [symmetric], of "nat (nHeight ba) + 2"] by auto
  then show ?thesis using b' assms False
    by (auto simp: LastCommonAncestor_def intro: last_common_swap)
qed

subsection \<open>The active chain\<close>

lemma is_chain_nth:
  assumes "is_chain m c" and "i < length c"
  shows "\<exists>p b. c ! i = Some p \<and> m p = Some b \<and> nHeight b = int i \<and>
    pprev b = (if i = 0 then None else c ! (i - 1))"
  using assms by (auto simp: is_chain_def)

lemma chain_parents:
  assumes "is_chain m c" and "i + n < length c" and "c ! (i + n) = Some p"
  shows "parents m n p = c ! i"
  using assms(2,3)
proof (induction n arbitrary: p)
  case (Suc n)
  from is_chain_nth [OF assms(1), of "i + Suc n"] Suc.prems
  obtain b where b: "m p = Some b" "pprev b = c ! (i + n)" by auto
  from is_chain_nth [OF assms(1), of "i + n"] Suc.prems obtain q where q: "c ! (i + n) = Some q" by auto
  have "parents m n q = c ! i" using Suc q by simp
  then show ?case using b q by (simp add: parents_Suc_prev prev_of_def del: parents.simps)
qed simp

lemma SetTip_loop_correct:
  assumes "wf_store m" and "is_chain m c" and "m p = Some b" and "H = nat (nHeight b)"
    and "k \<le> H" and "k + 2 \<le> fuel" and "length v = Suc H"
    and "\<forall>i. k < i \<and> i \<le> H \<longrightarrow> v ! i = parents m (H - i) p"
    and "\<forall>i \<le> k. v ! i = (if i < length c then c ! i else None)"
  shows "\<exists>v'. SetTip_loop m fuel v (parents m (H - k) p) = Inr v' \<and> length v' = Suc H \<and>
    (\<forall>i \<le> H. v' ! i = parents m (H - i) p)"
  using assms(5-)
proof (induction fuel arbitrary: k v)
  case (Suc fuel)
  have h0: "0 \<le> nHeight b" using wf_height [OF assms(1,3)] by simp
  obtain q bq where q: "parents m (H - k) p = Some q" "m q = Some bq" "nHeight bq = int k"
    using parents_exists [OF assms(1,3), of "H - k"] assms(4) Suc.prems(1) h0 by (auto simp: of_nat_diff)
  show ?case
  proof (cases "v ! k = Some q")
    case True
    have ck: "k < length c \<and> c ! k = Some q" using True Suc.prems(5) by (auto split: if_splits)
    have "v ! i = parents m (H - i) p" if "i \<le> H" for i
    proof (cases "i \<le> k")
      case ik: True
      have "parents m (k - i) q = c ! i" using chain_parents [OF assms(2), of i "k - i"] ck ik by simp
      moreover have "parents m (H - i) p = Option.bind (parents m (H - k) p) (parents m (k - i))"
        using parents_add [of m "H - k" "k - i" p] ik Suc.prems(1) by simp
      ultimately show ?thesis using q(1) ik ck Suc.prems(5) by simp
    qed (use that Suc.prems(4) in auto)
    then show ?thesis using True q Suc.prems(1,3) by auto
  next
    case False
    define w where "w = v[k := Some q]"
    have step: "SetTip_loop m (Suc fuel) v (Some q) = SetTip_loop m fuel w (pprev bq)"
      using False q Suc.prems(1,3) by (simp add: w_def)
    have above: "w ! i = parents m (H - i) p" if "k \<le> i" "i \<le> H" for i
      using that q(1) Suc.prems(1,3,4) by (cases "i = k") (auto simp: w_def)
    show ?thesis
    proof (cases k)
      case 0
      then have "pprev bq = None" using wf_zero [OF assms(1) q(2)] q(3) by simp
      moreover obtain f where "fuel = Suc f" using Suc.prems(2) by (cases fuel) auto
      ultimately have "SetTip_loop m (Suc fuel) v (Some q) = Inr w" using step by simp
      then show ?thesis using q(1) above 0 Suc.prems(3) by (auto simp: w_def)
    next
      case (Suc j)
      have "parents m (H - j) p = pprev bq"
        using q Suc Suc.prems(1) by (simp add: Suc_diff_Suc [symmetric] prev_of_def)
      moreover have "\<exists>v'. SetTip_loop m fuel w (parents m (H - j) p) = Inr v' \<and> length v' = Suc H \<and>
          (\<forall>i \<le> H. v' ! i = parents m (H - i) p)"
      proof (rule Suc.IH)
        show "j \<le> H" "j + 2 \<le> fuel" "length w = Suc H"
          using Suc Suc.prems by (simp_all add: w_def)
        show "\<forall>i. j < i \<and> i \<le> H \<longrightarrow> w ! i = parents m (H - i) p" using above Suc by auto
        show "\<forall>i\<le>j. w ! i = (if i < length c then c ! i else None)"
          using Suc Suc.prems(5) by (auto simp: w_def)
      qed
      ultimately show ?thesis unfolding q(1) step by simp
    qed
  qed
qed simp

lemma SetTip_correct:
  assumes "wf_store m" and "is_chain m c" and "m p = Some b" and "nHeight b < 2147483647"
  shows "\<exists>c'. SetTip m c (Some p) = Inr c' \<and> length c' = nat (nHeight b) + 1 \<and>
    (\<forall>i \<le> nat (nHeight b). c' ! i = parents m (nat (nHeight b) - i) p)"
proof -
  define H where "H = nat (nHeight b)"
  have h: "0 \<le> nHeight b" "nat (nHeight b + 1) = Suc H" "in_int32 (nHeight b + 1)"
    using wf_height [OF assms(1,3)] assms(4) by (auto simp: H_def range_simps)
  define v where "v = take (Suc H) c @ replicate (Suc H - length c) None"
  have "\<exists>v'. SetTip_loop m (Suc H + 1) v (parents m (H - H) p) = Inr v' \<and> length v' = Suc H \<and>
      (\<forall>i \<le> H. v' ! i = parents m (H - i) p)"
    by (rule SetTip_loop_correct [OF assms(1-3) H_def]) (auto simp: v_def nth_append)
  then show ?thesis using h assms(3) unfolding SetTip_def v_def H_def [symmetric] by (simp del: SetTip_loop.simps)
qed

lemma parents_chain:
  assumes "wf_store m" and "m p = Some b" and "length c = nat (nHeight b) + 1"
    and "\<forall>i \<le> nat (nHeight b). c ! i = parents m (nat (nHeight b) - i) p"
  shows "is_chain m c"
  unfolding is_chain_def
proof (intro allI impI)
  fix i assume "i < length c"
  then have i: "i \<le> nat (nHeight b)" using assms(3) by simp
  have h: "0 \<le> nHeight b" using wf_height [OF assms(1,2)] by simp
  obtain q bq where q: "parents m (nat (nHeight b) - i) p = Some q" "m q = Some bq" "nHeight bq = int i"
    using parents_exists [OF assms(1,2), of "nat (nHeight b) - i"] i h by (auto simp: of_nat_diff)
  have "pprev bq = (if i = 0 then None else c ! (i - 1))"
  proof (cases i)
    case 0
    then show ?thesis using wf_zero [OF assms(1) q(2)] q(3) by simp
  next
    case (Suc j)
    then have "parents m (nat (nHeight b) - j) p = pprev bq"
      using q i by (simp add: Suc_diff_Suc [symmetric] prev_of_def)
    then show ?thesis using Suc i assms(4) by simp
  qed
  then show "\<exists>p b. c ! i = Some p \<and> m p = Some b \<and> nHeight b = int i \<and>
    pprev b = (if i = 0 then None else c ! (i - 1))" using q i assms(4) by auto
qed

subsection \<open>Forks\<close>

lemma Contains_iff:
  assumes "is_chain m c" and "m p = Some b"
  shows "Contains m c p = Inr (Some p \<in> set c)"
proof -
  have "chain_at c (nHeight b) = Some p \<longleftrightarrow> Some p \<in> set c"
  proof
    assume "chain_at c (nHeight b) = Some p"
    then show "Some p \<in> set c" by (auto simp: chain_at_def in_set_conv_nth split: if_splits intro!: exI [of _ "nat (nHeight b)"])
  next
    assume "Some p \<in> set c"
    then obtain i where "i < length c" "c ! i = Some p" by (auto simp: in_set_conv_nth)
    with is_chain_nth [OF assms(1), of i] assms(2) show "chain_at c (nHeight b) = Some p"
      by (auto simp: chain_at_def)
  qed
  then show ?thesis using assms(2) by (simp add: Contains_def)
qed

lemma chain_height:
  assumes "is_chain m c" and "Some p \<in> set c" and "m p = Some b"
  shows "nHeight b \<le> Height c"
proof -
  obtain i where "i < length c" "c ! i = Some p" using assms(2) by (auto simp: in_set_conv_nth)
  with is_chain_nth [OF assms(1), of i] assms(3) show ?thesis by (auto simp: Height_def)
qed

lemma FindFork_loop_correct:
  assumes "wf_store m" and "is_chain m c" and "m p = Some b" and "nat (nHeight b) + 2 \<le> fuel"
  shows "\<exists>r. FindFork_loop m c fuel (Some p) = Inr r \<and> last_common m (\<lambda>q. Some q \<in> set c) p r"
  using assms(3-)
proof (induction fuel arbitrary: p b)
  case (Suc fuel)
  show ?case
  proof (cases "Some p \<in> set c")
    case True
    then show ?thesis using Suc.prems Contains_iff [OF assms(2) Suc.prems(1)]
      by (auto intro: last_common_here)
  next
    case False
    show ?thesis
    proof (cases "nHeight b = 0")
      case True
      then have "pprev b = None" using wf_zero [OF assms(1) Suc.prems(1)] by simp
      then show ?thesis using False Suc.prems Contains_iff [OF assms(2) Suc.prems(1)]
        by (cases fuel) (auto intro: last_common_root)
    next
      case nz: False
      then have pos: "0 < nHeight b" using wf_height [OF assms(1) Suc.prems(1)] by simp
      obtain q bq where q: "pprev b = Some q" "m q = Some bq" "nHeight bq = nHeight b - 1"
        using wf_prev_exists [OF assms(1) Suc.prems(1) pos] by auto
      have "nat (nHeight bq) + 2 \<le> fuel" using Suc.prems(2) q(3) pos by linarith
      from Suc.IH [OF q(2) this] show ?thesis
        using False Suc.prems(1) q(1) Contains_iff [OF assms(2) Suc.prems(1)]
          last_common_prev [of m p b q "\<lambda>q. Some q \<in> set c"] by auto
    qed
  qed
qed simp

lemma FindFork_correct:
  assumes "wf_store m" and "is_chain m c" and "m p = Some b"
  shows "\<exists>r. FindFork m c (Some p) = Inr r \<and> last_common m (\<lambda>q. Some q \<in> set c) p r"
proof (cases "nHeight b > Height c")
  case False
  then show ?thesis using FindFork_loop_correct [OF assms order_refl] assms(3)
    by (simp add: FindFork_def del: FindFork_loop.simps)
next
  case True
  show ?thesis
  proof (cases "c = []")
    case True
    then show ?thesis using assms(3) GetAncestor_correct [OF assms(1,3), of "- 1"] wf_height [OF assms(1,3)]
      by (simp add: FindFork_def Height_def last_common_def)
  next
    case False
    then have h: "0 \<le> Height c" by (cases c) (simp_all add: Height_def)
    obtain q bq where q: "GetAncestor m p (Height c) = Inr (Some q)" "ancestor m p q" "m q = Some bq" "nHeight bq = Height c"
      using GetAncestor_ancestor [OF assms(1,3) h] True by auto
    have "nat (nHeight bq) + 2 \<le> nat (nHeight b) + 2" using True q(4) by simp
    from FindFork_loop_correct [OF assms(1,2) q(3) this]
    obtain r where r: "FindFork_loop m c (nat (nHeight b) + 2) (Some q) = Inr r" "last_common m (\<lambda>q. Some q \<in> set c) q r"
      by blast
    have "last_common m (\<lambda>q. Some q \<in> set c) p r"
      using chain_height [OF assms(2)] q(4)
      by (intro last_common_from [OF assms(1,3) q(2,3) _ r(2)]) simp
    then show ?thesis using True r(1) q(1) assms(3) by (simp add: FindFork_def del: FindFork_loop.simps)
  qed
qed

subsection \<open>Bisection over the active chain\<close>

lemma lower_bound_correct:
  assumes "\<And>i. first \<le> i \<Longrightarrow> i < first + len \<Longrightarrow> lt i = Inr (P i)"
    and "\<And>i j. first \<le> i \<Longrightarrow> i \<le> j \<Longrightarrow> j < first + len \<Longrightarrow> P j \<Longrightarrow> P i"
  shows "\<exists>k. lower_bound_loop lt first len = Inr k \<and> first \<le> k \<and> k \<le> first + len \<and>
    (\<forall>i. first \<le> i \<and> i < first + len \<longrightarrow> P i = (i < k))"
  using assms
proof (induction len arbitrary: first rule: less_induct)
  case (less len)
  show ?case
  proof (cases "len = 0")
    case True
    then show ?thesis by (auto simp: lower_bound_loop.simps)
  next
    case False
    define mid where "mid = first + len div 2"
    have mid: "first \<le> mid" "mid < first + len" using False by (auto simp: mid_def)
    have lt: "lt mid = Inr (P mid)" using less.prems(1) mid by simp
    show ?thesis
    proof (cases "P mid")
      case True
      define n where "n = len - Suc (len div 2)"
      have n: "n < len" "mid + 1 + n = first + len" using False mid by (auto simp: n_def mid_def)
      obtain k where k: "lower_bound_loop lt (mid + 1) n = Inr k" "mid + 1 \<le> k" "k \<le> first + len"
        "\<forall>i. mid + 1 \<le> i \<and> i < first + len \<longrightarrow> P i = (i < k)"
        using less.IH [OF n(1), of "mid + 1"] less.prems mid n(2) by auto
      have "P i = (i < k)" if "first \<le> i" "i < first + len" for i
        using that k less.prems(2) [of i mid] True mid by (cases "i \<le> mid") auto
      then show ?thesis using k True lt False mid
        by (subst lower_bound_loop.simps) (auto simp: Let_def mid_def [symmetric] n_def [symmetric])
    next
      case nP: False
      have n: "len div 2 < len" "first + len div 2 = mid" using False by (auto simp: mid_def)
      obtain k where k: "lower_bound_loop lt first (len div 2) = Inr k" "first \<le> k" "k \<le> mid"
        "\<forall>i. first \<le> i \<and> i < mid \<longrightarrow> P i = (i < k)"
        using less.IH [OF n(1), of first] less.prems mid n(2) by auto
      have "P i = (i < k)" if "first \<le> i" "i < first + len" for i
        using that k less.prems(2) [of mid i] nP mid by (cases "i < mid") auto
      then show ?thesis using k nP lt False mid
        by (subst lower_bound_loop.simps) (auto simp: Let_def mid_def [symmetric])
    qed
  qed
qed

definition height_of :: "store \<Rightarrow> ptr \<Rightarrow> int" where
  "height_of m p = (case m p of None \<Rightarrow> 0 | Some b \<Rightarrow> nHeight b)"

definition hash_of :: "store \<Rightarrow> ptr \<Rightarrow> uint256" where
  "hash_of m p = (case m p of None \<Rightarrow> uint256_null | Some b \<Rightarrow> GetBlockHash b)"

definition time_max :: "store \<Rightarrow> CChain \<Rightarrow> nat \<Rightarrow> int" where
  "time_max m c i = (case c ! i of None \<Rightarrow> 0 | Some p \<Rightarrow> (case m p of None \<Rightarrow> 0 | Some b \<Rightarrow> uint (nTimeMax b)))"

lemma time_max_Suc:
  assumes "wf_data m" and "is_chain m c" and "Suc i < length c"
  shows "time_max m c i \<le> time_max m c (Suc i)"
proof -
  obtain p b where p: "c ! Suc i = Some p" "m p = Some b" "pprev b = c ! i"
    using is_chain_nth [OF assms(2,3)] by auto
  obtain q where q: "c ! i = Some q" using is_chain_nth [OF assms(2), of i] assms(3) by auto
  with assms(1) p(2,3) obtain bq where "m q = Some bq" "nTimeMax b = max (nTimeMax bq) (nTime b)"
    by (auto simp: wf_data_def wf_sums_def dest!: spec [of _ p])
  then show ?thesis using p q by (simp add: time_max_def word_le_def [symmetric])
qed

lemma time_max_mono:
  assumes "wf_data m" and "is_chain m c"
  shows "i \<le> j \<Longrightarrow> j < length c \<Longrightarrow> time_max m c i \<le> time_max m c j"
  by (induction rule: dec_induct) (use time_max_Suc [OF assms] in force)+

lemma FindEarliestAtLeast_correct:
  assumes "wf_data m" and "is_chain m c"
  shows "\<exists>k \<le> length c. FindEarliestAtLeast m c t = Inr (if k = length c then None else c ! k) \<and>
    (\<forall>i < length c. time_max m c i \<ge> t \<longleftrightarrow> k \<le> i)"
proof -
  have "\<exists>k. lower_bound_loop (\<lambda>i. case c ! i of None \<Rightarrow> Inl NullDeref
               | Some p \<Rightarrow> bindR (deref m p) (\<lambda>b. Inr (uint (nTimeMax b) < t))) 0 (length c) = Inr k
      \<and> 0 \<le> k \<and> k \<le> 0 + length c \<and> (\<forall>i. 0 \<le> i \<and> i < 0 + length c \<longrightarrow> (time_max m c i < t) = (i < k))"
  proof (rule lower_bound_correct)
    fix i assume "i < 0 + length c"
    then show "(case c ! i of None \<Rightarrow> Inl NullDeref
               | Some p \<Rightarrow> bindR (deref m p) (\<lambda>b. Inr (uint (nTimeMax b) < t))) = Inr (time_max m c i < t)"
      using is_chain_nth [OF assms(2), of i] by (auto simp: time_max_def)
  next
    fix i j assume "i \<le> j" "j < 0 + length c" "time_max m c j < t"
    then show "time_max m c i < t" using time_max_mono [OF assms, of i j] by simp
  qed
  then show ?thesis unfolding FindEarliestAtLeast_def by (auto simp: not_le [symmetric])
qed

subsection \<open>Locators\<close>

lemma ancestor_trans: "ancestor m p q \<Longrightarrow> ancestor m q r \<Longrightarrow> ancestor m p r"
  unfolding ancestor_def by (metis parents_add Option.bind.bind_lunit)

definition locator_path :: "store \<Rightarrow> ptr \<Rightarrow> ptr list \<Rightarrow> bool" where
  "locator_path m p qs \<longleftrightarrow> qs \<noteq> [] \<and> hd qs = p \<and> height_of m (last qs) = 0 \<and>
     sorted_wrt (\<lambda>x y. height_of m y < height_of m x) qs \<and> (\<forall>q \<in> set qs. ancestor m p q)"

lemma locator_path_Cons:
  assumes "wf_store m" and "m p = Some b" and "ancestor m p q" and "m q = Some bq"
    and "nHeight bq < nHeight b" and "locator_path m q qs"
  shows "locator_path m p (p # qs)"
proof -
  have "height_of m r < height_of m p" if "r \<in> set qs" for r
  proof -
    have "ancestor m q r" using that assms(6) by (simp add: locator_path_def)
    from ancestor_height [OF assms(1,4) this] show ?thesis using assms(2,5) by (auto simp: height_of_def)
  qed
  then show ?thesis using assms(3,6) by (auto simp: locator_path_def intro: ancestor_trans)
qed

lemma locator_jump:
  assumes "wf_store m" and "is_chain m c" and "m q = Some bq" and "0 \<le> h" and "h \<le> nHeight bq"
  shows "\<exists>r br. bindR (Contains m c q) (\<lambda>k. if k then Inr (chain_at c h) else GetAncestor m q h) = Inr (Some r) \<and>
    ancestor m q r \<and> m r = Some br \<and> nHeight br = h"
proof -
  obtain r br where r: "GetAncestor m q h = Inr (Some r)" "parents m (nat (nHeight bq - h)) q = Some r"
    "m r = Some br" "nHeight br = h"
    using GetAncestor_Some [OF assms(1,3-5)] by auto
  have "chain_at c h = Some r" if qc: "Some q \<in> set c"
  proof -
    obtain i where i: "i < length c" "c ! i = Some q" using qc by (auto simp: in_set_conv_nth)
    with is_chain_nth [OF assms(2), of i] assms(3) have "nHeight bq = int i" by auto
    then have "parents m (nat (nHeight bq - h)) q = c ! nat h" "nat h < length c"
      using chain_parents [OF assms(2), of "nat h" "nat (nHeight bq - h)" q] i assms(4,5) by (auto simp: nat_add_distrib [symmetric])
    then show ?thesis using r(2) assms(4) by (auto simp: chain_at_def)
  qed
  then show ?thesis using Contains_iff [OF assms(2,3)] r by (auto simp: ancestor_def)
qed

lemma GetLocator_loop_correct:
  assumes "wf_store m" and "is_chain m c" and "m q = Some bq" and "nat (nHeight bq) < fuel"
    and "1 \<le> s" and "nHeight bq = 0 \<or> nHeight bq + s \<le> 1073741823"
  shows "\<exists>qs. GetLocator_loop m c fuel (Some q) s hv = Inr (hv @ map (hash_of m) qs) \<and> locator_path m q qs"
  using assms(3-)
proof (induction fuel arbitrary: q bq s hv)
  case (Suc fuel)
  have hq: "hash_of m q = GetBlockHash bq" "height_of m q = nHeight bq"
    using Suc.prems(1) by (simp_all add: hash_of_def height_of_def)
  show ?case
  proof (cases "nHeight bq = 0")
    case True
    then show ?thesis using Suc.prems(1) hq
      by (auto simp: Let_def locator_path_def intro!: exI [of _ "[q]"])
  next
    case False
    define h where "h = max (nHeight bq - s) 0"
    have pos: "0 < nHeight bq" using False wf_height [OF assms(1) Suc.prems(1)] by simp
    have h: "0 \<le> h" "h < nHeight bq" using pos Suc.prems(3) by (auto simp: h_def)
    obtain r br where r: "bindR (Contains m c q) (\<lambda>k. if k then Inr (chain_at c h) else GetAncestor m q h) = Inr (Some r)"
      "ancestor m q r" "m r = Some br" "nHeight br = h"
      using locator_jump [OF assms(1,2) Suc.prems(1) h(1)] h(2) by auto
    define s' where "s' = (if length (hv @ [GetBlockHash bq]) > 10 then s * 2 else s)"
    have s': "1 \<le> s'" "nHeight br = 0 \<or> nHeight br + s' \<le> 1073741823"
      using Suc.prems(3,4) False r(4) by (auto simp: s'_def h_def)
    have f: "nat (nHeight br) < fuel" using Suc.prems(2) r(4) h by linarith
    obtain qs where qs: "GetLocator_loop m c fuel (Some r) s' (hv @ [GetBlockHash bq])
        = Inr ((hv @ [GetBlockHash bq]) @ map (hash_of m) qs)" "locator_path m r qs"
      using Suc.IH [OF r(3) f s'] by blast
    have d: "in_int32 (nHeight bq - s)" "in_int32 (s * 2)"
      using Suc.prems(3,4) False pos by (auto simp: range_simps)
    have "GetLocator_loop m c (Suc fuel) (Some q) s hv = GetLocator_loop m c fuel (Some r) s' (hv @ [GetBlockHash bq])"
      using r(1) d False Suc.prems(1)
      by (auto simp: Let_def h_def [symmetric] s'_def bindR_Inr_iff)
    then show ?thesis
      using qs locator_path_Cons [OF assms(1) Suc.prems(1) r(2,3) _ qs(2)] r(4) h(2) hq(1)
      by (auto intro!: exI [of _ "q # qs"])
  qed
qed simp

lemma GetLocator_correct:
  assumes "wf_store m" and "is_chain m c" and "m p = Some b" and "nHeight b < 1073741823"
  shows "\<exists>qs. GetLocator m c (Some p) = Inr (map (hash_of m) qs) \<and> locator_path m p qs"
  using GetLocator_loop_correct [OF assms(1-3), of "nat (nHeight b) + 1" 1 "[]"] assms(3,4)
  by (auto simp: GetLocator_def simp del: GetLocator_loop.simps)


subsection \<open>Work\<close>

lemma EqualTo_0:
  assumes "length a = 8"
  shows "EqualTo a 0 \<longleftrightarrow> lval a = 0"
proof -
  from assms obtain p q r where a: "a = p # q # r" by (auto simp: length_Suc_conv numeral_eq_Suc)
  have "lval r = 0 \<longleftrightarrow> list_all (\<lambda>p. p = 0) r"
    by (induction r) (auto simp: unat_eq_0)
  moreover have "(ucast x :: u64) = 0 \<longleftrightarrow> x = 0" for x :: u32
    by (metis unat_ucast_up unat_eq_0)
  ultimately show ?thesis by (auto simp: a EqualTo_def unat_eq_0)
qed

lemma compact_target_bound:
  assumes "SetCompact c = (v, neg, False)"
  shows "lval v + 1 < 2 ^ 256"
proof -
  define n where "n = unat c div 2 ^ 24"
  define w where "w = compact_word (unat c)"
  have w: "w < 2 ^ 23" unfolding w_def by (rule compact_word_less)
  note e = SetCompact_eq [OF assms n_def w_def]
  show ?thesis
  proof (cases "n \<le> 3")
    case True
    then show ?thesis using e(2) w by simp
  next
    case False
    then obtain k where k: "n - 3 = Suc k" by (cases "n - 3") auto
    have lt: "w * 256 ^ (n - 3) < 2 ^ 256" using compact_no_wrap [OF w] e(4) by blast
    have "lval v = 256 * (w * 256 ^ k)" using lt e(2) False k by simp
    moreover have "lval v < 2 ^ 256" using lt e(2) False by simp
    ultimately show ?thesis by (simp; presburger)
  qed
qed

lemma lval_one: "lval (base_uint_of 8 1) = 1" "length (base_uint_of 8 b) = 8" "lval (base_uint_of 8 0) = 0"
  by (simp_all add: lval_base_uint_of)

lemma work_div:
  assumes "0 < t" and "t + 1 < (2::nat) ^ 256"
  shows "(2 ^ 256 - 1 - t) div (t + 1) + 1 = 2 ^ 256 div (t + 1)" and "2 ^ 256 div (t + 1) < (2::nat) ^ 256"
proof -
  have "(2::nat) ^ 256 = (2 ^ 256 - 1 - t) + (t + 1)" using assms(2) by linarith
  then show "(2 ^ 256 - 1 - t) div (t + 1) + 1 = 2 ^ 256 div (t + 1)"
    using div_add_self2 [of "t + 1" "2 ^ 256 - 1 - t"] by simp
  show "2 ^ 256 div (t + 1) < (2::nat) ^ 256" using assms(1) by (intro div_less_dividend) simp_all
qed

lemma GetBlockProof_eq:
  assumes "SetCompact c = (v, neg, ovf)"
  shows "\<exists>pf. GetBlockProof c = Inr pf \<and> length pf = 8 \<and>
    lval pf = (if neg \<or> ovf \<or> lval v = 0 then 0 else 2 ^ 256 div (lval v + 1))"
proof -
  have l: "length v = 8" using SetCompact_eq(1) [OF assms refl refl] .
  show ?thesis
  proof (cases "neg \<or> ovf \<or> lval v = 0")
    case True
    then show ?thesis using assms l by (simp add: GetBlockProof_def EqualTo_0 lval_one)
  next
    case False
    then have b: "lval v + 1 < 2 ^ 256" using compact_target_bound [of c v neg] assms by simp
    define d where "d = op_add v (base_uint_of 8 1)"
    have d: "length d = 8" "lval d = lval v + 1"
      using l b by (simp_all add: d_def lval_add lval_one)
    obtain q where q: "op_div (op_compl v) d = Inr q" "length q = 8" "lval q = (2 ^ 256 - 1 - lval v) div (lval v + 1)"
      using op_div_spec [of "op_compl v" d] d l by (auto simp: op_compl_def lval_compl)
    have "lval (op_add q (base_uint_of 8 1)) = 2 ^ 256 div (lval v + 1)"
      using work_div [OF _ b] False q by (simp add: lval_add lval_one del: One_nat_def)
    then show ?thesis using False assms l q by (simp add: GetBlockProof_def EqualTo_0 d_def lval_one)
  qed
qed

subsection \<open>The recent past\<close>

primrec past :: "store \<Rightarrow> nat \<Rightarrow> ptr \<Rightarrow> CBlockIndex list" where
  "past m 0 p = []"
| "past m (Suc k) p =
     (case m p of None \<Rightarrow> []
      | Some b \<Rightarrow> b # (case pprev b of None \<Rightarrow> [] | Some q \<Rightarrow> past m k q))"

lemma past_Suc:
  assumes "wf_store m" and "m p = Some b" and "int k \<le> nHeight b" and "k \<noteq> 0"
  shows "\<exists>q bq. pprev b = Some q \<and> m q = Some bq \<and> nHeight bq = nHeight b - 1 \<and>
    past m (Suc k) p = b # past m k q"
  using wf_prev_exists [OF assms(1,2)] assms by auto

lemma past_single: "m p = Some b \<Longrightarrow> past m (Suc 0) p = [b]"
  by (simp split: option.splits)

lemma length_past:
  assumes "wf_store m"
  shows "m p = Some b \<Longrightarrow> length (past m k p) = min k (nat (nHeight b) + 1)"
proof (induction k arbitrary: p b)
  case (Suc k)
  show ?case
  proof (cases "pprev b")
    case None
    then show ?thesis using Suc.prems wf_root [OF assms Suc.prems] by simp
  next
    case (Some q)
    then obtain bq where "m q = Some bq" "nHeight b = nHeight bq + 1" using wf_prev [OF assms Suc.prems] by auto
    moreover from this have "0 \<le> nHeight bq" using wf_height [OF assms] by blast
    ultimately show ?thesis using Suc.IH [of q bq] Suc.prems Some by simp
  qed
qed simp

lemma past_take: "k \<le> n \<Longrightarrow> past m k p = take k (past m n p)"
proof (induction k arbitrary: n p)
  case (Suc k)
  then obtain j where "n = Suc j" "k \<le> j" by (cases n) auto
  then show ?case using Suc.IH by (auto split: option.splits)
qed simp

lemma past_times_past:
  assumes "wf_store m"
  shows "m p = Some b \<Longrightarrow> past_times m n (Some p) = Inr (map (\<lambda>e. uint (nTime e)) (past m n p))"
proof (induction n arbitrary: p b)
  case (Suc n)
  show ?case
  proof (cases "pprev b")
    case None
    then show ?thesis using Suc.prems by (cases n) simp_all
  next
    case (Some q)
    then obtain bq where "m q = Some bq" using wf_prev [OF assms Suc.prems] by auto
    then show ?thesis using Suc Some by simp
  qed
qed simp

subsection \<open>Median time past\<close>

definition median :: "int list \<Rightarrow> int" where
  "median ts = sort ts ! (length ts div 2)"

lemma count_below_sorted:
  fixes xs :: "int list"
  assumes "sorted xs" and "i < length xs"
  shows "length (filter (\<lambda>x. x < xs ! i) xs) \<le> i"
proof -
  have "{j. j < length xs \<and> xs ! j < xs ! i} \<subseteq> {..<i}"
    using assms by (auto simp: not_less [symmetric] dest: sorted_nth_mono)
  then have "card {j. j < length xs \<and> xs ! j < xs ! i} \<le> i"
    using card_mono [of "{..<i}"] by fastforce
  then show ?thesis by (simp add: length_filter_conv_card)
qed

lemma above_if_few_below:
  fixes xs :: "int list"
  assumes "sorted xs" and "i < length xs" and "length (filter (\<lambda>x. x < M) xs) \<le> i"
  shows "M \<le> xs ! i"
proof (rule ccontr)
  assume "\<not> M \<le> xs ! i"
  then have "{..i} \<subseteq> {j. j < length xs \<and> xs ! j < M}"
    using assms(1,2) by (auto dest: sorted_nth_mono)
  then have "card {..i} \<le> card {j. j < length xs \<and> xs ! j < M}" by (intro card_mono) auto
  then show False using assms(3) by (simp add: length_filter_conv_card)
qed

lemma length_filter_sort: "length (filter P (sort xs)) = length (filter P xs)"
  for xs :: "int list"
  by (metis mset_filter mset_sort size_mset)

lemma median_grows:
  assumes "ts \<noteq> []" and "median ts < t" and "n \<le> length ts" and "length ts div 2 \<le> Suc n div 2" 
  shows "median ts \<le> median (t # take n ts)"
proof -
  define M where "M = median ts"
  have "length (filter (\<lambda>x. x < M) ts) \<le> length ts div 2"
    using count_below_sorted [of "sort ts" "length ts div 2"] assms(1)
    by (simp add: M_def median_def length_filter_sort)
  moreover have "length (filter (\<lambda>x. x < M) (take n ts)) \<le> length (filter (\<lambda>x. x < M) ts)"
    by (metis append_take_drop_id filter_append le_add1 length_append)
  ultimately have "length (filter (\<lambda>x. x < M) (t # take n ts)) \<le> Suc n div 2"
    using assms(2,4) by (simp add: M_def)
  moreover have "length (t # take n ts) = Suc n" using assms(3) by simp
  ultimately have "M \<le> sort (t # take n ts) ! (Suc n div 2)"
    using above_if_few_below [of "sort (t # take n ts)" "Suc n div 2" M]
    by (simp only: length_filter_sort sorted_sort length_sort)
  then show ?thesis using assms(3) by (simp add: M_def median_def [of "t # take n ts"])
qed

definition mtp :: "store \<Rightarrow> ptr \<Rightarrow> int" where
  "mtp m p = median (map (\<lambda>e. uint (nTime e)) (past m 11 p))"

lemma GetMedianTimePast_mtp:
  assumes "wf_store m" and "m p = Some b"
  shows "GetMedianTimePast m p = Inr (mtp m p)"
proof -
  have "sort (rev ts) = sort ts" for ts :: "int list" by (rule properties_for_sort) simp_all
  then show ?thesis using past_times_past [OF assms, of 11]
    by (simp add: GetMedianTimePast_def mtp_def median_def)
qed

text \<open>The time rule that \<open>ContextualCheckBlockHeader\<close> enforces: a block is later than the median of
  its parent. It makes the median grow along the chain.\<close>

definition times_ok :: "store \<Rightarrow> bool" where
  "times_ok m \<longleftrightarrow> (\<forall>p b q. m p = Some b \<longrightarrow> pprev b = Some q \<longrightarrow> mtp m q < uint (nTime b))"

lemma mtp_prev:
  assumes "wf_store m" and "times_ok m" and "m p = Some b" and "pprev b = Some q"
  shows "mtp m q \<le> mtp m p"
proof -
  obtain bq where q: "m q = Some bq" using wf_prev [OF assms(1,3,4)] by auto
  define ts where "ts = map (\<lambda>e. uint (nTime e)) (past m 11 q)"
  have l: "length ts = min 11 (nat (nHeight bq) + 1)" using length_past [OF assms(1) q] by (simp add: ts_def)
  have "past m 11 p = b # past m 10 q"
    using assms(3,4) by (simp add: eval_nat_numeral(2,3) [of "num.Bit1 (num.Bit0 num.One)"] numeral_eq_Suc)
  moreover have "past m 10 q = take 10 (past m 11 q)" by (rule past_take) simp
  ultimately have p: "mtp m p = median (uint (nTime b) # take 10 ts)"
    by (simp add: mtp_def ts_def take_map)
  have t: "median ts < uint (nTime b)" using assms(2,3,4) by (auto simp: times_ok_def mtp_def ts_def)
  have ne: "ts \<noteq> []" using l by auto
  define n where "n = min 10 (length ts)"
  have tk: "take 10 ts = take n ts" by (simp add: n_def min_def)
  have "median ts \<le> median (uint (nTime b) # take n ts)"
    using ne t l by (intro median_grows) (auto simp: n_def min_def)
  then show ?thesis using p tk by (simp add: mtp_def ts_def)
qed

lemma mtp_ancestor:
  assumes "wf_store m" and "times_ok m"
  shows "m p = Some b \<Longrightarrow> parents m n p = Some q \<Longrightarrow> mtp m q \<le> mtp m p"
proof (induction n arbitrary: q)
  case (Suc n)
  then obtain r where r: "parents m n p = Some r" "prev_of m r = Some q" by (auto simp: Option.bind_eq_Some_conv)
  moreover from this obtain br where "m r = Some br" "pprev br = Some q"
    by (auto simp: prev_of_def Option.bind_eq_Some_conv)
  ultimately show ?case using Suc mtp_prev [OF assms] order_trans by blast
qed simp

subsection \<open>The index grows\<close>



lemma wf_status [simp]:
  "wf_entry m (b\<lparr>nStatus := st\<rparr>) = wf_entry m b" "wf_sums m (b\<lparr>nStatus := st\<rparr>) = wf_sums m b"
  by (cases "pprev b"; simp add: wf_entry_def wf_sums_def)+












subsection \<open>Reachable indexes\<close>





text \<open>A small index for the concrete instances below: a genesis block and two children.\<close>

definition fork_store :: store where
  "fork_store = [0 \<mapsto> CBlockIndex_null,
     1 \<mapsto> CBlockIndex_null\<lparr>pprev := Some 0, pskip := Some 0, nHeight := 1\<rparr>,
     2 \<mapsto> CBlockIndex_null\<lparr>pprev := Some 0, pskip := Some 0, nHeight := 1, nTime := 7\<rparr>]"

lemma wf_fork_store: "wf_store fork_store"
  by (auto simp: wf_store_def wf_entry_def fork_store_def CBlockIndex_null_def GetSkipHeight_def range_simps split: if_splits)

lemma is_chain_fork_store: "is_chain fork_store [Some 0, Some 1]"
  by (auto simp: is_chain_def fork_store_def CBlockIndex_null_def less_Suc_eq)



text \<open>C16. Over a well-formed block index \<open>GetAncestor\<close>, which jumps along the skip pointers,
  returns exactly the block that the walk along \<open>pprev\<close> reaches, and null for a height outside
  the block's past.\<close>

theorem GetAncestor_skiplist:
  assumes "wf_store m" and "m p = Some b"
  shows "GetAncestor m p h = Inr (if 0 \<le> h \<and> h \<le> nHeight b then parents m (nat (nHeight b - h)) p else None)"
  by (rule GetAncestor_correct [OF assms])

theorem GetAncestor_skiplist_witness:
  "GetAncestor fork_store 2 0 = Inr (Some 0) \<and> GetAncestor fork_store 2 5 = Inr None"
  using GetAncestor_skiplist [OF wf_fork_store, of 2 _ 0] GetAncestor_skiplist [OF wf_fork_store, of 2 _ 5]
  by (simp add: fork_store_def prev_of_def)

text \<open>\<open>LastCommonAncestor\<close> returns a block of which every common ancestor is an ancestor, or
  null when the two blocks have no ancestor in common; its assertion never fails.\<close>

theorem LastCommonAncestor_last:
  assumes "wf_store m" and "m a = Some ba" and "m b = Some bb"
  shows "\<exists>r. LastCommonAncestor m a b = Inr r \<and>
    (case r of None \<Rightarrow> \<not> (\<exists>q. ancestor m a q \<and> ancestor m b q)
     | Some q \<Rightarrow> ancestor m a q \<and> ancestor m b q \<and>
         (\<forall>q'. ancestor m a q' \<and> ancestor m b q' \<longrightarrow> ancestor m q q'))"
  using LastCommonAncestor_correct [OF assms] by (auto simp: last_common_def split: option.splits)

theorem LastCommonAncestor_last_witness: "\<exists>r. LastCommonAncestor fork_store 1 2 = Inr r"
  using LastCommonAncestor_last [OF wf_fork_store, of 1 _ 2] by (auto simp: fork_store_def)

text \<open>\<open>SetTip\<close>, which stops rewriting at the first block the old chain already has, leaves
  exactly the path from the new tip to the genesis block.\<close>

theorem SetTip_path:
  assumes "wf_store m" and "is_chain m c" and "m p = Some b" and "nHeight b < INT32_MAX"
  shows "\<exists>c'. SetTip m c (Some p) = Inr c' \<and> is_chain m c' \<and> Tip c' = Some p \<and> Height c' = nHeight b \<and>
    (\<forall>h. 0 \<le> h \<longrightarrow> h \<le> nHeight b \<longrightarrow> chain_at c' h = parents m (nat (nHeight b - h)) p)"
proof -
  have h: "0 \<le> nHeight b" "nHeight b < 2147483647" using wf_height [OF assms(1,3)] assms(4) by (auto simp: range_simps)
  obtain c' where c': "SetTip m c (Some p) = Inr c'" "length c' = nat (nHeight b) + 1"
    "\<forall>i \<le> nat (nHeight b). c' ! i = parents m (nat (nHeight b) - i) p"
    using SetTip_correct [OF assms(1-3) h(2)] by blast
  have "Tip c' = Some p" "Height c' = nHeight b" using c'(2,3) h by (simp_all add: Tip_def Height_def)
  moreover have "chain_at c' k = parents m (nat (nHeight b - k)) p" if "0 \<le> k" "k \<le> nHeight b" for k
    using that c'(2,3) h by (auto simp: chain_at_def nat_diff_distrib)
  ultimately show ?thesis using c'(1) parents_chain [OF assms(1,3) c'(2,3)] by blast
qed

theorem SetTip_path_witness:
  "\<exists>c. SetTip fork_store [Some 0, Some 1] (Some 2) = Inr c \<and> Tip c = Some 2 \<and> Height c = 1"
  using SetTip_path [OF wf_fork_store is_chain_fork_store, of 2]
  by (fastforce simp: fork_store_def range_simps)

text \<open>\<open>FindFork\<close> returns the last block of the given block's past that is on the chain, or null
  when none is.\<close>

theorem FindFork_last:
  assumes "wf_store m" and "is_chain m c" and "m p = Some b"
  shows "\<exists>r. FindFork m c (Some p) = Inr r \<and>
    (case r of None \<Rightarrow> \<not> (\<exists>q. ancestor m p q \<and> Some q \<in> set c)
     | Some q \<Rightarrow> ancestor m p q \<and> Some q \<in> set c \<and>
         (\<forall>q'. ancestor m p q' \<and> Some q' \<in> set c \<longrightarrow> ancestor m q q'))"
  using FindFork_correct [OF assms] by (auto simp: last_common_def split: option.splits)

theorem FindFork_last_witness: "\<exists>r. FindFork fork_store [Some 0, Some 1] (Some 2) = Inr r"
  using FindFork_last [OF wf_fork_store is_chain_fork_store, of 2] by (auto simp: fork_store_def)

text \<open>\<open>GetBlockProof\<close> is \<open>\<lfloor>2 ^ 256 / (target + 1)\<rfloor>\<close> for a usable target and zero otherwise; its
  division never has a zero divisor.\<close>

theorem GetBlockProof_value:
  "\<exists>pf. GetBlockProof bits = Inr pf \<and> length pf = 8 \<and>
    (case SetCompact bits of (target, fNegative, fOverflow) \<Rightarrow>
       lval pf = (if fNegative \<or> fOverflow \<or> lval target = 0 then 0 else 2 ^ 256 div (lval target + 1)))"
proof -
  obtain v neg ovf where "SetCompact bits = (v, neg, ovf)" using prod_cases3 by blast
  with GetBlockProof_eq [OF this] show ?thesis by simp
qed

end
