(* ===== verification/Consensus_Params.thy ===== *)
theory Consensus_Params
  imports RVC_Prelude
begin

text \<open>
  The consensus parameters of \<open>src/src/consensus/params.h\<close> that the modelled components read,
  and the values \<open>src/src/chainparams.cpp\<close> gives them on the main network.
\<close>

datatype DeploymentPos =
    DEPLOYMENT_TESTDUMMY
  | DEPLOYMENT_ASSETS
  | DEPLOYMENT_MSG_REST_ASSETS
  | DEPLOYMENT_TRANSFER_SCRIPT_SIZE
  | DEPLOYMENT_ENFORCE_VALUE
  | DEPLOYMENT_COINBASE_ASSETS
  | DEPLOYMENT_DIP0003

record BIP9Deployment =
  dep_bit :: nat
  nStartTime :: int
  nTimeout :: int
  nWindowSize :: int
  nThreshold :: int

record Params =
  nRuleChangeActivationThreshold :: u32
  nMinerConfirmationWindow :: u32
  vDeployments :: "DeploymentPos \<Rightarrow> BIP9Deployment"
  powLimit :: uint256
  fPowAllowMinDifficultyBlocks :: bool
  fPowNoRetargeting :: bool
  nPowTargetSpacing :: int
  nPowTargetTimespan :: int
  nPowDGWHeight :: int
  nMinimumDifficultyBlocks :: int

definition DifficultyAdjustmentInterval :: "Params \<Rightarrow> int result" where
  "DifficultyAdjustmentInterval params =
     (if nPowTargetSpacing params = 0 then Inl DivByZero
      else i64 (nPowTargetTimespan params sdiv nPowTargetSpacing params))"

text \<open>
  The proof-of-work parameters of the main network; \<open>powLimit\<close> is the hexadecimal literal of
  \<open>CMainParams\<close>, a zero byte followed by 31 bytes \<open>0xff\<close>, stored least significant byte first.
  The deployments are a parameter.
\<close>

definition main_pow_params :: "(DeploymentPos \<Rightarrow> BIP9Deployment) \<Rightarrow> Params" where
  "main_pow_params deps =
     \<lparr>nRuleChangeActivationThreshold = 1916, nMinerConfirmationWindow = 2016, vDeployments = deps,
      powLimit = replicate 31 0xff @ [0], fPowAllowMinDifficultyBlocks = False,
      fPowNoRetargeting = False, nPowTargetSpacing = 1 * 60, nPowTargetTimespan = 2016 * 60,
      nPowDGWHeight = 1, nMinimumDifficultyBlocks = 0\<rparr>"

end
