(* ===== verification/Pow.thy ===== *)
theory Pow
  imports Chain Consensus_Params
begin

unbundle bit_operations_syntax

text \<open>
  Difficulty and proof of work: \<open>src/src/pow.cpp\<close>. Targets are limb lists; the product
  \<open>bnNew *= nActualTimespan\<close> picks the overload for \<open>uint32_t\<close>, so its factor is the low 32 bits of
  the time span and the product is taken modulo \<open>2 ^ 256\<close>, while the divisor is widened to a
  \<open>base_uint\<close>. The lemmas give the retargeting as arithmetic on numbers.
\<close>

definition KAWPOW_TIME :: u32 where "KAWPOW_TIME = 1651444217"

subsection \<open>Minimum-difficulty rule\<close>

primrec min_diff_loop :: "store \<Rightarrow> Params \<Rightarrow> u32 \<Rightarrow> nat \<Rightarrow> ptr \<Rightarrow> u32 result" where
  "min_diff_loop m params nProofOfWorkLimit 0 p = Inl OutOfFuel"
| "min_diff_loop m params nProofOfWorkLimit (Suc fuel) p =
     bindR (deref m p) (\<lambda>b.
       case pprev b of None \<Rightarrow> Inr (nBits b)
       | Some q \<Rightarrow> bindR (DifficultyAdjustmentInterval params) (\<lambda>interval.
           if interval = 0 then Inl DivByZero
           else if nHeight b smod interval \<noteq> 0 \<and> nBits b = nProofOfWorkLimit
           then min_diff_loop m params nProofOfWorkLimit fuel q
           else Inr (nBits b)))"

definition min_difficulty :: "store \<Rightarrow> Params \<Rightarrow> u32 \<Rightarrow> ptr \<Rightarrow> CBlockHeader \<Rightarrow> u32 result" where
  "min_difficulty m params nProofOfWorkLimit p pblock =
     bindR (deref m p) (\<lambda>b.
     bindR (i64 (nPowTargetSpacing params * 2)) (\<lambda>s.
     bindR (i64 (uint (nTime b) + s)) (\<lambda>t.
       if uint (hdr_nTime pblock) > t then Inr nProofOfWorkLimit
       else min_diff_loop m params nProofOfWorkLimit (nat (nHeight b) + 1) p)))"

subsection \<open>Dark Gravity Wave\<close>

definition nPastBlocks :: nat where "nPastBlocks = 180"

text \<open>The body of the averaging loop for \<open>nCountBlocks = n\<close>: the new average and the new count.\<close>

definition dgw_average :: "nat \<Rightarrow> limbs \<Rightarrow> CBlockIndex \<Rightarrow> limbs result" where
  "dgw_average n bnPastTargetAvg b =
     (let bnTarget = fst (SetCompact (nBits b)) in
      if n = 1 then Inr bnTarget
      else op_div (op_add (op_mul32 bnPastTargetAvg (of_nat n)) bnTarget) (base_uint_of 8 (of_nat (n + 1))))"

primrec dgw_loop :: "store \<Rightarrow> nat \<Rightarrow> nat \<Rightarrow> ptr \<Rightarrow> limbs \<Rightarrow> nat \<Rightarrow> (limbs \<times> nat \<times> ptr) result" where
  "dgw_loop m 0 n p avg kaw = Inr (avg, kaw, p)"
| "dgw_loop m (Suc rem) n p avg kaw =
     bindR (deref m p) (\<lambda>b.
     bindR (dgw_average n avg b) (\<lambda>avg.
       let kaw = (if nTime b \<ge> KAWPOW_TIME then kaw + 1 else kaw) in
       if n \<noteq> nPastBlocks
       then (case pprev b of None \<Rightarrow> Inl AssertFailed | Some q \<Rightarrow> dgw_loop m rem (n + 1) q avg kaw)
       else dgw_loop m rem (n + 1) p avg kaw))"

definition dgw_retarget :: "Params \<Rightarrow> limbs \<Rightarrow> int \<Rightarrow> u32 result" where
  "dgw_retarget params bnPastTargetAvg nActualTimespan =
     bindR (i64 (int nPastBlocks * nPowTargetSpacing params)) (\<lambda>nTargetTimespan.
     bindR (i64 (nTargetTimespan * 3)) (\<lambda>upper.
       let ts = (if nActualTimespan < nTargetTimespan sdiv 3 then nTargetTimespan sdiv 3 else nActualTimespan);
           ts = (if ts > upper then upper else ts);
           bnPowLimit = UintToArith256 (powLimit params) in
       bindR (op_div (op_mul32 bnPastTargetAvg (word_of_int ts)) (base_uint_of 8 (word_of_int nTargetTimespan))) (\<lambda>bnNew.
         GetCompact (if CompareTo bnNew bnPowLimit > 0 then bnPowLimit else bnNew) False)))"

definition DarkGravityWave :: "store \<Rightarrow> Params \<Rightarrow> ptr option \<Rightarrow> CBlockHeader \<Rightarrow> u32 result" where
  "DarkGravityWave m params pindexLast pblock =
     (case pindexLast of None \<Rightarrow> Inl AssertFailed
      | Some p \<Rightarrow>
          (let bnPowLimit = UintToArith256 (powLimit params) in
           bindR (GetCompact bnPowLimit False) (\<lambda>nProofOfWorkLimit.
           bindR (deref m p) (\<lambda>b.
             if nHeight b < int nPastBlocks then GetCompact bnPowLimit False
             else if fPowAllowMinDifficultyBlocks params \<and> fPowNoRetargeting params
             then min_difficulty m params nProofOfWorkLimit p pblock
             else bindR (dgw_loop m nPastBlocks 1 p (base_uint_zero 8) 0) (\<lambda>(avg, kaw, q).
                    if hdr_nTime pblock \<ge> KAWPOW_TIME \<and> kaw \<noteq> nPastBlocks
                    then GetCompact (UintToArith256 (powLimit params)) False
                    else bindR (deref m q) (\<lambda>bq.
                           dgw_retarget params avg (uint (nTime b) - uint (nTime bq))))))))"

subsection \<open>The adjustment of the original client\<close>

definition CalculateNextWorkRequired :: "Params \<Rightarrow> CBlockIndex \<Rightarrow> int \<Rightarrow> u32 result" where
  "CalculateNextWorkRequired params b nFirstBlockTime =
     (if fPowNoRetargeting params then Inr (nBits b)
      else bindR (i64 (uint (nTime b) - nFirstBlockTime)) (\<lambda>nActualTimespan.
           bindR (i64 (nPowTargetTimespan params * 4)) (\<lambda>upper.
             let lower = nPowTargetTimespan params sdiv 4;
                 ts = (if nActualTimespan < lower then lower else nActualTimespan);
                 ts = (if ts > upper then upper else ts);
                 bnPowLimit = UintToArith256 (powLimit params);
                 bnNew = fst (SetCompact (nBits b)) in
             bindR (op_div (op_mul32 bnNew (word_of_int ts))
                     (base_uint_of 8 (word_of_int (nPowTargetTimespan params)))) (\<lambda>bnNew.
               GetCompact (if CompareTo bnNew bnPowLimit > 0 then bnPowLimit else bnNew) False))))"

text \<open>\<open>nHeightFirst\<close> is an \<open>int\<close>: the 64-bit difference is narrowed.\<close>

definition GetNextWorkRequiredBTC :: "store \<Rightarrow> Params \<Rightarrow> ptr option \<Rightarrow> CBlockHeader \<Rightarrow> u32 result" where
  "GetNextWorkRequiredBTC m params pindexLast pblock =
     (case pindexLast of None \<Rightarrow> Inl AssertFailed
      | Some p \<Rightarrow>
          bindR (GetCompact (UintToArith256 (powLimit params)) False) (\<lambda>nProofOfWorkLimit.
          bindR (deref m p) (\<lambda>b.
          bindR (i32 (nHeight b + 1)) (\<lambda>h.
          bindR (DifficultyAdjustmentInterval params) (\<lambda>interval.
            if interval = 0 then Inl DivByZero
            else if h smod interval \<noteq> 0
            then (if fPowAllowMinDifficultyBlocks params
                  then min_difficulty m params nProofOfWorkLimit p pblock
                  else Inr (nBits b))
            else bindR (i64 (nHeight b - (interval - 1))) (\<lambda>d.
                 let nHeightFirst = sint (word_of_int d :: u32) in
                 bindR (assertR (nHeightFirst \<ge> 0)) (\<lambda>_.
                 bindR (GetAncestor m p nHeightFirst) (\<lambda>first.
                   case first of None \<Rightarrow> Inl AssertFailed
                   | Some q \<Rightarrow> bindR (deref m q) (\<lambda>bq.
                       CalculateNextWorkRequired params b (uint (nTime bq)))))))))))"

definition GetNextWorkRequired :: "store \<Rightarrow> Params \<Rightarrow> ptr option \<Rightarrow> CBlockHeader \<Rightarrow> u32 result" where
  "GetNextWorkRequired m params pindexLast pblock =
     (case pindexLast of None \<Rightarrow> Inl AssertFailed
      | Some p \<Rightarrow>
          bindR (deref m p) (\<lambda>b.
            if nHeight b < nMinimumDifficultyBlocks params
            then GetCompact (UintToArith256 (powLimit params)) False
            else bindR (i32 (nHeight b + 1)) (\<lambda>h.
                   if h < nPowDGWHeight params then GetNextWorkRequiredBTC m params pindexLast pblock
                   else DarkGravityWave m params pindexLast pblock)))"

subsection \<open>Checking a hash\<close>

definition CheckProofOfWork :: "uint256 \<Rightarrow> u32 \<Rightarrow> Params \<Rightarrow> bool" where
  "CheckProofOfWork hash bits params =
     (let (bnTarget, fNegative, fOverflow) = SetCompact bits in
      if fNegative \<or> EqualTo bnTarget 0 \<or> fOverflow \<or> CompareTo bnTarget (UintToArith256 (powLimit params)) > 0
      then False
      else if CompareTo (UintToArith256 hash) bnTarget > 0 then False
      else True)"

subsection \<open>Checking a hash\<close>

lemma length_UintToArith256 [simp]: "length (UintToArith256 b) = 8"
  by (simp add: UintToArith256_def)

lemma CompareTo_gt_lval: "length a = length b \<Longrightarrow> CompareTo a b > 0 \<longleftrightarrow> lval b < lval a"
  by (rule CompareTo_gt)

text \<open>\<open>CheckProofOfWork\<close> accepts a hash exactly when the bits encode a target that is positive,
  not negative, not overflowing and at most the limit, and the hash as a number is at most the target.\<close>

theorem CheckProofOfWork_iff:
  "CheckProofOfWork hash bits params \<longleftrightarrow>
     (case SetCompact bits of (target, fNegative, fOverflow) \<Rightarrow>
        \<not> fNegative \<and> \<not> fOverflow \<and> 0 < lval target \<and>
        lval target \<le> lval (UintToArith256 (powLimit params)) \<and>
        lval (UintToArith256 hash) \<le> lval target)"
proof -
  obtain v neg ovf where s: "SetCompact bits = (v, neg, ovf)" using prod_cases3 by blast
  then have "length v = 8" using SetCompact_eq(1) by blast
  then show ?thesis using s by (auto simp: CheckProofOfWork_def EqualTo_0 CompareTo_gt_lval)
qed

subsection \<open>The average\<close>

definition target_of :: "CBlockIndex \<Rightarrow> nat" where
  "target_of b = lval (fst (SetCompact (nBits b)))"

fun weighted :: "nat \<Rightarrow> nat \<Rightarrow> CBlockIndex list \<Rightarrow> nat" where
  "weighted n avg [] = avg"
| "weighted n avg (b # bs) =
     weighted (n + 1) (if n = 1 then target_of b else (avg * n + target_of b) div (n + 1)) bs"

lemma length_target [simp]: "length (fst (SetCompact c)) = 8"
  using SetCompact_eq(1) [of c "fst (SetCompact c)"] by (cases "SetCompact c") auto

lemma average_le: "a \<le> L \<Longrightarrow> t \<le> L \<Longrightarrow> (a * n + t) div (n + 1) \<le> (L :: nat)"
proof -
  assume "a \<le> L" "t \<le> L"
  then have "a * n + t \<le> L * n + L" by (intro add_mono mult_le_mono) simp_all
  then have "a * n + t \<le> L * (n + 1)" by simp
  then have "(a * n + t) div (n + 1) \<le> L * (n + 1) div (n + 1)" by (rule div_le_mono)
  also have "L * (n + 1) div (n + 1) = L" by (rule nonzero_mult_div_cancel_right) simp
  finally show ?thesis .
qed

lemma dgw_average_val:
  assumes "1 \<le> n" and "n \<le> 180" and "181 * L < 2 ^ 256" and "target_of b \<le> L"
    and "n \<noteq> 1 \<Longrightarrow> length avg = 8 \<and> lval avg \<le> L"
  shows "\<exists>v. dgw_average n avg b = Inr v \<and> length v = 8 \<and> lval v \<le> L \<and>
    lval v = (if n = 1 then target_of b else (lval avg * n + target_of b) div (n + 1))"
proof (cases "n = 1")
  case True
  then show ?thesis using assms(4) by (simp add: dgw_average_def target_of_def)
next
  case False
  have a: "length avg = 8" "lval avg \<le> L" using assms(5) False by auto
  have u: "unat (of_nat n :: u32) = n" "unat (of_nat (n + 1) :: u64) = n + 1"
    using assms(2) by (subst unat_of_nat; simp)+
  have "lval avg * n \<le> L * 180" using a(2) assms(2) by (rule mult_le_mono)
  then have lt: "lval avg * n + target_of b < 2 ^ 256" using assms(3,4) by linarith
  define x where "x = op_add (op_mul32 avg (of_nat n)) (fst (SetCompact (nBits b)))"
  have x: "length x = 8" "lval x = lval avg * n + target_of b"
    using a(1) lt by (simp_all add: x_def lval_add lval_mul32 u target_of_def)
  have d: "length (base_uint_of 8 (of_nat (n + 1))) = 8" "lval (base_uint_of 8 (of_nat (n + 1))) = n + 1"
    using u(2) by (simp_all add: lval_base_uint_of)
  obtain v where "op_div x (base_uint_of 8 (of_nat (n + 1))) = Inr v" "length v = 8" "lval v = lval x div (n + 1)"
    using op_div_spec [of x "base_uint_of 8 (of_nat (n + 1))"] x d by (auto simp del: of_nat_add of_nat_Suc)
  then show ?thesis using False x average_le [OF a(2) assms(4), of n]
    by (auto simp: dgw_average_def x_def simp del: of_nat_add)
qed

lemma dgw_loop_val:
  assumes "wf_store m" and "m p = Some b" and "int rem \<le> nHeight b + 1" and "n + rem = 181" and "1 \<le> n" and "1 \<le> rem"
    and "181 * L < 2 ^ 256" and "\<forall>e \<in> set (past m rem p). target_of e \<le> L"
    and "n \<noteq> 1 \<Longrightarrow> length avg = 8 \<and> lval avg \<le> L"
  shows "\<exists>v q. dgw_loop m rem n p avg kaw =
      Inr (v, kaw + length (filter (\<lambda>e. nTime e \<ge> KAWPOW_TIME) (past m rem p)), q) \<and>
    length v = 8 \<and> lval v = weighted n (lval avg) (past m rem p) \<and> m q = Some (last (past m rem p))"
  using assms(2-6,8,9)
proof (induction rem arbitrary: n p b avg kaw)
  case (Suc rem)
  obtain v where v: "dgw_average n avg b = Inr v" "length v = 8" "lval v \<le> L"
    "lval v = (if n = 1 then target_of b else (lval avg * n + target_of b) div (n + 1))"
    using dgw_average_val [of n L b avg] Suc.prems assms(7) by auto
  show ?case
  proof (cases "rem = 0")
    case True
    have l: "past m (Suc 0) p = [b]" using Suc.prems(1) by (simp split: option.splits)
    have n: "n = nPastBlocks" using Suc.prems(3) True by (simp add: nPastBlocks_def)
    show ?thesis unfolding True l using v Suc.prems(1) n by (simp add: Let_def)
  next
    case False
    obtain q bq where q: "pprev b = Some q" "m q = Some bq" "nHeight bq = nHeight b - 1"
      and past: "past m (Suc rem) p = b # past m rem q"
      using past_Suc [OF assms(1) Suc.prems(1) _ False] Suc.prems(2) by auto
    define kaw' where "kaw' = (if nTime b \<ge> KAWPOW_TIME then kaw + 1 else kaw)"
    have "\<exists>w r. dgw_loop m rem (n + 1) q v kaw' =
        Inr (w, kaw' + length (filter (\<lambda>e. nTime e \<ge> KAWPOW_TIME) (past m rem q)), r) \<and>
      length w = 8 \<and> lval w = weighted (n + 1) (lval v) (past m rem q) \<and> m r = Some (last (past m rem q))"
      using Suc.prems False q past v(2,3) by (intro Suc.IH [OF q(2)]) auto
    moreover have "n \<noteq> nPastBlocks" using Suc.prems(3) False by (simp add: nPastBlocks_def)
    moreover have "past m rem q \<noteq> []" using q(2) False by (cases rem) auto
    ultimately show ?thesis unfolding past using v Suc.prems(1) q(1)
      by (auto simp: Let_def kaw'_def)
  qed
qed simp

subsection \<open>The retarget\<close>

lemma GetCompact_le:
  assumes "length v = 8" and "GetCompact v False = Inr c"
  shows "\<exists>x. SetCompact c = (x, False, False) \<and> lval x \<le> lval v"
proof -
  obtain x neg ovf where x: "SetCompact c = (x, neg, ovf)" using prod_cases3 by blast
  from compact_digits [OF assms x] obtain e where e: "\<not> neg" "\<not> ovf" "lval x = lval v div 256 ^ e * 256 ^ e" by auto
  then have "lval x \<le> lval v" using div_times_less_eq_dividend [of "lval v" "256 ^ e"] by simp
  then show ?thesis using x e(1,2) by auto
qed

definition dgw_span :: "int \<Rightarrow> int \<Rightarrow> int" where
  "dgw_span T d = min (3 * T) (max (T div 3) d)"

lemma retarget_val:
  assumes "length a = 8" and "0 < T" and "T < 2 ^ 64" and "0 \<le> ts" and "ts < 2 ^ 32"
  shows "\<exists>v. op_div (op_mul32 a (word_of_int ts)) (base_uint_of 8 (word_of_int T)) = Inr v \<and> length v = 8 \<and>
    lval v = (lval a * nat ts) mod 2 ^ 256 div nat T"
proof -
  have u: "unat (word_of_int ts :: u32) = nat ts" "unat (word_of_int T :: u64) = nat T"
    using assms by (simp_all add: unat_eq_nat_uint uint_word_of_int)
  have d: "length (base_uint_of 8 (word_of_int T)) = 8" "lval (base_uint_of 8 (word_of_int T)) = nat T"
    using u(2) by (simp_all add: lval_base_uint_of)
  then show ?thesis
    using op_div_spec [of "op_mul32 a (word_of_int ts)" "base_uint_of 8 (word_of_int T)"] assms u
    by (simp add: lval_mul32)
qed

lemma dgw_retarget_val:
  assumes "length a = 8" and "0 < nPowTargetSpacing params" and "540 * nPowTargetSpacing params < 2 ^ 32"
  shows "\<exists>v. dgw_retarget params a d = GetCompact v False \<and> length v = 8 \<and>
    lval v = min (lval (UintToArith256 (powLimit params)))
      ((lval a * nat (dgw_span (180 * nPowTargetSpacing params) d)) mod 2 ^ 256 div nat (180 * nPowTargetSpacing params))"
proof -
  define s T where "s = nPowTargetSpacing params" and "T = 180 * s"
  define ts where "ts = dgw_span T d"
  have s: "0 < s" "540 * s < 4294967296" using assms(2,3) by (simp_all add: s_def)
  then have T: "0 < T" "T < 2 ^ 64" "in_int64 T" "in_int64 (T * 3)" "0 \<le> ts" "ts < 2 ^ 32"
    by (auto simp: T_def ts_def dgw_span_def range_simps)
  have t: "(let t = if d < T sdiv 3 then T sdiv 3 else d in if t > T * 3 then T * 3 else t) = ts"
    using T(1) by (auto simp: ts_def dgw_span_def sdiv_nonneg Let_def)
  obtain v where v: "op_div (op_mul32 a (word_of_int ts)) (base_uint_of 8 (word_of_int T)) = Inr v" "length v = 8"
    "lval v = (lval a * nat ts) mod 2 ^ 256 div nat T"
    using retarget_val [OF assms(1) T(1,2,5,6)] by blast
  have "dgw_retarget params a d = GetCompact (if CompareTo v (UintToArith256 (powLimit params)) > 0
      then UintToArith256 (powLimit params) else v) False"
    using T(3,4) v(1) t by (simp add: dgw_retarget_def nPastBlocks_def Let_def s_def [symmetric] T_def [symmetric])
  then show ?thesis using v
    by (auto simp: CompareTo_gt_lval T_def [symmetric] s_def [symmetric] ts_def [symmetric] min_def)
qed

lemma DarkGravityWave_eq:
  assumes "wf_store m" and "m p = Some b" and "180 \<le> nHeight b"
    and "\<not> (fPowAllowMinDifficultyBlocks params \<and> fPowNoRetargeting params)"
    and "0 < nPowTargetSpacing params" and "540 * nPowTargetSpacing params < 2 ^ 32"
    and "181 * L < 2 ^ 256" and "\<forall>e \<in> set (past m 180 p). target_of e \<le> L"
    and "hdr_nTime pblock < KAWPOW_TIME \<or> (\<forall>e \<in> set (past m 180 p). KAWPOW_TIME \<le> nTime e)"
    and "L = lval (UintToArith256 (powLimit params))" and "T = 180 * nPowTargetSpacing params"
  shows "\<exists>c v. DarkGravityWave m params (Some p) pblock = Inr c \<and> GetCompact v False = Inr c \<and> length v = 8 \<and>
    lval v = min L (weighted 1 0 (past m 180 p) *
       nat (dgw_span T (uint (nTime b) - uint (nTime (last (past m 180 p))))) mod 2 ^ 256 div nat T)"
proof -
  let ?bs = "past m 180 p"
  obtain a q where a: "dgw_loop m 180 1 p (base_uint_zero 8) 0 =
      Inr (a, 0 + length (filter (\<lambda>e. nTime e \<ge> KAWPOW_TIME) ?bs), q)"
    "length a = 8" "lval a = weighted 1 (lval (base_uint_zero 8)) ?bs" "m q = Some (last ?bs)"
    using dgw_loop_val [OF assms(1,2), of 180 1 L "base_uint_zero 8" 0] assms(3,7,8) by auto
  obtain v where v: "dgw_retarget params a (uint (nTime b) - uint (nTime (last ?bs))) = GetCompact v False"
    "length v = 8" "lval v = min L ((lval a * nat (dgw_span T (uint (nTime b) - uint (nTime (last ?bs))))) mod 2 ^ 256 div nat T)"
    using dgw_retarget_val [OF a(2) assms(5,6)] assms(10,11) by auto
  obtain c where c: "GetCompact v False = Inr c" using GetCompact_eq [OF v(2)] by blast
  obtain lim where lim: "GetCompact (UintToArith256 (powLimit params)) False = Inr lim"
    using GetCompact_eq [OF length_UintToArith256] by blast
  have len: "length ?bs = 180" using length_past [OF assms(1,2), of 180] assms(3) by simp
  have kaw: "\<not> (KAWPOW_TIME \<le> hdr_nTime pblock \<and> length (filter (\<lambda>e. nTime e \<ge> KAWPOW_TIME) ?bs) \<noteq> 180)"
  proof (cases "hdr_nTime pblock < KAWPOW_TIME")
    case False
    with assms(9) have "filter (\<lambda>e. nTime e \<ge> KAWPOW_TIME) ?bs = ?bs" by (simp add: filter_id_conv)
    then show ?thesis using len by simp
  qed (simp add: not_le)
  have "DarkGravityWave m params (Some p) pblock = Inr c"
    using a(1,4) v(1) c lim assms(2-4) kaw by (auto simp: DarkGravityWave_def nPastBlocks_def Let_def)
  moreover have "lval (base_uint_zero 8) = 0" by (simp add: base_uint_zero_def)
  ultimately show ?thesis using c v(2,3) a(3) by auto
qed

text \<open>A straight chain of 201 blocks, one minute apart, for the concrete instances.\<close>

definition line_entry :: "nat \<Rightarrow> CBlockIndex" where
  "line_entry n = CBlockIndex_null\<lparr>pprev := (if n = 0 then None else Some (n - 1)), nHeight := int n,
     nTime := of_nat (60 * n), nBits := 0x2000ffff\<rparr>"

definition line_store :: store where
  "line_store n = (if n \<le> 200 then Some (line_entry n) else None)"

definition line_header :: CBlockHeader where
  "line_header = \<lparr>hdr_nVersion = 4, hdr_hashPrevBlock = uint256_null, hdr_hashMerkleRoot = uint256_null,
     hdr_nTime = 12060, hdr_nBits = 0, hdr_nNonce = 0, hdr_nHeight = 201, hdr_nNonce64 = 0,
     hdr_mix_hash = uint256_null\<rparr>"

lemma wf_line_store: "wf_store line_store"
  by (auto simp: wf_store_def wf_entry_def line_store_def line_entry_def CBlockIndex_null_def range_simps
      split: if_splits)

lemma line_past: "set (past line_store k n) \<subseteq> range line_entry"
proof (induction k arbitrary: n)
  case (Suc k)
  then show ?case by (cases "n \<le> 200") (auto simp: line_store_def [of n] split: option.splits)
qed simp

lemma line_bits: "e \<in> set (past line_store k n) \<Longrightarrow> nBits e = 0x2000ffff"
  using line_past by (fastforce simp: line_entry_def)

lemma line_last: "k \<le> n \<Longrightarrow> n \<le> 200 \<Longrightarrow> last (past line_store (Suc k) n) = line_entry (n - k)"
proof (induction k arbitrary: n)
  case (Suc k)
  then have "past line_store (Suc (Suc k)) n = line_entry n # past line_store (Suc k) (n - 1)"
    by (simp add: line_store_def line_entry_def)
  moreover have "past line_store (Suc k) (n - 1) \<noteq> []" using Suc.prems by (simp add: line_store_def)
  ultimately show ?case using Suc by simp
qed (simp add: line_store_def line_entry_def split: option.splits)

lemma line_first: "last (past line_store 180 200) = line_entry 21"
  using line_last [of 179 200] by simp

lemma line_times: "uint (nTime (line_entry 200)) - uint (nTime (line_entry 21)) = 179 * 60"
  by (simp add: line_entry_def)

subsection \<open>The product wraps on the main network\<close>

lemma weighted_const:
  assumes "\<forall>e \<in> set bs. target_of e = V" and "n \<noteq> 1 \<Longrightarrow> avg = V" and "bs \<noteq> [] \<or> avg = V"
  shows "weighted n avg bs = V"
  using assms
proof (induction n avg bs rule: weighted.induct)
  case (2 n avg b bs)
  have "(V * n + V) div (n + 1) = V" using nonzero_mult_div_cancel_right [of "n + 1" V] by (simp add: algebra_simps)
  then show ?case using 2 by auto
qed auto

lemma lval_ones: "lval (replicate k 0xffffffff) = 2 ^ (32 * k) - 1"
proof (induction k)
  case (Suc k)
  have "(1 :: nat) \<le> 2 ^ (32 * k)" by simp
  then show ?case using Suc by (simp add: power_add diff_mult_distrib2)
qed simp

lemma main_limit: "lval (UintToArith256 (powLimit (main_pow_params deps))) = 2 ^ 248 - 1"
proof -
  define a :: limbs where "a = replicate 7 0xffffffff @ [0x00ffffff]"
  have w: "WriteLE32 0xffffffff = [0xff, 0xff, 0xff, 0xff]" "WriteLE32 0x00ffffff = [0xff, 0xff, 0xff, 0]"
    by (simp_all add: WriteLE32_def)
  have "concat (map WriteLE32 a) = replicate 31 0xff @ [0]"
    unfolding a_def
    by (simp only: numeral_eq_Suc pred_numeral_simps replicate.simps map_append list.map concat.simps append.simps
        concat_append w BitM.simps numeral_One One_nat_def)
  then have "UintToArith256 (powLimit (main_pow_params deps)) = a"
    using bytes_of_limbs [of a "[]"] by (simp add: UintToArith256_def main_pow_params_def a_def)
  moreover have "lval a = 2 ^ 224 - 1 + 2 ^ 224 * 16777215"
    by (simp only: a_def lval_append lval_ones lval.simps length_replicate) simp
  ultimately show ?thesis by simp
qed

lemma limit_bits_target: "lval (fst (SetCompact 0x2000ffff)) = 0xffff * 2 ^ 232"
proof -
  obtain v neg ovf where s: "SetCompact 0x2000ffff = (v, neg, ovf)" using prod_cases3 by blast
  have "compact_word (unat (0x2000ffff :: u32)) = 0xffff" by (simp add: compact_word_def)
  then show ?thesis using SetCompact_eq(2) [OF s refl refl] s by simp
qed



text \<open>C20. On the main network the product of the retarget wraps at the easiest difficulty. With
  the last 180 blocks at the limit and found exactly one minute apart, as many seconds as 179
  intervals should take, the new target is not the old one but less than a fortieth of the limit.\<close>

theorem DarkGravityWave_wraps_on_mainnet:
  assumes "wf_store m" and "m p = Some b" and "180 \<le> nHeight b"
    and "\<forall>e \<in> set (past m 180 p). nBits e = 0x2000ffff"
    and "uint (nTime b) - uint (nTime (last (past m 180 p))) = 179 * 60"
    and "hdr_nTime pblock < KAWPOW_TIME \<or> (\<forall>e \<in> set (past m 180 p). KAWPOW_TIME \<le> nTime e)"
  shows "\<exists>c v. DarkGravityWave m (main_pow_params deps) (Some p) pblock = Inr c \<and>
    SetCompact c = (v, False, False) \<and> 40 * lval v < 0xffff * 2 ^ 232"
proof -
  let ?P = "main_pow_params deps"
  let ?bs = "past m 180 p"
  have P: "nPowTargetSpacing ?P = 60" "\<not> fPowAllowMinDifficultyBlocks ?P" by (simp_all add: main_pow_params_def)
  have t: "\<forall>e \<in> set ?bs. target_of e = 0xffff * 2 ^ 232"
    using assms(4) limit_bits_target by (simp add: target_of_def)
  have ne: "?bs \<noteq> []" using assms(2) by (simp add: numeral_eq_Suc)
  have w: "weighted 1 0 ?bs = 0xffff * 2 ^ 232" using weighted_const [OF t, of 1 0] ne by simp
  obtain c v where c: "DarkGravityWave m ?P (Some p) pblock = Inr c" "GetCompact v False = Inr c" "length v = 8"
    "lval v = min (2 ^ 248 - 1) (weighted 1 0 ?bs * nat (dgw_span 10800 (179 * 60)) mod 2 ^ 256 div nat 10800)"
    using DarkGravityWave_eq [OF assms(1-3), of ?P "2 ^ 248 - 1" pblock 10800] assms(5,6) P t main_limit by auto
  have v: "40 * lval v < 0xffff * 2 ^ 232" unfolding c(4) w by (simp add: dgw_span_def)
  obtain x where "SetCompact c = (x, False, False)" "lval x \<le> lval v" using GetCompact_le [OF c(3,2)] by blast
  moreover from this have "40 * lval x < 0xffff * 2 ^ 232" using v by linarith
  ultimately show ?thesis using c(1) by blast
qed

theorem DarkGravityWave_wraps_on_mainnet_witness:
  "\<exists>c v. DarkGravityWave line_store (main_pow_params (\<lambda>_. undefined)) (Some 200) line_header = Inr c \<and>
    SetCompact c = (v, False, False) \<and> 40 * lval v < 0xffff * 2 ^ 232"
  by (rule DarkGravityWave_wraps_on_mainnet [OF wf_line_store, of 200 "line_entry 200"])
    (use line_bits line_times in \<open>simp_all add: line_store_def [of 200] line_first line_header_def KAWPOW_TIME_def
      line_entry_def [of 200]\<close>)

text \<open>C19. On the main network, when the last 180 targets are below \<open>2 ^ 248\<close>, \<open>GetNextWorkRequired\<close> returns: no assertion fails and nothing
  is divided by zero, and the bits it asks for encode a target that is neither negative nor
  overflowing and never easier than the limit.\<close>

theorem GetNextWorkRequired_within_limit:
  assumes "wf_store m" and "m p = Some b" and "nHeight b < INT32_MAX"
    and "\<forall>e \<in> set (past m 180 p). target_of e < 2 ^ 248"
  shows "\<exists>c v. GetNextWorkRequired m (main_pow_params deps) (Some p) pblock = Inr c \<and>
    SetCompact c = (v, False, False) \<and> lval v < 2 ^ 248"
proof -
  let ?P = "main_pow_params deps"
  let ?lim = "UintToArith256 (powLimit ?P)"
  have h: "0 \<le> nHeight b" "in_int32 (nHeight b + 1)"
    using wf_height [OF assms(1,2)] assms(3) by (auto simp: range_simps)
  have g: "GetNextWorkRequired m ?P (Some p) pblock = DarkGravityWave m ?P (Some p) pblock"
    using h assms(2) by (simp add: GetNextWorkRequired_def main_pow_params_def)
  have fin: "\<exists>x. SetCompact c = (x, False, False) \<and> lval x < 2 ^ 248"
    if "GetCompact v False = Inr c" "length v = 8" "lval v \<le> 2 ^ 248 - 1" for v c
    using GetCompact_le [OF that(2,1)] that(3) by auto
  obtain lim where lim: "GetCompact ?lim False = Inr lim"
    using GetCompact_eq [OF length_UintToArith256] by blast
  have "\<exists>c v. DarkGravityWave m ?P (Some p) pblock = Inr c \<and> GetCompact v False = Inr c \<and> length v = 8 \<and> lval v \<le> 2 ^ 248 - 1"
  proof (cases "nHeight b < 180")
    case True
    then show ?thesis using lim assms(2) main_limit [of deps]
      by (intro exI [of _ lim] exI [of _ ?lim]) (simp add: DarkGravityWave_def Let_def nPastBlocks_def)
  next
    case False
    then have h180: "180 \<le> nHeight b" by simp
    have L: "\<forall>e \<in> set (past m 180 p). target_of e \<le> 2 ^ 248 - 1" using assms(4) by auto
    have P: "nPowTargetSpacing ?P = 60" "\<not> fPowAllowMinDifficultyBlocks ?P" by (simp_all add: main_pow_params_def)
    obtain a q where a: "dgw_loop m 180 1 p (base_uint_zero 8) 0 =
        Inr (a, 0 + length (filter (\<lambda>e. nTime e \<ge> KAWPOW_TIME) (past m 180 p)), q)"
      "length a = 8" "m q = Some (last (past m 180 p))"
      using dgw_loop_val [OF assms(1,2), of 180 1 "2 ^ 248 - 1" "base_uint_zero 8" 0] h180 L by auto
    obtain v where v: "dgw_retarget ?P a (uint (nTime b) - uint (nTime (last (past m 180 p)))) = GetCompact v False"
      "length v = 8" "lval v \<le> 2 ^ 248 - 1"
      using dgw_retarget_val [OF a(2), of ?P "uint (nTime b) - uint (nTime (last (past m 180 p)))"] P(1) main_limit [of deps]
      by auto
    obtain c where c: "GetCompact v False = Inr c" using GetCompact_eq [OF v(2)] by blast
    define k where "k = length (filter (\<lambda>e. nTime e \<ge> KAWPOW_TIME) (past m 180 p))"
    have dgw: "DarkGravityWave m ?P (Some p) pblock = (if hdr_nTime pblock \<ge> KAWPOW_TIME \<and> k \<noteq> 180 then Inr lim else Inr c)"
      using a(1,3) v(1) c lim h180 assms(2) P(2) by (simp add: DarkGravityWave_def nPastBlocks_def Let_def k_def)
    show ?thesis
    proof (cases "hdr_nTime pblock \<ge> KAWPOW_TIME \<and> k \<noteq> 180")
      case True
      then show ?thesis using dgw lim main_limit [of deps] by (intro exI [of _ lim] exI [of _ ?lim]) simp
    next
      case False
      then show ?thesis using dgw c v by (intro exI [of _ c] exI [of _ v]) auto
    qed
  qed
  then show ?thesis using g fin by auto
qed

theorem GetNextWorkRequired_within_limit_witness:
  "\<exists>c v. GetNextWorkRequired line_store (main_pow_params (\<lambda>_. undefined)) (Some 200) line_header = Inr c \<and>
    SetCompact c = (v, False, False) \<and> lval v < 2 ^ 248"
  by (rule GetNextWorkRequired_within_limit [OF wf_line_store, of 200 "line_entry 200"])
    (use line_bits limit_bits_target in \<open>simp_all add: line_store_def [of 200] line_entry_def [of 200] range_simps target_of_def\<close>)

end
