(* ===== verification/Versionbits.thy ===== *)
theory Versionbits
  imports Chain Consensus_Params
begin

unbundle bit_operations_syntax

text \<open>
  Soft-fork deployment by version bits (BIP 9): \<open>src/src/versionbits.{h,cpp}\<close>. The abstract class
  \<open>AbstractThresholdConditionChecker\<close> is a record of its virtual methods at given parameters;
  \<open>VersionBitsConditionChecker\<close> builds it for one deployment. A \<open>ThresholdConditionCache\<close> is a map
  from a block pointer or null to a state, passed along explicitly. \<open>bip9_state\<close> is the state machine
  of the protocol without any cache, and the cached computation is shown to follow it.
\<close>

datatype ThresholdState =
    THRESHOLD_DEFINED
  | THRESHOLD_STARTED
  | THRESHOLD_LOCKED_IN
  | THRESHOLD_ACTIVE
  | THRESHOLD_FAILED

type_synonym ThresholdConditionCache = "ptr option \<Rightarrow> ThresholdState option"

record checker =
  Condition :: "CBlockIndex \<Rightarrow> bool"
  BeginTime :: int
  EndTime :: int
  Period :: int
  Threshold :: int

subsection \<open>GetStateFor\<close>

text \<open>The last block of the period before the one \<open>pindexPrev\<close> leads into.\<close>

definition period_parent :: "store \<Rightarrow> int \<Rightarrow> ptr \<Rightarrow> ptr option result" where
  "period_parent m nPeriod p =
     bindR (deref m p) (\<lambda>b.
     bindR (i32 (nHeight b + 1)) (\<lambda>h.
       if nPeriod = 0 then Inl DivByZero
       else GetAncestor m p (nHeight b - h smod nPeriod)))"

definition previous_period :: "store \<Rightarrow> int \<Rightarrow> ptr \<Rightarrow> ptr option result" where
  "previous_period m nPeriod p =
     bindR (deref m p) (\<lambda>b. bindR (i32 (nHeight b - nPeriod)) (GetAncestor m p))"

text \<open>\<open>vToCompute\<close> is kept with its back first.\<close>

primrec walk_back :: "store \<Rightarrow> checker \<Rightarrow> nat \<Rightarrow> ThresholdConditionCache \<Rightarrow> ptr option \<Rightarrow> ptr list \<Rightarrow>
    (ThresholdConditionCache \<times> ptr option \<times> ptr list) result" where
  "walk_back m ck 0 cache pindexPrev vToCompute = Inl OutOfFuel"
| "walk_back m ck (Suc fuel) cache pindexPrev vToCompute =
     (if cache pindexPrev \<noteq> None then Inr (cache, pindexPrev, vToCompute)
      else case pindexPrev of
        None \<Rightarrow> Inr (cache(None \<mapsto> THRESHOLD_DEFINED), None, vToCompute)
      | Some p \<Rightarrow>
          bindR (GetMedianTimePast m p) (\<lambda>t.
            if t < BeginTime ck then Inr (cache(Some p \<mapsto> THRESHOLD_DEFINED), Some p, vToCompute)
            else bindR (previous_period m (Period ck) p) (\<lambda>q.
                   walk_back m ck fuel cache q (p # vToCompute))))"

primrec count_loop :: "store \<Rightarrow> (CBlockIndex \<Rightarrow> bool) \<Rightarrow> nat \<Rightarrow> ptr option \<Rightarrow> nat \<Rightarrow> nat result" where
  "count_loop m cond 0 pindexCount cnt = Inr cnt"
| "count_loop m cond (Suc i) pindexCount cnt =
     (case pindexCount of None \<Rightarrow> Inl NullDeref
      | Some p \<Rightarrow> bindR (deref m p) (\<lambda>b.
          count_loop m cond i (pprev b) (if cond b then cnt + 1 else cnt)))"

definition next_state :: "store \<Rightarrow> checker \<Rightarrow> ThresholdState \<Rightarrow> ptr \<Rightarrow> ThresholdState result" where
  "next_state m ck state p =
     (case state of
        THRESHOLD_DEFINED \<Rightarrow>
          bindR (GetMedianTimePast m p) (\<lambda>t.
            Inr (if t \<ge> EndTime ck then THRESHOLD_FAILED
                 else if t \<ge> BeginTime ck then THRESHOLD_STARTED else state))
      | THRESHOLD_STARTED \<Rightarrow>
          bindR (GetMedianTimePast m p) (\<lambda>t.
            if t \<ge> EndTime ck then Inr THRESHOLD_FAILED
            else bindR (count_loop m (Condition ck) (nat (Period ck)) (Some p) 0) (\<lambda>cnt.
                   Inr (if int cnt \<ge> Threshold ck then THRESHOLD_LOCKED_IN else state)))
      | THRESHOLD_LOCKED_IN \<Rightarrow> Inr THRESHOLD_ACTIVE
      | THRESHOLD_FAILED \<Rightarrow> Inr state
      | THRESHOLD_ACTIVE \<Rightarrow> Inr state)"

fun walk_forward :: "store \<Rightarrow> checker \<Rightarrow> ptr list \<Rightarrow> ThresholdState \<Rightarrow> ThresholdConditionCache \<Rightarrow>
    (ThresholdState \<times> ThresholdConditionCache) result" where
  "walk_forward m ck [] state cache = Inr (state, cache)"
| "walk_forward m ck (p # vToCompute) state cache =
     bindR (next_state m ck state p) (\<lambda>stateNext.
       walk_forward m ck vToCompute stateNext (cache(Some p \<mapsto> stateNext)))"

definition walk_fuel :: "store \<Rightarrow> ptr option \<Rightarrow> nat" where
  "walk_fuel m pindex =
     (case pindex of None \<Rightarrow> 1
      | Some p \<Rightarrow> (case m p of None \<Rightarrow> 1 | Some b \<Rightarrow> nat (nHeight b) + 2))"

definition GetStateFor :: "store \<Rightarrow> checker \<Rightarrow> ptr option \<Rightarrow> ThresholdConditionCache \<Rightarrow>
    (ThresholdState \<times> ThresholdConditionCache) result" where
  "GetStateFor m ck pindexPrev cache =
     bindR (case pindexPrev of None \<Rightarrow> Inr None | Some p \<Rightarrow> period_parent m (Period ck) p) (\<lambda>pindexPrev.
     bindR (walk_back m ck (walk_fuel m pindexPrev) cache pindexPrev []) (\<lambda>(cache, pindexPrev, vToCompute).
       case cache pindexPrev of
         None \<Rightarrow> Inl AssertFailed
       | Some state \<Rightarrow> walk_forward m ck vToCompute state cache))"

subsection \<open>Statistics and heights\<close>

record BIP9Stats =
  st_period :: int
  st_threshold :: int
  st_elapsed :: int
  st_count :: int
  st_possible :: bool

primrec stats_loop :: "store \<Rightarrow> (CBlockIndex \<Rightarrow> bool) \<Rightarrow> int \<Rightarrow> nat \<Rightarrow> ptr option \<Rightarrow> nat \<Rightarrow> nat result" where
  "stats_loop m cond height 0 currentIndex cnt = Inl OutOfFuel"
| "stats_loop m cond height (Suc fuel) currentIndex cnt =
     (case currentIndex of None \<Rightarrow> Inl NullDeref
      | Some p \<Rightarrow> bindR (deref m p) (\<lambda>b.
          if height \<noteq> nHeight b
          then stats_loop m cond height fuel (pprev b) (if cond b then cnt + 1 else cnt)
          else Inr cnt))"

definition GetStateStatisticsFor :: "store \<Rightarrow> checker \<Rightarrow> ptr option \<Rightarrow> BIP9Stats result" where
  "GetStateStatisticsFor m ck pindex =
     (case pindex of
        None \<Rightarrow> Inr \<lparr>st_period = Period ck, st_threshold = Threshold ck, st_elapsed = 0, st_count = 0,
                      st_possible = False\<rparr>
      | Some p \<Rightarrow>
          bindR (deref m p) (\<lambda>b.
          bindR (period_parent m (Period ck) p) (\<lambda>pindexEndOfPrevPeriod.
            case pindexEndOfPrevPeriod of None \<Rightarrow> Inl NullDeref
            | Some q \<Rightarrow> bindR (deref m q) (\<lambda>bq.
                let elapsed = nHeight b - nHeight bq in
                bindR (stats_loop m (Condition ck) (nHeight bq) (nat (nHeight b) + 2) (Some p) 0) (\<lambda>cnt.
                  Inr \<lparr>st_period = Period ck, st_threshold = Threshold ck, st_elapsed = elapsed,
                       st_count = int cnt,
                       st_possible = (Period ck - Threshold ck \<ge> elapsed - int cnt)\<rparr>)))))"

primrec since_loop :: "store \<Rightarrow> checker \<Rightarrow> ThresholdState \<Rightarrow> nat \<Rightarrow> ptr \<Rightarrow> ptr option \<Rightarrow> ThresholdConditionCache \<Rightarrow>
    (ptr \<times> ThresholdConditionCache) result" where
  "since_loop m ck initialState 0 pindexPrev previousPeriodParent cache = Inl OutOfFuel"
| "since_loop m ck initialState (Suc fuel) pindexPrev previousPeriodParent cache =
     (case previousPeriodParent of None \<Rightarrow> Inr (pindexPrev, cache)
      | Some q \<Rightarrow> bindR (GetStateFor m ck (Some q) cache) (\<lambda>(state, cache).
          if state = initialState
          then bindR (previous_period m (Period ck) q) (\<lambda>r. since_loop m ck initialState fuel q r cache)
          else Inr (pindexPrev, cache)))"

definition GetStateSinceHeightFor :: "store \<Rightarrow> checker \<Rightarrow> ptr option \<Rightarrow> ThresholdConditionCache \<Rightarrow>
    (int \<times> ThresholdConditionCache) result" where
  "GetStateSinceHeightFor m ck pindexPrev cache =
     bindR (GetStateFor m ck pindexPrev cache) (\<lambda>(initialState, cache).
       if initialState = THRESHOLD_DEFINED then Inr (0, cache)
       else case pindexPrev of None \<Rightarrow> Inl NullDeref
         | Some p \<Rightarrow> bindR (period_parent m (Period ck) p) (\<lambda>pp.
             case pp of None \<Rightarrow> Inl NullDeref
             | Some q \<Rightarrow> bindR (previous_period m (Period ck) q) (\<lambda>r.
                 bindR (since_loop m ck initialState (walk_fuel m (Some q)) q r cache) (\<lambda>(q, cache).
                 bindR (deref m q) (\<lambda>bq. bindR (i32 (nHeight bq + 1)) (\<lambda>h. Inr (h, cache)))))))"

subsection \<open>Deployments\<close>

definition VERSIONBITS_TOP_BITS :: u32 where "VERSIONBITS_TOP_BITS = 0x20000000"
definition VERSIONBITS_TOP_MASK :: u32 where "VERSIONBITS_TOP_MASK = 0xE0000000"

definition Mask :: "Params \<Rightarrow> DeploymentPos \<Rightarrow> u32" where
  "Mask params pos = push_bit (dep_bit (vDeployments params pos)) 1"

text \<open>
  \<open>Period\<close> and \<open>Threshold\<close> return \<open>int\<close>: the \<open>int64_t\<close> or \<open>uint32_t\<close> value of the conditional is narrowed.
\<close>

definition VersionBitsConditionChecker :: "Params \<Rightarrow> DeploymentPos \<Rightarrow> checker" where
  "VersionBitsConditionChecker params pos =
     (let d = vDeployments params pos in
      \<lparr>Condition = (\<lambda>b. word_of_int (nVersion b) AND VERSIONBITS_TOP_MASK = VERSIONBITS_TOP_BITS \<and>
                        word_of_int (nVersion b) AND Mask params pos \<noteq> 0),
       BeginTime = nStartTime d, EndTime = nTimeout d,
       Period = sint (word_of_int (if nWindowSize d \<noteq> 0 then nWindowSize d
                                   else uint (nMinerConfirmationWindow params)) :: u32),
       Threshold = sint (word_of_int (if nThreshold d \<noteq> 0 then nThreshold d
                                      else uint (nRuleChangeActivationThreshold params)) :: u32)\<rparr>)"

type_synonym VersionBitsCache = "DeploymentPos \<Rightarrow> ThresholdConditionCache"

definition VersionBitsState :: "store \<Rightarrow> ptr option \<Rightarrow> Params \<Rightarrow> DeploymentPos \<Rightarrow> VersionBitsCache \<Rightarrow>
    (ThresholdState \<times> VersionBitsCache) result" where
  "VersionBitsState m pindexPrev params pos caches =
     bindR (GetStateFor m (VersionBitsConditionChecker params pos) pindexPrev (caches pos)) (\<lambda>(s, c).
       Inr (s, caches(pos := c)))"

definition VersionBitsStatistics :: "store \<Rightarrow> ptr option \<Rightarrow> Params \<Rightarrow> DeploymentPos \<Rightarrow> BIP9Stats result" where
  "VersionBitsStatistics m pindexPrev params pos =
     GetStateStatisticsFor m (VersionBitsConditionChecker params pos) pindexPrev"

definition VersionBitsStateSinceHeight :: "store \<Rightarrow> ptr option \<Rightarrow> Params \<Rightarrow> DeploymentPos \<Rightarrow> VersionBitsCache \<Rightarrow>
    (int \<times> VersionBitsCache) result" where
  "VersionBitsStateSinceHeight m pindexPrev params pos caches =
     bindR (GetStateSinceHeightFor m (VersionBitsConditionChecker params pos) pindexPrev (caches pos)) (\<lambda>(h, c).
       Inr (h, caches(pos := c)))"

definition VersionBitsMask :: "Params \<Rightarrow> DeploymentPos \<Rightarrow> u32" where
  "VersionBitsMask params pos = Mask params pos"

definition VersionBitsCache_Clear :: "VersionBitsCache \<Rightarrow> VersionBitsCache" where
  "VersionBitsCache_Clear caches = (\<lambda>_ _. None)"

subsection \<open>The protocol\<close>

definition votes :: "store \<Rightarrow> checker \<Rightarrow> ptr \<Rightarrow> int" where
  "votes m ck p = int (length (filter (Condition ck) (past m (nat (Period ck)) p)))"

text \<open>
  \<open>bip9_state m ck k s\<close>: the blocks that follow the period ending in block \<open>k\<close> (null before the
  genesis block) are in state \<open>s\<close>.
\<close>

inductive bip9_state :: "store \<Rightarrow> checker \<Rightarrow> ptr option \<Rightarrow> ThresholdState \<Rightarrow> bool" for m ck where
  genesis: "bip9_state m ck None THRESHOLD_DEFINED"
| wait: "bip9_state m ck (parents m (nat (Period ck)) p) THRESHOLD_DEFINED \<Longrightarrow>
    mtp m p < BeginTime ck \<Longrightarrow> mtp m p < EndTime ck \<Longrightarrow> bip9_state m ck (Some p) THRESHOLD_DEFINED"
| launch: "bip9_state m ck (parents m (nat (Period ck)) p) THRESHOLD_DEFINED \<Longrightarrow>
    BeginTime ck \<le> mtp m p \<Longrightarrow> mtp m p < EndTime ck \<Longrightarrow> bip9_state m ck (Some p) THRESHOLD_STARTED"
| expire: "bip9_state m ck (parents m (nat (Period ck)) p) s \<Longrightarrow>
    s = THRESHOLD_DEFINED \<or> s = THRESHOLD_STARTED \<Longrightarrow>
    EndTime ck \<le> mtp m p \<Longrightarrow> bip9_state m ck (Some p) THRESHOLD_FAILED"
| vote: "bip9_state m ck (parents m (nat (Period ck)) p) THRESHOLD_STARTED \<Longrightarrow>
    mtp m p < EndTime ck \<Longrightarrow> votes m ck p < Threshold ck \<Longrightarrow> bip9_state m ck (Some p) THRESHOLD_STARTED"
| lock_in: "bip9_state m ck (parents m (nat (Period ck)) p) THRESHOLD_STARTED \<Longrightarrow>
    mtp m p < EndTime ck \<Longrightarrow> Threshold ck \<le> votes m ck p \<Longrightarrow> bip9_state m ck (Some p) THRESHOLD_LOCKED_IN"
| activate: "bip9_state m ck (parents m (nat (Period ck)) p) THRESHOLD_LOCKED_IN \<Longrightarrow>
    bip9_state m ck (Some p) THRESHOLD_ACTIVE"
| active: "bip9_state m ck (parents m (nat (Period ck)) p) THRESHOLD_ACTIVE \<Longrightarrow>
    bip9_state m ck (Some p) THRESHOLD_ACTIVE"
| failed: "bip9_state m ck (parents m (nat (Period ck)) p) THRESHOLD_FAILED \<Longrightarrow>
    bip9_state m ck (Some p) THRESHOLD_FAILED"

inductive_cases bip9_NoneE: "bip9_state m ck None s"
inductive_cases bip9_SomeE: "bip9_state m ck (Some p) s"

lemma bip9_unique: "bip9_state m ck k s \<Longrightarrow> bip9_state m ck k s' \<Longrightarrow> s' = s"
proof (induction arbitrary: s' rule: bip9_state.induct)
  case genesis
  then show ?case by (rule bip9_NoneE)
next
  case (wait p)
  from wait.prems show ?case by (rule bip9_SomeE) (use wait.hyps in \<open>auto dest!: wait.IH\<close>)
next
  case (launch p)
  from launch.prems show ?case by (rule bip9_SomeE) (use launch.hyps in \<open>auto dest!: launch.IH\<close>)
next
  case (expire p s)
  from expire.prems show ?case by (rule bip9_SomeE) (use expire.hyps in \<open>auto dest!: expire.IH\<close>)
next
  case (vote p)
  from vote.prems show ?case by (rule bip9_SomeE) (use vote.hyps in \<open>auto dest!: vote.IH\<close>)
next
  case (lock_in p)
  from lock_in.prems show ?case by (rule bip9_SomeE) (use lock_in.hyps in \<open>auto dest!: lock_in.IH\<close>)
next
  case (activate p)
  from activate.prems show ?case by (rule bip9_SomeE) (use activate.hyps in \<open>auto dest!: activate.IH\<close>)
next
  case (active p)
  from active.prems show ?case by (rule bip9_SomeE) (use active.hyps in \<open>auto dest!: active.IH\<close>)
next
  case (failed p)
  from failed.prems show ?case by (rule bip9_SomeE) (use failed.hyps in \<open>auto dest!: failed.IH\<close>)
qed

definition good_checker :: "checker \<Rightarrow> bool" where
  "good_checker ck \<longleftrightarrow> 0 < Period ck \<and> Period ck \<le> INT32_MAX \<and> BeginTime ck \<le> EndTime ck"

definition period_end :: "store \<Rightarrow> checker \<Rightarrow> ptr option \<Rightarrow> bool" where
  "period_end m ck k \<longleftrightarrow>
     (case k of None \<Rightarrow> True | Some p \<Rightarrow> (\<exists>b. m p = Some b \<and> (nHeight b + 1) mod Period ck = 0))"

definition cache_ok :: "store \<Rightarrow> checker \<Rightarrow> ThresholdConditionCache \<Rightarrow> bool" where
  "cache_ok m ck cache \<longleftrightarrow> (\<forall>k s. cache k = Some s \<longrightarrow> bip9_state m ck k s)"

lemma cache_ok_upd: "cache_ok m ck cache \<Longrightarrow> bip9_state m ck k s \<Longrightarrow> cache_ok m ck (cache(k \<mapsto> s))"
  by (auto simp: cache_ok_def)

lemma period_height:
  assumes "good_checker ck" and "wf_store m" and "m p = Some b" and "(nHeight b + 1) mod Period ck = 0"
  shows "Period ck \<le> nHeight b + 1"
proof -
  have "0 < nHeight b + 1" using wf_height [OF assms(2,3)] by simp
  with assms(4) show ?thesis by (meson dvd_eq_mod_eq_0 zdvd_imp_le)
qed

lemma previous_period_eq:
  assumes "good_checker ck" and "wf_store m" and "m p = Some b" and "Period ck \<le> nHeight b + 1"
  shows "previous_period m (Period ck) p = Inr (parents m (nat (Period ck)) p)"
proof -
  have P: "0 < Period ck" using assms(1) by (simp add: good_checker_def)
  have "in_int32 (nHeight b - Period ck)" using wf_height [OF assms(2,3)] assms(4) P by (auto simp: range_simps)
  moreover have "GetAncestor m p (nHeight b - Period ck) = Inr (parents m (nat (Period ck)) p)"
  proof (cases "0 \<le> nHeight b - Period ck")
    case True
    then show ?thesis using GetAncestor_correct [OF assms(2,3)] P by simp
  next
    case False
    then have "int (nat (Period ck)) > nHeight b" using P by simp
    from parents_none [OF assms(2,3) this] show ?thesis using GetAncestor_correct [OF assms(2,3)] False by simp
  qed
  ultimately show ?thesis using assms(3) by (simp add: previous_period_def)
qed

lemma period_end_prev:
  assumes "good_checker ck" and "wf_store m" and "m p = Some b" and "(nHeight b + 1) mod Period ck = 0"
  shows "period_end m ck (parents m (nat (Period ck)) p)"
proof (cases "parents m (nat (Period ck)) p")
  case (Some q)
  from parents_height [OF assms(2,3) Some] obtain bq where q: "m q = Some bq" "nHeight bq = nHeight b - Period ck"
    using assms(1) by (auto simp: good_checker_def)
  have "(nHeight bq + 1) mod Period ck = (nHeight b + 1 - Period ck) mod Period ck"
    by (simp only: q(2)) (simp add: algebra_simps)
  then have "(nHeight bq + 1) mod Period ck = 0"
    using assms(4) by (simp only: minus_mod_self2)
  then show ?thesis using Some q(1) by (simp add: period_end_def)
qed (simp add: period_end_def)

lemma count_loop_eq:
  assumes "wf_store m"
  shows "m p = Some b \<Longrightarrow> int k \<le> nHeight b + 1 \<Longrightarrow>
    count_loop m cond k (Some p) c = Inr (c + length (filter cond (past m k p)))"
proof (induction k arbitrary: p b c)
  case (Suc k)
  show ?case
  proof (cases "k = 0")
    case True
    then show ?thesis using Suc.prems(1) by (simp add: past_single del: past.simps)
  next
    case False
    obtain q bq where "pprev b = Some q" "m q = Some bq" "nHeight bq = nHeight b - 1" "past m (Suc k) p = b # past m k q"
      using past_Suc [OF assms Suc.prems(1) _ False] Suc.prems(2) by auto
    then show ?thesis using Suc.IH [of q bq] Suc.prems by simp
  qed
qed simp

lemma next_state_bip9:
  assumes "good_checker ck" and "wf_store m" and "m p = Some b" and "(nHeight b + 1) mod Period ck = 0"
    and "bip9_state m ck (parents m (nat (Period ck)) p) s"
  shows "\<exists>s'. next_state m ck s p = Inr s' \<and> bip9_state m ck (Some p) s'"
proof -
  have t: "GetMedianTimePast m p = Inr (mtp m p)" by (rule GetMedianTimePast_mtp [OF assms(2,3)])
  have c: "count_loop m (Condition ck) (nat (Period ck)) (Some p) 0 =
      Inr (length (filter (Condition ck) (past m (nat (Period ck)) p)))"
    using count_loop_eq [OF assms(2,3), of "nat (Period ck)"] period_height [OF assms(1-4)] assms(1)
    by (simp add: good_checker_def)
  show ?thesis
  proof (cases s)
    case THRESHOLD_DEFINED
    then show ?thesis using t assms(5) by (auto simp: next_state_def intro: wait launch expire)
  next
    case THRESHOLD_STARTED
    then show ?thesis using t c assms(5) by (auto simp: next_state_def votes_def intro!: vote lock_in intro: expire)
  next
    case THRESHOLD_LOCKED_IN
    then show ?thesis using assms(5) by (auto simp: next_state_def intro: activate)
  next
    case THRESHOLD_ACTIVE
    then show ?thesis using assms(5) by (auto simp: next_state_def intro: active)
  next
    case THRESHOLD_FAILED
    then show ?thesis using assms(5) by (auto simp: next_state_def intro: failed)
  qed
qed

lemma before_start:
  assumes "good_checker ck" and "wf_store m" and "times_ok m"
  shows "m p = Some b \<Longrightarrow> (nHeight b + 1) mod Period ck = 0 \<Longrightarrow> mtp m p < BeginTime ck \<Longrightarrow>
    bip9_state m ck (Some p) THRESHOLD_DEFINED"
proof (induction "nat (nHeight b)" arbitrary: p b rule: less_induct)
  case less
  let ?q = "parents m (nat (Period ck)) p"
  have "bip9_state m ck ?q THRESHOLD_DEFINED"
  proof (cases ?q)
    case None
    then show ?thesis by (simp add: genesis)
  next
    case (Some q)
    from parents_height [OF assms(2) less.prems(1) Some] obtain bq where
      q: "m q = Some bq" "nHeight bq = nHeight b - int (nat (Period ck))" by auto
    have e: "(nHeight bq + 1) mod Period ck = 0"
      using period_end_prev [OF assms(1,2) less.prems(1,2)] Some q(1) by (simp add: period_end_def)
    have t: "mtp m q < BeginTime ck"
      using mtp_ancestor [OF assms(2,3) less.prems(1) Some] less.prems(3) by simp
    have "nat (nHeight bq) < nat (nHeight b)"
      using q assms(1) wf_height [OF assms(2) q(1)] by (simp add: good_checker_def)
    from less.hyps [OF this q(1) e t] show ?thesis using Some by simp
  qed
  then show ?case using less.prems(3) assms(1) by (intro wait) (auto simp: good_checker_def)
qed

subsection \<open>The cached computation\<close>

fun period_path :: "store \<Rightarrow> checker \<Rightarrow> ptr option \<Rightarrow> ptr list \<Rightarrow> ptr option \<Rightarrow> bool" where
  "period_path m ck k [] l \<longleftrightarrow> k = l"
| "period_path m ck k (p # ps) l \<longleftrightarrow>
     period_end m ck (Some p) \<and> parents m (nat (Period ck)) p = k \<and> period_path m ck (Some p) ps l"

lemma walk_forward_bip9:
  assumes "good_checker ck" and "wf_store m"
  shows "period_path m ck k ps l \<Longrightarrow> bip9_state m ck k s \<Longrightarrow> cache_ok m ck cache \<Longrightarrow>
    \<exists>s' cache'. walk_forward m ck ps s cache = Inr (s', cache') \<and> bip9_state m ck l s' \<and> cache_ok m ck cache'"
proof (induction ps arbitrary: k s cache)
  case (Cons p ps)
  then obtain b where b: "m p = Some b" "(nHeight b + 1) mod Period ck = 0" by (auto simp: period_end_def)
  obtain s' where s': "next_state m ck s p = Inr s'" "bip9_state m ck (Some p) s'"
    using next_state_bip9 [OF assms b] Cons.prems by auto
  have "period_path m ck (Some p) ps l" using Cons.prems(1) by simp
  from Cons.IH [OF this s'(2) cache_ok_upd [OF Cons.prems(3) s'(2)]] obtain s2 c2 where
    "walk_forward m ck ps s' (cache(Some p \<mapsto> s')) = Inr (s2, c2)" "bip9_state m ck l s2" "cache_ok m ck c2" by blast
  then show ?case using s'(1) by simp
qed simp

lemma walk_back_path:
  assumes "good_checker ck" and "wf_store m" and "times_ok m"
  shows "cache_ok m ck cache \<Longrightarrow> period_end m ck k \<Longrightarrow> period_path m ck k ps l \<Longrightarrow> walk_fuel m k \<le> fuel \<Longrightarrow>
    \<exists>cache' k' ps' s. walk_back m ck fuel cache k ps = Inr (cache', k', ps') \<and> cache_ok m ck cache' \<and>
      cache' k' = Some s \<and> period_path m ck k' ps' l"
proof (induction fuel arbitrary: k ps)
  case 0
  then show ?case by (auto simp: walk_fuel_def split: option.splits)
next
  case (Suc fuel)
  show ?case
  proof (cases "cache k")
    case (Some s)
    then show ?thesis using Suc.prems by auto
  next
    case None
    show ?thesis
    proof (cases k)
      case kN: None
      then show ?thesis using None Suc.prems cache_ok_upd [OF Suc.prems(1) genesis] by auto
    next
      case (Some p)
      then obtain b where b: "m p = Some b" "(nHeight b + 1) mod Period ck = 0"
        using Suc.prems(2) by (auto simp: period_end_def)
      have t: "GetMedianTimePast m p = Inr (mtp m p)" by (rule GetMedianTimePast_mtp [OF assms(2) b(1)])
      show ?thesis
      proof (cases "mtp m p < BeginTime ck")
        case True
        then show ?thesis using None Some t Suc.prems cache_ok_upd [OF Suc.prems(1) before_start [OF assms b True]] by auto
      next
        case False
        let ?q = "parents m (nat (Period ck)) p"
        have prev: "previous_period m (Period ck) p = Inr ?q"
          using previous_period_eq [OF assms(1,2) b(1)] period_height [OF assms(1,2) b] by simp
        have "walk_fuel m ?q \<le> fuel"
        proof (cases ?q)
          case qN: None
          then show ?thesis using Suc.prems(4) Some b(1) by (simp add: walk_fuel_def)
        next
          case qS: (Some q)
          from parents_height [OF assms(2) b(1) qS] obtain bq where
            q: "m q = Some bq" "nHeight bq = nHeight b - int (nat (Period ck))" by auto
          have "nat (nHeight bq) < nat (nHeight b)"
            using q assms(1) wf_height [OF assms(2) q(1)] by (simp add: good_checker_def)
          moreover have "nat (nHeight b) + 1 \<le> fuel" using Suc.prems(4) Some b(1) by (simp add: walk_fuel_def)
          ultimately have "nat (nHeight bq) + 2 \<le> fuel" by linarith
          then show ?thesis using qS q(1) by (simp add: walk_fuel_def)
        qed
        moreover have "period_path m ck ?q (p # ps) l" using Suc.prems(2,3) Some by simp
        ultimately show ?thesis
          using Suc.IH [OF Suc.prems(1) period_end_prev [OF assms(1,2) b], of "p # ps"] None Some t False prev by auto
      qed
    qed
  qed
qed

definition state_key :: "store \<Rightarrow> checker \<Rightarrow> ptr option \<Rightarrow> ptr option" where
  "state_key m ck pindexPrev =
     (case pindexPrev of None \<Rightarrow> None
      | Some p \<Rightarrow> parents m (nat ((height_of m p + 1) mod Period ck)) p)"

lemma period_parent_eq:
  assumes "good_checker ck" and "wf_store m" and "m p = Some b" and "nHeight b < INT32_MAX"
  shows "period_parent m (Period ck) p = Inr (state_key m ck (Some p)) \<and> period_end m ck (state_key m ck (Some p))"
proof -
  define r where "r = (nHeight b + 1) mod Period ck"
  have P: "0 < Period ck" using assms(1) by (simp add: good_checker_def)
  have h: "0 \<le> nHeight b" using wf_height [OF assms(2,3)] by simp
  have r: "0 \<le> r" "r \<le> nHeight b + 1" using P h zmod_le_nonneg_dividend [of "nHeight b + 1"] by (simp_all add: r_def)
  have k: "state_key m ck (Some p) = parents m (nat r) p" using assms(3) by (simp add: state_key_def height_of_def r_def)
  have "GetAncestor m p (nHeight b - r) = Inr (parents m (nat r) p)"
  proof (cases "r \<le> nHeight b")
    case True
    then show ?thesis using GetAncestor_correct [OF assms(2,3)] r by simp
  next
    case False
    then have "int (nat r) > nHeight b" using r by simp
    from parents_none [OF assms(2,3) this] show ?thesis using GetAncestor_correct [OF assms(2,3)] False by simp
  qed
  moreover have "in_int32 (nHeight b + 1)" using h assms(4) by (auto simp: range_simps)
  moreover have "(nHeight b + 1) smod Period ck = r" using P h by (simp add: smod_nonneg r_def)
  ultimately have "period_parent m (Period ck) p = Inr (parents m (nat r) p)"
    using assms(3) P by (simp add: period_parent_def)
  moreover have "period_end m ck (parents m (nat r) p)"
  proof (cases "parents m (nat r) p")
    case (Some q)
    from parents_height [OF assms(2,3) Some] obtain bq where "m q = Some bq" "nHeight bq = nHeight b - r" using r by auto
    moreover have "(nHeight b + 1 - r) mod Period ck = 0" by (simp add: r_def minus_mod_eq_mult_div)
    then have "(nHeight b - r + 1) mod Period ck = 0" by (simp add: diff_add_eq)
    ultimately show ?thesis using Some by (simp add: period_end_def)
  qed (simp add: period_end_def)
  ultimately show ?thesis using k by simp
qed

lemma GetStateFor_eq:
  assumes "good_checker ck" and "wf_store m" and "times_ok m" and "cache_ok m ck cache"
    and "\<forall>p. pindexPrev = Some p \<longrightarrow> (\<exists>b. m p = Some b \<and> nHeight b < INT32_MAX)"
  shows "\<exists>s cache'. GetStateFor m ck pindexPrev cache = Inr (s, cache') \<and>
    bip9_state m ck (state_key m ck pindexPrev) s \<and> cache_ok m ck cache'"
proof -
  let ?k = "state_key m ck pindexPrev"
  have k: "(case pindexPrev of None \<Rightarrow> Inr None | Some p \<Rightarrow> period_parent m (Period ck) p) = Inr ?k \<and> period_end m ck ?k"
  proof (cases pindexPrev)
    case (Some p)
    then show ?thesis using period_parent_eq [OF assms(1,2), of p] assms(5) by auto
  qed (simp add: state_key_def period_end_def)
  then have pp: "(case pindexPrev of None \<Rightarrow> Inr None | Some p \<Rightarrow> period_parent m (Period ck) p) = Inr ?k"
    and pe: "period_end m ck ?k" by simp_all
  obtain cache' k' ps s where w: "walk_back m ck (walk_fuel m ?k) cache ?k [] = Inr (cache', k', ps)"
    "cache_ok m ck cache'" "cache' k' = Some s" "period_path m ck k' ps ?k"
    using walk_back_path [OF assms(1-4) pe, of "[]" ?k "walk_fuel m ?k"] by auto
  have "bip9_state m ck k' s" using w(2,3) by (simp add: cache_ok_def)
  from walk_forward_bip9 [OF assms(1,2) w(4) this w(2)] show ?thesis
    using w pp by (auto simp: GetStateFor_def)
qed

subsection \<open>Since when\<close>

lemma state_key_end:
  assumes "m q = Some bq" and "(nHeight bq + 1) mod Period ck = 0"
  shows "state_key m ck (Some q) = Some q"
  using assms by (simp add: state_key_def height_of_def)

lemma since_loop_eq:
  assumes "good_checker ck" and "wf_store m" and "times_ok m" and "s \<noteq> THRESHOLD_DEFINED"
  shows "m q = Some bq \<Longrightarrow> (nHeight bq + 1) mod Period ck = 0 \<Longrightarrow> nHeight bq < INT32_MAX \<Longrightarrow> cache_ok m ck cache \<Longrightarrow>
    bip9_state m ck (Some q) s \<Longrightarrow> nat (nHeight bq) < fuel \<Longrightarrow>
    \<exists>n q' cache'. since_loop m ck s fuel q (parents m (nat (Period ck)) q) cache = Inr (q', cache') \<and>
      cache_ok m ck cache' \<and> parents m (n * nat (Period ck)) q = Some q' \<and>
      (\<forall>j \<le> n. bip9_state m ck (parents m (j * nat (Period ck)) q) s) \<and>
      (\<exists>s'. s' \<noteq> s \<and> bip9_state m ck (parents m (Suc n * nat (Period ck)) q) s')"
proof (induction fuel arbitrary: q bq cache)
  case (Suc fuel)
  let ?P = "nat (Period ck)"
  show ?case
  proof (cases "parents m ?P q")
    case None
    then show ?thesis using Suc.prems assms(4) genesis
      by - (rule exI [of _ 0], rule exI [of _ q], rule exI [of _ cache], auto intro: exI [of _ THRESHOLD_DEFINED])
  next
    case (Some r)
    from parents_height [OF assms(2) Suc.prems(1) Some] obtain br where
      r: "m r = Some br" "nHeight br = nHeight bq - int ?P" by auto
    have P: "0 < Period ck" using assms(1) by (simp add: good_checker_def)
    have re: "(nHeight br + 1) mod Period ck = 0"
      using period_end_prev [OF assms(1,2) Suc.prems(1,2)] Some r(1) by (simp add: period_end_def)
    have rh: "nHeight br < INT32_MAX" "nat (nHeight br) < fuel"
      using r(2) P Suc.prems(3,6) wf_height [OF assms(2) r(1)] by auto
    obtain s' cache' where g: "GetStateFor m ck (Some r) cache = Inr (s', cache')"
      "bip9_state m ck (Some r) s'" "cache_ok m ck cache'"
      using GetStateFor_eq [OF assms(1-3) Suc.prems(4), of "Some r"] r(1) rh(1) state_key_end [of m r br ck] re by auto
    show ?thesis
    proof (cases "s' = s")
      case False
      then show ?thesis using g Some Suc.prems(5)
        by - (rule exI [of _ 0], rule exI [of _ q], rule exI [of _ cache'], auto)
    next
      case True
      have rs: "bip9_state m ck (Some r) s" using g(2) True by simp
      from Suc.IH [OF r(1) re rh(1) g(3) rs rh(2)] obtain n q' c' where
        n: "since_loop m ck s fuel r (parents m ?P r) cache' = Inr (q', c')" "cache_ok m ck c'"
        "parents m (n * ?P) r = Some q'" "\<forall>j \<le> n. bip9_state m ck (parents m (j * ?P) r) s"
        "\<exists>s'. s' \<noteq> s \<and> bip9_state m ck (parents m (Suc n * ?P) r) s'" by blast
      have up: "parents m (Suc j * ?P) q = parents m (j * ?P) r" for j
        using parents_add [of m ?P "j * ?P" q] Some by simp
      have prev: "previous_period m (Period ck) r = Inr (parents m ?P r)"
        using previous_period_eq [OF assms(1,2) r(1)] period_height [OF assms(1,2) r(1) re] by simp
      have step: "since_loop m ck s (Suc fuel) q (parents m ?P q) cache = Inr (q', c')"
        using Some g(1) True prev n(1) by simp
      have all: "bip9_state m ck (parents m (j * ?P) q) s" if "j \<le> Suc n" for j
        using that n(4) up Suc.prems(5) by (cases j) (simp, metis Suc_le_mono)
      show ?thesis
        unfolding step using n(2,3,5) all
        by - (rule exI [of _ "Suc n"], rule exI [of _ q'], rule exI [of _ c'], simp add: up del: mult_Suc)
    qed
  qed
qed simp

lemma GetStateSinceHeightFor_eq:
  assumes "good_checker ck" and "wf_store m" and "times_ok m" and "cache_ok m ck cache"
    and "m p = Some b" and "nHeight b < INT32_MAX" and "bip9_state m ck (state_key m ck (Some p)) s"
  shows "\<exists>h cache'. GetStateSinceHeightFor m ck (Some p) cache = Inr (h, cache') \<and> cache_ok m ck cache' \<and>
    (if s = THRESHOLD_DEFINED then h = 0
     else \<exists>n k q. state_key m ck (Some p) = Some k \<and> parents m (n * nat (Period ck)) k = Some q \<and> h = height_of m q + 1 \<and>
       (\<forall>j \<le> n. bip9_state m ck (parents m (j * nat (Period ck)) k) s) \<and>
       \<not> bip9_state m ck (parents m (Suc n * nat (Period ck)) k) s)"
proof -
  obtain cache1 where g: "GetStateFor m ck (Some p) cache = Inr (s, cache1)" "cache_ok m ck cache1"
    using GetStateFor_eq [OF assms(1-4), of "Some p"] assms(5-7) bip9_unique by fastforce
  show ?thesis
  proof (cases "s = THRESHOLD_DEFINED")
    case True
    then show ?thesis using g by (simp add: GetStateSinceHeightFor_def)
  next
    case False
    have pp: "period_parent m (Period ck) p = Inr (state_key m ck (Some p))" "period_end m ck (state_key m ck (Some p))"
      using period_parent_eq [OF assms(1,2,5,6)] by simp_all
    obtain k where k: "state_key m ck (Some p) = Some k"
      using assms(7) False bip9_unique [OF genesis] by (cases "state_key m ck (Some p)") auto
    obtain bk where bk: "m k = Some bk" "(nHeight bk + 1) mod Period ck = 0" using pp(2) k by (auto simp: period_end_def)
    have "nHeight bk \<le> nHeight b"
    proof -
      have "parents m (nat ((height_of m p + 1) mod Period ck)) p = Some k" using k by (simp add: state_key_def)
      from parents_height [OF assms(2,5) this] bk(1) show ?thesis by auto
    qed
    then have bh: "nHeight bk < INT32_MAX" using assms(6) by simp
    have prev: "previous_period m (Period ck) k = Inr (parents m (nat (Period ck)) k)"
      using previous_period_eq [OF assms(1,2) bk(1)] period_height [OF assms(1,2) bk] by simp
    have ks: "bip9_state m ck (Some k) s" using assms(7) k by simp
    have f: "nat (nHeight bk) < walk_fuel m (Some k)" using bk(1) by (simp add: walk_fuel_def)
    from since_loop_eq [OF assms(1-3) False bk bh g(2) ks f] obtain n q c2 s' where
      n: "since_loop m ck s (walk_fuel m (Some k)) k (parents m (nat (Period ck)) k) cache1 = Inr (q, c2)"
      "cache_ok m ck c2" "parents m (n * nat (Period ck)) k = Some q"
      "\<forall>j \<le> n. bip9_state m ck (parents m (j * nat (Period ck)) k) s"
      "s' \<noteq> s" "bip9_state m ck (parents m (Suc n * nat (Period ck)) k) s'" by blast
    have nots: "\<not> bip9_state m ck (parents m (Suc n * nat (Period ck)) k) s" using n(5,6) bip9_unique by blast
    from parents_height [OF assms(2) bk(1) n(3)] obtain bq where q: "m q = Some bq" "nHeight bq \<le> nHeight bk" by auto
    have "in_int32 (nHeight bq + 1)" using q bh wf_height [OF assms(2) q(1)] by (auto simp: range_simps)
    then have "GetStateSinceHeightFor m ck (Some p) cache = Inr (height_of m q + 1, c2)"
      using g(1) False pp(1) k prev n(1) q(1) by (simp add: GetStateSinceHeightFor_def height_of_def)
    then show ?thesis using n(2-4) nots k False by auto
  qed
qed

subsection \<open>Statistics\<close>

lemma stats_loop_eq:
  assumes "wf_store m"
  shows "m p = Some b \<Longrightarrow> 0 \<le> h \<Longrightarrow> h \<le> nHeight b \<Longrightarrow> nat (nHeight b) < fuel \<Longrightarrow>
    stats_loop m cond h fuel (Some p) c = Inr (c + length (filter cond (past m (nat (nHeight b - h)) p)))"
proof (induction fuel arbitrary: p b c)
  case (Suc fuel)
  show ?case
  proof (cases "h = nHeight b")
    case False
    then have pos: "0 < nHeight b" using Suc.prems by simp
    obtain q bq where q: "pprev b = Some q" "m q = Some bq" "nHeight bq = nHeight b - 1"
      using wf_prev_exists [OF assms Suc.prems(1) pos] by auto
    have "nat (nHeight b - h) = Suc (nat (nHeight bq - h))" using q(3) False Suc.prems by simp
    then show ?thesis using Suc.IH [OF q(2)] q Suc.prems False by auto
  qed (use Suc.prems in simp)
qed simp

text \<open>C3. The cached computation of a deployment state returns, with a cache that holds any true
  entries and however much of the chain it has to walk, exactly the state that the BIP 9 rules
  assign to the period, and leaves a cache whose entries are again true. Stopping at the first
  period before the start time, as the code does, is justified by the median time rule.\<close>

theorem GetStateFor_follows_bip9:
  assumes "good_checker ck" and "wf_store m" and "times_ok m" and "cache_ok m ck cache"
    and "\<forall>p. pindexPrev = Some p \<longrightarrow> (\<exists>b. m p = Some b \<and> nHeight b < INT32_MAX)"
  shows "\<exists>s cache'. GetStateFor m ck pindexPrev cache = Inr (s, cache') \<and>
    bip9_state m ck (state_key m ck pindexPrev) s \<and> cache_ok m ck cache' \<and>
    (\<forall>s'. bip9_state m ck (state_key m ck pindexPrev) s' \<longrightarrow> s' = s)"
  using GetStateFor_eq [OF assms] bip9_unique by blast

definition lone_store :: store where
  "lone_store = [0 \<mapsto> CBlockIndex_null]"

definition lone_checker :: checker where
  "lone_checker = \<lparr>Condition = (\<lambda>_. False), BeginTime = 0, EndTime = 100, Period = 1, Threshold = 1\<rparr>"

lemma lone_ok:
  "good_checker lone_checker" "wf_store lone_store" "times_ok lone_store" "cache_ok lone_store lone_checker (\<lambda>_. None)"
  "lone_store 0 = Some CBlockIndex_null" "nHeight CBlockIndex_null = 0"
  by (auto simp: good_checker_def lone_checker_def range_simps wf_store_def wf_entry_def lone_store_def CBlockIndex_null_def
      times_ok_def cache_ok_def split: if_splits)

theorem GetStateFor_follows_bip9_witness:
  "\<exists>s cache'. GetStateFor lone_store lone_checker (Some 0) (\<lambda>_. None) = Inr (s, cache') \<and>
    cache_ok lone_store lone_checker cache'"
  using GetStateFor_follows_bip9 [OF lone_ok(1-4), of "Some 0"] lone_ok(5,6) by (auto simp: range_simps)

lemma bip9_settled:
  "bip9_state m ck (Some k) s \<Longrightarrow> s \<in> {THRESHOLD_ACTIVE, THRESHOLD_FAILED} \<Longrightarrow>
   parents m (n * nat (Period ck)) kq = Some k \<Longrightarrow> bip9_state m ck (Some kq) s"
proof (induction n arbitrary: kq)
  case (Suc n)
  have "parents m (nat (Period ck) + n * nat (Period ck)) kq = Some k" using Suc.prems(3) by simp
  then obtain k1 where k1: "parents m (nat (Period ck)) kq = Some k1" "parents m (n * nat (Period ck)) k1 = Some k"
    by (auto simp: parents_add bind_eq_Some_conv)
  have "bip9_state m ck (parents m (nat (Period ck)) kq) s" using Suc.IH [OF Suc.prems(1,2) k1(2)] k1(1) by simp
  then show ?case using Suc.prems(2) by (auto intro: bip9_state.active bip9_state.failed)
qed simp

lemma bip9_timeout: "bip9_state m ck (Some k) s \<Longrightarrow> EndTime ck \<le> mtp m k \<Longrightarrow> s \<in> {THRESHOLD_ACTIVE, THRESHOLD_FAILED}"
  by (erule bip9_SomeE) auto

text \<open>C36. No deployment stays open: once the median time at the end of a period has reached the timeout,
  the state is \<open>ACTIVE\<close> or \<open>FAILED\<close> from the next block on, and every block that descends from there
  gets the same answer, whatever true entries its cache holds.\<close>

theorem deployment_settles:
  assumes "good_checker ck" and "wf_store m" and "times_ok m"
    and "m k = Some bk" and "nHeight bk < INT32_MAX" and "(nHeight bk + 1) mod Period ck = 0"
    and "GetMedianTimePast m k = Inr t" and "EndTime ck \<le> t"
  shows "\<exists>s \<in> {THRESHOLD_ACTIVE, THRESHOLD_FAILED}. \<forall>q bq kq n cache.
    m q = Some bq \<and> nHeight bq < INT32_MAX \<and> state_key m ck (Some q) = Some kq \<and>
    parents m (n * nat (Period ck)) kq = Some k \<and> cache_ok m ck cache \<longrightarrow>
    (\<exists>cache'. GetStateFor m ck (Some q) cache = Inr (s, cache'))"
proof -
  have "cache_ok m ck (\<lambda>_. None)" by (simp add: cache_ok_def)
  from GetStateFor_eq [OF assms(1-3) this, of "Some k"] obtain s where s: "bip9_state m ck (Some k) s"
    using assms(4,5) state_key_end [where m = m and q = k and ck = ck, OF assms(4,6)] by auto
  have "mtp m k = t" using GetMedianTimePast_mtp [OF assms(2,4)] assms(7) by simp
  then have fin: "s \<in> {THRESHOLD_ACTIVE, THRESHOLD_FAILED}" using bip9_timeout [OF s] assms(8) by simp
  have "\<exists>cache'. GetStateFor m ck (Some q) cache = Inr (s, cache')"
    if q: "m q = Some bq" "nHeight bq < INT32_MAX" "state_key m ck (Some q) = Some kq"
      "parents m (n * nat (Period ck)) kq = Some k" "cache_ok m ck cache" for q bq kq n cache
  proof -
    obtain s' cache' where g: "GetStateFor m ck (Some q) cache = Inr (s', cache')" "bip9_state m ck (Some kq) s'"
      using GetStateFor_eq [OF assms(1-3) q(5), of "Some q"] q(1-3) by auto
    have "s' = s" using bip9_unique [OF bip9_settled [OF s fin q(4)] g(2)] .
    then show ?thesis using g(1) by blast
  qed
  then show ?thesis using fin by blast
qed

theorem deployment_settles_witness:
  "\<exists>s \<in> {THRESHOLD_ACTIVE, THRESHOLD_FAILED}. \<exists>cache'.
    GetStateFor lone_store (lone_checker\<lparr>EndTime := 0\<rparr>) (Some 0) (\<lambda>_. None) = Inr (s, cache')"
proof -
  let ?ck = "lone_checker\<lparr>EndTime := 0\<rparr>"
  have c: "good_checker ?ck" "cache_ok lone_store ?ck (\<lambda>_. None)"
    by (simp_all add: good_checker_def lone_checker_def cache_ok_def range_simps)
  have e: "(nHeight CBlockIndex_null + 1) mod Period ?ck = 0" by (simp add: lone_checker_def)
  have t: "GetMedianTimePast lone_store 0 = Inr 0" by code_simp
  have k: "state_key lone_store ?ck (Some 0) = Some 0" using e lone_ok(5) by (intro state_key_end)
  have h: "nHeight CBlockIndex_null < INT32_MAX" "EndTime ?ck \<le> 0" using lone_ok(6) by (simp_all add: INT32_MAX_def)
  from deployment_settles [OF c(1) lone_ok(2,3,5) h(1) e t h(2)] obtain s where s: "s \<in> {THRESHOLD_ACTIVE, THRESHOLD_FAILED}"
    "\<And>q bq kq n cache. lone_store q = Some bq \<and> nHeight bq < INT32_MAX \<and> state_key lone_store ?ck (Some q) = Some kq \<and>
      parents lone_store (n * nat (Period ?ck)) kq = Some 0 \<and> cache_ok lone_store ?ck cache \<Longrightarrow>
      \<exists>cache'. GetStateFor lone_store ?ck (Some q) cache = Inr (s, cache')" by blast
  have "parents lone_store (0 * nat (Period ?ck)) 0 = Some 0" by simp
  then show ?thesis using s(1) s(2) [of 0 CBlockIndex_null 0 0 "\<lambda>_. None"] k h(1) lone_ok(5) c(2) by blast
qed

text \<open>\<open>GetStateSinceHeightFor\<close> returns the height of the first block of the unbroken run of
  periods in the current state: every period from there on has the state, and the period before
  does not. In the state \<open>DEFINED\<close> it returns zero. It never dereferences a null pointer.\<close>

theorem GetStateSinceHeightFor_run:
  assumes "good_checker ck" and "wf_store m" and "times_ok m" and "cache_ok m ck cache"
    and "m p = Some b" and "nHeight b < INT32_MAX" and "bip9_state m ck (state_key m ck (Some p)) s"
  shows "\<exists>h cache'. GetStateSinceHeightFor m ck (Some p) cache = Inr (h, cache') \<and> cache_ok m ck cache' \<and>
    (if s = THRESHOLD_DEFINED then h = 0
     else \<exists>n k q. state_key m ck (Some p) = Some k \<and> parents m (n * nat (Period ck)) k = Some q \<and> h = height_of m q + 1 \<and>
       (\<forall>j \<le> n. bip9_state m ck (parents m (j * nat (Period ck)) k) s) \<and>
       \<not> bip9_state m ck (parents m (Suc n * nat (Period ck)) k) s)"
  by (rule GetStateSinceHeightFor_eq [OF assms])

theorem GetStateSinceHeightFor_run_witness:
  "\<exists>h cache'. GetStateSinceHeightFor lone_store lone_checker (Some 0) (\<lambda>_. None) = Inr (h, cache')"
proof -
  obtain s where "bip9_state lone_store lone_checker (state_key lone_store lone_checker (Some 0)) s"
    using GetStateFor_eq [OF lone_ok(1-4), of "Some 0"] lone_ok(5,6) by (auto simp: range_simps)
  from GetStateSinceHeightFor_run [OF lone_ok(1-5) _ this] lone_ok(6) show ?thesis by (auto simp: range_simps)
qed

text \<open>The statistics of a period count exactly the signalling blocks since its start. A block of
  the very first period has no preceding period end, and the code then follows a null pointer.\<close>

theorem GetStateStatisticsFor_value:
  assumes "good_checker ck" and "wf_store m" and "m p = Some b" and "nHeight b < INT32_MAX"
    and "r = (nHeight b + 1) mod Period ck" and "n = length (filter (Condition ck) (past m (nat r) p))"
  shows "GetStateStatisticsFor m ck (Some p) =
    (if nHeight b + 1 < Period ck then Inl NullDeref
     else Inr \<lparr>st_period = Period ck, st_threshold = Threshold ck, st_elapsed = r, st_count = int n,
               st_possible = (r - int n \<le> Period ck - Threshold ck)\<rparr>)"
proof -
  have P: "0 < Period ck" using assms(1) by (simp add: good_checker_def)
  have h: "0 \<le> nHeight b" using wf_height [OF assms(2,3)] by simp
  have pp: "period_parent m (Period ck) p = Inr (parents m (nat r) p)"
    using period_parent_eq [OF assms(1-4)] assms(3,5) by (simp add: state_key_def height_of_def)
  have r: "0 \<le> r" "r < Period ck" using P assms(5) by simp_all
  show ?thesis
  proof (cases "nHeight b + 1 < Period ck")
    case True
    then have "int (nat r) > nHeight b" using h assms(5) by simp
    from parents_none [OF assms(2,3) this] show ?thesis using True pp assms(3) by (simp add: GetStateStatisticsFor_def)
  next
    case False
    then have rb: "r \<le> nHeight b" using r by simp
    obtain q bq where q: "parents m (nat r) p = Some q" "m q = Some bq" "nHeight bq = nHeight b - r"
      using parents_exists [OF assms(2,3), of "nat r"] rb r by auto
    have "stats_loop m (Condition ck) (nHeight b - r) (nat (nHeight b) + 2) (Some p) 0 = Inr n"
      using stats_loop_eq [OF assms(2,3), of "nHeight b - r" "nat (nHeight b) + 2"] rb r assms(6) by simp
    then show ?thesis using False pp q assms(3) by (simp add: GetStateStatisticsFor_def Let_def del: stats_loop.simps)
  qed
qed

theorem GetStateStatisticsFor_value_witness:
  "\<exists>st. GetStateStatisticsFor lone_store lone_checker (Some 0) = Inr st \<and> st_elapsed st = 0 \<and> st_count st = 0"
  using GetStateStatisticsFor_value [OF lone_ok(1,2,5) _ refl refl] lone_ok(6)
  by (simp add: range_simps lone_checker_def)

end
