(* ===== verification/Merkle.thy ===== *)
theory Merkle
  imports RVC_Prelude
begin

unbundle bit_operations_syntax

text \<open>
  Merkle roots and branches: \<open>src/src/consensus/merkle.cpp\<close>. The hash of two concatenated digests
  (\<open>CHash256\<close>) is the parameter \<open>H\<close> of every definition. \<open>MerkleComputation\<close> is the constant-space
  routine of the source: the array \<open>inner\<close> of 32 subtree hashes, the counter \<open>count\<close> of type
  \<open>uint32_t\<close> and the two sweeps; shifting by the width of the type or indexing past the array is
  \<open>OutOfRange\<close>. \<open>tree_root\<close> is the textbook definition, level by level, with the last hash of an
  odd level doubled. The lemmas relate the two, show that a branch leads back to the root, and
  that the \<open>mutated\<close> flag detects the lists that share a root.
\<close>

type_synonym hash_fn = "uint256 \<Rightarrow> uint256 \<Rightarrow> uint256"

subsection \<open>The routine\<close>

text \<open>The update of the branch when a subtree is combined; \<open>i\<close> is \<open>inner[level]\<close>.\<close>

definition match_step :: "bool \<Rightarrow> int \<Rightarrow> nat \<Rightarrow> uint256 \<Rightarrow> uint256 \<Rightarrow> bool \<Rightarrow> uint256 list \<Rightarrow> bool \<times> uint256 list" where
  "match_step pb matchlevel level i h matchh branch =
     (if pb then if matchh then (True, branch @ [i])
                 else if matchlevel = int level then (True, branch @ [h])
                 else (matchh, branch)
      else (matchh, branch))"

text \<open>
  Combining \<open>h\<close> with the stored subtrees as long as the bit of \<open>count\<close> is zero; \<open>pb\<close> says that a
  branch is asked for. The result is the level reached, the hash there, whether it depends on the
  matching leaf, the branch and the flag.
\<close>

function absorb :: "hash_fn \<Rightarrow> bool \<Rightarrow> nat \<Rightarrow> uint256 list \<Rightarrow> int \<Rightarrow> nat \<Rightarrow> uint256 \<Rightarrow> bool \<Rightarrow>
    uint256 list \<Rightarrow> bool \<Rightarrow> (nat \<times> uint256 \<times> bool \<times> uint256 list \<times> bool) result" where
  "absorb H pb cnt inner matchlevel level h matchh branch mutated =
     (if level \<ge> 32 then Inl OutOfRange
      else if bit cnt level then Inr (level, h, matchh, branch, mutated)
      else let i = inner ! level; (matchh', branch') = match_step pb matchlevel level i h matchh branch
           in absorb H pb cnt inner matchlevel (level + 1) (H i h) matchh' branch' (mutated \<or> i = h))"
  by pat_completeness auto
termination
  by (relation "measure (\<lambda>(_, _, _, _, _, level, _). 32 - level)") auto

declare absorb.simps [simp del]

primrec process_leaves :: "hash_fn \<Rightarrow> bool \<Rightarrow> nat \<Rightarrow> uint256 list \<Rightarrow> nat \<Rightarrow> uint256 list \<Rightarrow> int \<Rightarrow>
    uint256 list \<Rightarrow> bool \<Rightarrow> (uint256 list \<times> int \<times> uint256 list \<times> bool) result" where
  "process_leaves H pb branchpos [] cnt inner matchlevel branch mutated = Inr (inner, matchlevel, branch, mutated)"
| "process_leaves H pb branchpos (l # leaves) cnt inner matchlevel branch mutated =
     bindR (absorb H pb (cnt + 1) inner matchlevel 0 l (cnt = branchpos) branch mutated)
       (\<lambda>(level, h, matchh, branch, mutated).
         process_leaves H pb branchpos leaves (cnt + 1) (inner[level := h])
           (if matchh then int level else matchlevel) branch mutated)"

function skip_zeros :: "nat \<Rightarrow> nat \<Rightarrow> nat result" where
  "skip_zeros cnt level =
     (if level \<ge> 32 then Inl OutOfRange
      else if bit cnt level then Inr level else skip_zeros cnt (level + 1))"
  by pat_completeness auto
termination by (relation "measure (\<lambda>(_, level). 32 - level)") auto

declare skip_zeros.simps [simp del]

lemma absorb_level:
  "absorb H pb cnt inner ml level h mh br mu = Inr (level', r) \<Longrightarrow> level \<le> level' \<and> level' < 32"
proof (induction H pb cnt inner ml level h mh br mu rule: absorb.induct)
  case (1 H pb cnt inner ml level h mh br mu)
  show ?case
  proof (cases "level \<ge> 32 \<or> bit cnt level")
    case True
    then show ?thesis using "1.prems" by (auto simp: absorb.simps [of H pb cnt] split: if_splits)
  next
    case False
    obtain mh' br' where m: "match_step pb ml level (inner ! level) h mh br = (mh', br')" by fastforce
    have "absorb H pb cnt inner ml (level + 1) (H (inner ! level) h) mh' br' (mu \<or> inner ! level = h) = Inr (level', r)"
      using "1.prems" False m by (subst (asm) absorb.simps) (simp add: Let_def)
    from "1.IH" [OF _ _ refl m [symmetric] refl this] False show ?thesis by simp
  qed
qed

text \<open>The sweep over the rightmost branch, with the addition to the counter taken modulo \<open>2 ^ 32\<close>.\<close>

function sweep :: "hash_fn \<Rightarrow> bool \<Rightarrow> uint256 list \<Rightarrow> int \<Rightarrow> nat \<Rightarrow> nat \<Rightarrow> uint256 \<Rightarrow> bool \<Rightarrow> uint256 list \<Rightarrow>
    (uint256 \<times> uint256 list) result" where
  "sweep H pb inner matchlevel cnt level h matchh branch =
     (if level \<ge> 32 then Inl OutOfRange
      else if cnt = 2 ^ level then Inr (h, branch)
      else let cnt' = (cnt + 2 ^ level) mod 2 ^ 32 in
           case absorb H pb cnt' inner matchlevel (level + 1) (H h h) matchh
                  (if pb \<and> matchh then branch @ [h] else branch) False of
             Inl e \<Rightarrow> Inl e
           | Inr (level', h', matchh', branch', _) \<Rightarrow> sweep H pb inner matchlevel cnt' level' h' matchh' branch')"
  by pat_completeness auto
termination
  by (relation "measure (\<lambda>(_, _, _, _, _, level, _). 32 - level)") (auto dest: absorb_level)

declare sweep.simps [simp del]

text \<open>
  The result is the root, the flag and the branch. From \<open>2 ^ 32\<close> leaves on the 32-bit counter never
  reaches the number of leaves.
\<close>

definition MerkleComputation :: "hash_fn \<Rightarrow> bool \<Rightarrow> uint256 list \<Rightarrow> nat \<Rightarrow> (uint256 \<times> bool \<times> uint256 list) result" where
  "MerkleComputation H pb leaves branchpos =
     (if leaves = [] then Inr (uint256_null, False, [])
      else if length leaves \<ge> 2 ^ 32 then Inl OutOfFuel
      else bindR (process_leaves H pb branchpos leaves 0 (replicate 32 uint256_null) (- 1) [] False)
             (\<lambda>(inner, matchlevel, branch, mutated).
             bindR (skip_zeros (length leaves) 0) (\<lambda>level.
             bindR (sweep H pb inner matchlevel (length leaves) level (inner ! level) (matchlevel = int level) branch)
               (\<lambda>(h, branch). Inr (h, mutated, branch)))))"

definition ComputeMerkleRoot :: "hash_fn \<Rightarrow> uint256 list \<Rightarrow> (uint256 \<times> bool) result" where
  "ComputeMerkleRoot H leaves =
     bindR (MerkleComputation H False leaves (2 ^ 32 - 1)) (\<lambda>(root, mutated, _). Inr (root, mutated))"

definition ComputeMerkleBranch :: "hash_fn \<Rightarrow> uint256 list \<Rightarrow> u32 \<Rightarrow> uint256 list result" where
  "ComputeMerkleBranch H leaves position =
     bindR (MerkleComputation H True leaves (unat position)) (\<lambda>(_, _, branch). Inr branch)"

fun ComputeMerkleRootFromBranch :: "hash_fn \<Rightarrow> uint256 \<Rightarrow> uint256 list \<Rightarrow> u32 \<Rightarrow> uint256" where
  "ComputeMerkleRootFromBranch H hash [] nIndex = hash"
| "ComputeMerkleRootFromBranch H hash (x # vMerkleBranch) nIndex =
     ComputeMerkleRootFromBranch H (if nIndex AND 1 \<noteq> 0 then H x hash else H hash x) vMerkleBranch (drop_bit 1 nIndex)"

text \<open>The leaves of a block are the hashes of its transactions; \<open>GetHash\<close> is a parameter.\<close>

definition BlockMerkleRoot :: "hash_fn \<Rightarrow> ('tx \<Rightarrow> uint256) \<Rightarrow> 'tx list \<Rightarrow> (uint256 \<times> bool) result" where
  "BlockMerkleRoot H GetHash vtx = ComputeMerkleRoot H (map GetHash vtx)"

definition BlockWitnessMerkleRoot :: "hash_fn \<Rightarrow> ('tx \<Rightarrow> uint256) \<Rightarrow> 'tx list \<Rightarrow> (uint256 \<times> bool) result" where
  "BlockWitnessMerkleRoot H GetWitnessHash vtx =
     (case vtx of [] \<Rightarrow> Inl OutOfRange
      | _ # txs \<Rightarrow> ComputeMerkleRoot H (uint256_null # map GetWitnessHash txs))"

definition BlockMerkleBranch :: "hash_fn \<Rightarrow> ('tx \<Rightarrow> uint256) \<Rightarrow> 'tx list \<Rightarrow> u32 \<Rightarrow> uint256 list result" where
  "BlockMerkleBranch H GetHash vtx position = ComputeMerkleBranch H (map GetHash vtx) position"


subsection \<open>Reference definitions\<close>

fun pair_up :: "hash_fn \<Rightarrow> uint256 list \<Rightarrow> uint256 list" where
  "pair_up H [] = []"
| "pair_up H [x] = [H x x]"
| "pair_up H (x # y # zs) = H x y # pair_up H zs"

lemma length_pair_up: "length (pair_up H xs) = (length xs + 1) div 2"
  by (induction H xs rule: pair_up.induct) simp_all

function tree_root :: "hash_fn \<Rightarrow> uint256 list \<Rightarrow> uint256" where
  "tree_root H [] = uint256_null"
| "tree_root H [x] = x"
| "tree_root H (x # y # zs) = tree_root H (pair_up H (x # y # zs))"
  by pat_completeness auto
termination
  by (relation "measure (\<lambda>(H, xs). length xs)") (auto simp: length_pair_up)

text \<open>
  The subtree of height \<open>k\<close> over up to \<open>2 ^ k\<close> leaves, the flag that two full siblings are equal, and
  the pairs it hashes.
\<close>

primrec rtree :: "hash_fn \<Rightarrow> nat \<Rightarrow> uint256 list \<Rightarrow> uint256" where
  "rtree H 0 xs = hd xs"
| "rtree H (Suc k) xs =
     (if length xs \<le> 2 ^ k then H (rtree H k xs) (rtree H k xs)
      else H (rtree H k (take (2 ^ k) xs)) (rtree H k (drop (2 ^ k) xs)))"

primrec twins :: "hash_fn \<Rightarrow> nat \<Rightarrow> uint256 list \<Rightarrow> bool" where
  "twins H 0 xs \<longleftrightarrow> False"
| "twins H (Suc k) xs \<longleftrightarrow>
     (if length xs \<le> 2 ^ k then twins H k xs
      else twins H k (take (2 ^ k) xs) \<or> twins H k (drop (2 ^ k) xs) \<or>
           (length xs = 2 ^ Suc k \<and> rtree H k (take (2 ^ k) xs) = rtree H k (drop (2 ^ k) xs)))"

primrec hashed :: "hash_fn \<Rightarrow> nat \<Rightarrow> uint256 list \<Rightarrow> (uint256 \<times> uint256) set" where
  "hashed H 0 xs = {}"
| "hashed H (Suc k) xs =
     (if length xs \<le> 2 ^ k then insert (rtree H k xs, rtree H k xs) (hashed H k xs)
      else insert (rtree H k (take (2 ^ k) xs), rtree H k (drop (2 ^ k) xs))
             (hashed H k (take (2 ^ k) xs) \<union> hashed H k (drop (2 ^ k) xs)))"

subsection \<open>Levels and subtrees\<close>

lemma pair_up_append:
  "even (length xs) \<Longrightarrow> pair_up H (xs @ ys) = pair_up H xs @ pair_up H ys"
  by (induction H xs rule: pair_up.induct) simp_all

lemma pair_up_split:
  assumes "2 * m < length xs"
  shows "take m (pair_up H xs) = pair_up H (take (2 * m) xs)" and "drop m (pair_up H xs) = pair_up H (drop (2 * m) xs)"
proof -
  have l: "length (take (2 * m) xs) = 2 * m" using assms by simp
  have "pair_up H xs = pair_up H (take (2 * m) xs) @ pair_up H (drop (2 * m) xs)"
    using pair_up_append [of "take (2 * m) xs" H "drop (2 * m) xs"] l by simp
  moreover have "length (pair_up H (take (2 * m) xs)) = m" using l by (simp add: length_pair_up)
  ultimately show "take m (pair_up H xs) = pair_up H (take (2 * m) xs)" "drop m (pair_up H xs) = pair_up H (drop (2 * m) xs)"
    by simp_all
qed

lemma rtree_pair_up:
  "xs \<noteq> [] \<Longrightarrow> length xs \<le> 2 ^ Suc k \<Longrightarrow> rtree H (Suc k) xs = rtree H k (pair_up H xs)"
proof (induction k arbitrary: xs)
  case 0
  then consider x where "xs = [x]" | x y where "xs = [x, y]"
    by (cases xs; cases "tl xs") (auto simp: Suc_le_eq)
  then show ?case by cases simp_all
next
  case (Suc k)
  show ?case
  proof (cases "length xs \<le> 2 ^ Suc k")
    case True
    then have "length (pair_up H xs) \<le> 2 ^ k" by (simp add: length_pair_up)
    moreover have "rtree H (Suc k) xs = rtree H k (pair_up H xs)" using Suc.IH [OF Suc.prems(1) True] .
    ultimately show ?thesis using True by (simp del: rtree.simps add: rtree.simps(2) [of H "Suc k"] rtree.simps(2) [of H k "pair_up H xs"])
  next
    case False
    let ?a = "take (2 ^ Suc k) xs" and ?b = "drop (2 ^ Suc k) xs"
    have ab: "rtree H (Suc k) ?a = rtree H k (pair_up H ?a)" "rtree H (Suc k) ?b = rtree H k (pair_up H ?b)"
      using False Suc.prems by (intro Suc.IH; auto)+
    have "length (pair_up H xs) > 2 ^ k" using False by (simp add: length_pair_up)
    then have "rtree H (Suc k) (pair_up H xs) = H (rtree H k (pair_up H ?a)) (rtree H k (pair_up H ?b))"
      using pair_up_split [of "2 ^ k" xs H] False by simp
    then show ?thesis using ab False by (simp del: rtree.simps add: rtree.simps(2) [of H "Suc k"])
  qed
qed

lemma rtree_root:
  "xs \<noteq> [] \<Longrightarrow> length xs \<le> 2 ^ k \<Longrightarrow> k = 0 \<or> 2 ^ (k - 1) < length xs \<Longrightarrow> rtree H k xs = tree_root H xs"
proof (induction k arbitrary: xs)
  case 0
  then obtain x where "xs = [x]" by (cases xs) auto
  then show ?case by simp
next
  case (Suc k)
  have two: "2 \<le> length xs"
  proof -
    have "(1 :: nat) \<le> 2 ^ k" by simp
    moreover have "2 ^ k < length xs" using Suc.prems(3) by simp
    ultimately show ?thesis by linarith
  qed
  then obtain x y zs where xs: "xs = x # y # zs" by (cases xs; cases "tl xs") auto
  let ?p = "pair_up H xs"
  have "rtree H k ?p = tree_root H ?p"
  proof (rule Suc.IH)
    show "?p \<noteq> []" using xs by simp
    show "length ?p \<le> 2 ^ k" using Suc.prems(2) by (simp add: length_pair_up)
    show "k = 0 \<or> 2 ^ (k - 1) < length ?p"
      using Suc.prems(3) by (cases k) (auto simp: length_pair_up)
  qed
  then show ?case using rtree_pair_up [OF Suc.prems(1,2)] xs by (simp del: rtree.simps pair_up.simps)
qed

subsection \<open>Binary counters\<close>

lemma bit_odd_div: "bit (n :: nat) i \<longleftrightarrow> odd (n div 2 ^ i)"
  by (simp add: bit_iff_odd)

lemma dvd_Suc_power: "2 ^ l dvd n \<Longrightarrow> \<not> bit n l \<Longrightarrow> 2 ^ Suc l dvd (n :: nat)"
  by (auto simp: bit_odd_div elim!: dvdE)

lemma dvd_bounded: "2 ^ l dvd (n :: nat) \<Longrightarrow> 0 < n \<Longrightarrow> n < 2 ^ 32 \<Longrightarrow> l < (32 :: nat)"
proof -
  assume d: "2 ^ l dvd n" "0 < n" and n: "n < 2 ^ 32"
  have "(2 :: nat) ^ l \<le> n" by (rule dvd_imp_le [OF d])
  then have "(2 :: nat) ^ l < 2 ^ 32" using n by (rule le_less_trans)
  then show ?thesis by (rule power_less_imp_less_exp [rotated]) simp
qed

lemma carry_div:
  assumes "cnt = c + 2 ^ L" and "2 ^ L dvd c" and "L \<le> l" and "2 ^ l dvd cnt"
  shows "c div 2 ^ l = cnt div 2 ^ l - (1 :: nat)" and "1 \<le> cnt div 2 ^ l"
proof -
  obtain q where q: "cnt = 2 ^ l * q" using assms(4) by (rule dvdE)
  have le: "(2 :: nat) ^ L \<le> 2 ^ l" using assms(3) by (simp add: power_increasing)
  have q1: "1 \<le> q" using q assms(1) by (cases q) simp_all
  have "c = 2 ^ l * (q - 1) + (2 ^ l - 2 ^ L)"
    using q assms(1) q1 le by (simp add: diff_mult_distrib2)
  moreover have "2 ^ l - 2 ^ L < (2 :: nat) ^ l" by simp
  ultimately have "c div 2 ^ l = q - 1" by simp
  then show "c div 2 ^ l = cnt div 2 ^ l - 1" "1 \<le> cnt div 2 ^ l" using q q1 by simp_all
qed

lemma carry_zero:
  assumes "cnt = c + 2 ^ L" and "2 ^ L dvd c" and "L \<le> l" and "2 ^ Suc l dvd cnt"
  shows "bit c l" and "c div 2 ^ Suc l * 2 ^ Suc l = cnt - (2 :: nat) ^ Suc l"
proof -
  have l: "2 ^ l dvd cnt" using assms(4) by (simp add: dvd_mult_right)
  note c1 = carry_div [OF assms(1,2,3) l]
  have c2: "c div 2 ^ Suc l = cnt div 2 ^ Suc l - 1" "1 \<le> cnt div 2 ^ Suc l"
    using carry_div [OF assms(1,2) _ assms(4)] assms(3) by simp_all
  obtain q where q: "cnt = 2 ^ Suc l * q" using assms(4) by (rule dvdE)
  then have "cnt div 2 ^ l = 2 * q" by simp
  then show "bit c l" using c1 by (simp add: bit_odd_div)
  have "cnt div 2 ^ Suc l = q" using q by simp
  then show "c div 2 ^ Suc l * 2 ^ Suc l = cnt - 2 ^ Suc l"
    using c2(1) q by (simp add: diff_mult_distrib algebra_simps)
qed

lemma carry_one:
  assumes "cnt = c + 2 ^ L" and "2 ^ L dvd c" and "L \<le> l" and "2 ^ l dvd cnt" and "bit cnt l"
  shows "\<not> bit c l" and "l < i \<Longrightarrow> c div 2 ^ i = cnt div (2 :: nat) ^ i" and "cnt div 2 ^ Suc l * 2 ^ Suc l = cnt - (2 :: nat) ^ l"
proof -
  note c1 = carry_div [OF assms(1-4)]
  have o: "odd (cnt div 2 ^ l)" using assms(5) by (simp add: bit_odd_div)
  then show "\<not> bit c l" using c1 by (simp add: bit_odd_div)
  have half: "c div 2 ^ Suc l = cnt div 2 ^ Suc l"
  proof -
    have "x div 2 ^ Suc l = x div 2 ^ l div 2" for x :: nat
      by (simp only: power_Suc mult.commute [of 2] div_mult2_eq)
    then have "c div 2 ^ Suc l = c div 2 ^ l div 2" "cnt div 2 ^ Suc l = cnt div 2 ^ l div 2" by blast+
    then show ?thesis using c1 o by (auto elim!: oddE)
  qed
  show "c div 2 ^ i = cnt div 2 ^ i" if "l < i"
  proof -
    have "x div 2 ^ i = x div 2 ^ Suc l div 2 ^ (i - Suc l)" for x :: nat
      using that by (simp add: div_mult2_eq [symmetric] power_add [symmetric] del: power_Suc)
    then show ?thesis using half by metis
  qed
  obtain q where q: "cnt = 2 ^ l * q" using assms(4) by (rule dvdE)
  then have "odd q" using o by simp
  then obtain r where "q = 2 * r + 1" by (rule oddE)
  then show "cnt div 2 ^ Suc l * 2 ^ Suc l = cnt - 2 ^ l" using q by (simp add: algebra_simps)
qed

subsection \<open>A rule for the combining loop\<close>

lemma absorb_rule:
  assumes "P L h mh br mu" and "2 ^ L dvd cnt" and "0 < cnt" and "cnt < 2 ^ 32"
    and "\<And>l h mh br mu. L \<le> l \<Longrightarrow> l < 32 \<Longrightarrow> 2 ^ Suc l dvd cnt \<Longrightarrow> P l h mh br mu \<Longrightarrow>
      (case match_step pb ml l (inner ! l) h mh br of (mh', br') \<Rightarrow>
         P (Suc l) (H (inner ! l) h) mh' br' (mu \<or> inner ! l = h))"
  shows "\<exists>l' h' mh' br' mu'. absorb H pb cnt inner ml L h mh br mu = Inr (l', h', mh', br', mu') \<and>
    L \<le> l' \<and> l' < 32 \<and> 2 ^ l' dvd cnt \<and> bit cnt l' \<and> P l' h' mh' br' mu'"
proof -
  have "\<exists>l' h' mh' br' mu'. absorb H pb cnt inner ml l h mh br mu = Inr (l', h', mh', br', mu') \<and>
      l \<le> l' \<and> l' < 32 \<and> 2 ^ l' dvd cnt \<and> bit cnt l' \<and> P l' h' mh' br' mu'"
    if "L \<le> l" "2 ^ l dvd cnt" "P l h mh br mu" for l h mh br mu
    using that
  proof (induction "32 - l" arbitrary: l h mh br mu rule: less_induct)
    case less
    have l: "l < 32" using dvd_bounded [OF less.prems(2) assms(3,4)] .
    show ?case
    proof (cases "bit cnt l")
      case True
      then show ?thesis using l less.prems by (subst absorb.simps) auto
    next
      case False
      have d: "2 ^ Suc l dvd cnt" by (rule dvd_Suc_power [OF less.prems(2) False])
      obtain mh' br' where m: "match_step pb ml l (inner ! l) h mh br = (mh', br')" by fastforce
      have P': "P (Suc l) (H (inner ! l) h) mh' br' (mu \<or> inner ! l = h)"
        using assms(5) [OF less.prems(1) l d less.prems(3)] m by simp
      have e: "absorb H pb cnt inner ml l h mh br mu =
          absorb H pb cnt inner ml (Suc l) (H (inner ! l) h) mh' br' (mu \<or> inner ! l = h)"
        using l False m by (subst absorb.simps) (simp add: Let_def)
      have "32 - Suc l < 32 - l" using l by simp
      from less.hyps [OF this _ d P'] less.prems(1) show ?thesis unfolding e by (auto dest: Suc_leD)
    qed
  qed
  from this [OF _ assms(2,1)] show ?thesis by simp
qed

subsection \<open>Subtrees of the counter\<close>

definition block :: "uint256 list \<Rightarrow> nat \<Rightarrow> nat \<Rightarrow> uint256 list" where
  "block xs c i = take (2 ^ i) (drop (c div 2 ^ Suc i * 2 ^ Suc i) xs)"

definition tail :: "uint256 list \<Rightarrow> nat \<Rightarrow> nat \<Rightarrow> uint256 list" where
  "tail xs cnt l = drop (cnt - 2 ^ l) (take cnt xs)"

definition inner_ok :: "hash_fn \<Rightarrow> uint256 list \<Rightarrow> nat \<Rightarrow> nat \<Rightarrow> uint256 list \<Rightarrow> bool" where
  "inner_ok H xs c L inner \<longleftrightarrow> (\<forall>i. L \<le> i \<longrightarrow> i < 32 \<longrightarrow> bit c i \<longrightarrow> inner ! i = rtree H i (block xs c i))"

definition some_twins :: "hash_fn \<Rightarrow> uint256 list \<Rightarrow> nat \<Rightarrow> nat \<Rightarrow> bool" where
  "some_twins H xs c L \<longleftrightarrow> (\<exists>i. L \<le> i \<and> i < 32 \<and> bit c i \<and> twins H i (block xs c i))"

lemma some_twins_Suc:
  "l < 32 \<Longrightarrow> some_twins H xs c l \<longleftrightarrow> (bit c l \<and> twins H l (block xs c l)) \<or> some_twins H xs c (Suc l)"
  unfolding some_twins_def by (metis Suc_leD Suc_leI le_refl order_le_less)

lemma tail_split:
  assumes "2 ^ Suc l \<le> cnt" and "cnt - 2 ^ l < length xs"
  shows "2 ^ l < length (tail xs cnt (Suc l))"
    and "take (2 ^ l) (tail xs cnt (Suc l)) = take (2 ^ l) (drop (cnt - 2 ^ Suc l) xs)"
    and "drop (2 ^ l) (tail xs cnt (Suc l)) = tail xs cnt l"
    and "length (tail xs cnt (Suc l)) = 2 ^ Suc l \<longleftrightarrow> cnt \<le> length xs"
proof -
  have e: "cnt - 2 ^ Suc l + 2 ^ l = cnt - 2 ^ l" using assms(1) by simp
  show "2 ^ l < length (tail xs cnt (Suc l))" "length (tail xs cnt (Suc l)) = 2 ^ Suc l \<longleftrightarrow> cnt \<le> length xs"
    using assms by (auto simp: tail_def min_def)
  show "drop (2 ^ l) (tail xs cnt (Suc l)) = tail xs cnt l" using e by (simp add: tail_def add.commute)
  have "2 ^ l \<le> cnt - (cnt - 2 ^ Suc l)" using assms(1) by simp
  then show "take (2 ^ l) (tail xs cnt (Suc l)) = take (2 ^ l) (drop (cnt - 2 ^ Suc l) xs)"
    by (simp add: tail_def drop_take min_def)
qed

text \<open>
  The situation in which the combining loop runs: the counter went from \<open>c\<close> to \<open>cnt = c + 2 ^ L\<close>,
  the subtrees of \<open>c\<close> from level \<open>L\<close> on are stored, and the subtree being added has leaves.
\<close>

definition adding :: "hash_fn \<Rightarrow> uint256 list \<Rightarrow> uint256 list \<Rightarrow> nat \<Rightarrow> nat \<Rightarrow> nat \<Rightarrow> bool" where
  "adding H xs inner c cnt L \<longleftrightarrow> cnt = c + 2 ^ L \<and> 2 ^ L dvd c \<and> cnt < 2 ^ 32 \<and> cnt - 2 ^ L < length xs \<and>
     inner_ok H xs c L inner"

lemma step_facts:
  assumes "adding H xs inner c cnt L" and "L \<le> l" and "l < 32" and "2 ^ Suc l dvd cnt"
  shows "2 ^ Suc l \<le> cnt" and "cnt - 2 ^ l < length xs" and "bit c l"
    and "take (2 ^ l) (tail xs cnt (Suc l)) = block xs c l" and "inner ! l = rtree H l (block xs c l)"
    and "c div 2 ^ Suc l * 2 ^ Suc l = cnt - 2 ^ Suc l"
proof -
  have cnt: "cnt = c + 2 ^ L" "2 ^ L dvd c" and inside: "cnt - 2 ^ L < length xs" and inner: "inner_ok H xs c L inner"
    using assms(1) unfolding adding_def by blast+
  have pos: "0 < cnt" using cnt(1) by simp
  show le: "2 ^ Suc l \<le> cnt" by (rule dvd_imp_le [OF assms(4) pos])
  have "(2 :: nat) ^ L \<le> 2 ^ l" using assms(2) by (simp add: power_increasing)
  then show ins: "cnt - 2 ^ l < length xs" using inside by linarith
  note z = carry_zero [OF cnt assms(2,4)]
  show "bit c l" "c div 2 ^ Suc l * 2 ^ Suc l = cnt - 2 ^ Suc l" by (rule z)+
  then show "inner ! l = rtree H l (block xs c l)" using inner assms(2,3) by (simp add: inner_ok_def)
  show "take (2 ^ l) (tail xs cnt (Suc l)) = block xs c l"
    using tail_split(2) [OF le ins] z(2) by (simp only: block_def)
qed

lemma step_rtree:
  assumes "adding H xs inner c cnt L" and "L \<le> l" and "l < 32" and "2 ^ Suc l dvd cnt"
  shows "H (inner ! l) (rtree H l (tail xs cnt l)) = rtree H (Suc l) (tail xs cnt (Suc l))"
  using step_facts [OF assms] tail_split [OF step_facts(1,2) [OF assms]] by simp

lemma step_twins:
  assumes "adding H xs inner c cnt L" and "L \<le> l" and "l < 32" and "2 ^ Suc l dvd cnt"
  shows "twins H (Suc l) (tail xs cnt (Suc l)) \<or> some_twins H xs c (Suc l) \<longleftrightarrow>
    twins H l (tail xs cnt l) \<or> some_twins H xs c l \<or> (cnt \<le> length xs \<and> inner ! l = rtree H l (tail xs cnt l))"
  using step_facts [OF assms] tail_split [OF step_facts(1,2) [OF assms]] some_twins_Suc [OF assms(3)] by auto

lemma tail_block:
  assumes "2 ^ l dvd cnt" and "bit cnt l" and "cnt \<le> length xs"
  shows "tail xs cnt l = block xs cnt l"
proof -
  obtain q where q: "cnt = 2 ^ l * q" using assms(1) by (rule dvdE)
  then have "odd q" using assms(2) by (simp add: bit_odd_div)
  then obtain r where r: "q = 2 * r + 1" by (rule oddE)
  then have "cnt div 2 ^ Suc l * 2 ^ Suc l = cnt - 2 ^ l" "2 ^ l \<le> cnt" using q by (simp_all add: algebra_simps)
  then show ?thesis by (simp add: tail_def block_def drop_take)
qed

lemma absorb_tail:
  assumes "adding H xs inner c cnt L"
  shows "\<exists>l' mh' br' mu'. absorb H pb cnt inner ml L (rtree H L (tail xs cnt L)) mh br mu =
      Inr (l', rtree H l' (tail xs cnt l'), mh', br', mu') \<and> L \<le> l' \<and> l' < 32 \<and> 2 ^ l' dvd cnt \<and> bit cnt l' \<and>
    (cnt \<le> length xs \<longrightarrow> mu = (twins H L (tail xs cnt L) \<or> some_twins H xs c L) \<longrightarrow>
       mu' = (twins H l' (tail xs cnt l') \<or> some_twins H xs c l')) \<and>
    (length xs < cnt \<longrightarrow> (twins H L (tail xs cnt L) \<or> some_twins H xs c L) =
       (twins H l' (tail xs cnt l') \<or> some_twins H xs c l'))"
proof -
  let ?tw = "\<lambda>l. twins H l (tail xs cnt l) \<or> some_twins H xs c l"
  let ?P = "\<lambda>l h mh br mu'. h = rtree H l (tail xs cnt l) \<and> (cnt \<le> length xs \<longrightarrow> mu = ?tw L \<longrightarrow> mu' = ?tw l) \<and>
    (length xs < cnt \<longrightarrow> ?tw L = ?tw l)"
  have a: "2 ^ L dvd cnt" "0 < cnt" "cnt < 2 ^ 32" using assms by (simp_all add: adding_def)
  have "\<exists>l' h' mh' br' mu'. absorb H pb cnt inner ml L (rtree H L (tail xs cnt L)) mh br mu = Inr (l', h', mh', br', mu') \<and>
      L \<le> l' \<and> l' < 32 \<and> 2 ^ l' dvd cnt \<and> bit cnt l' \<and> ?P l' h' mh' br' mu'"
  proof (rule absorb_rule [OF _ a])
    fix l h mh br mu'
    assume l: "L \<le> l" "l < 32" "2 ^ Suc l dvd cnt" and P: "?P l h mh br mu'"
    obtain mh' br' where "match_step pb ml l (inner ! l) h mh br = (mh', br')" by fastforce
    then show "case match_step pb ml l (inner ! l) h mh br of (mh', br') \<Rightarrow>
        ?P (Suc l) (H (inner ! l) h) mh' br' (mu' \<or> inner ! l = h)"
      using P step_rtree [OF assms l] step_twins [OF assms l] by auto
  qed simp
  then show ?thesis by blast
qed

subsection \<open>Following one leaf\<close>

fun climb :: "hash_fn \<Rightarrow> uint256 \<Rightarrow> uint256 list \<Rightarrow> nat \<Rightarrow> uint256" where
  "climb H x [] p = x"
| "climb H x (s # br) p = climb H (if odd p then H s x else H x s) br (p div 2)"

lemma climb_append: "climb H x (br @ [s]) p = (if odd (p div 2 ^ length br) then H s (climb H x br p) else H (climb H x br p) s)"
  by (induction H x br p rule: climb.induct) (simp_all add: div_mult2_eq)

lemma ComputeMerkleRootFromBranch_climb: "ComputeMerkleRootFromBranch H x br p = climb H x br (unat p)"
proof (induction H x br p rule: ComputeMerkleRootFromBranch.induct)
  case (2 H hash x br nIndex)
  have "nIndex AND 1 \<noteq> 0 \<longleftrightarrow> odd (unat nIndex)"
  proof -
    have "bit (unat nIndex) 0 \<longleftrightarrow> bit nIndex 0" by (simp add: bit_unsigned_iff)
    then show ?thesis by (simp add: bit_0 and_one_eq odd_iff_mod_2_eq_one)
  qed
  moreover have "unat (drop_bit 1 nIndex) = unat nIndex div 2" by (simp add: drop_bit_eq_div unat_div)
  ultimately show ?case using 2 by simp
qed simp


text \<open>
  Where the leaf \<open>pos\<close> is while the loop runs: in the subtree being added, not yet reached, or in the
  stored subtree \<open>matchlevel\<close>.
\<close>

definition stored_match :: "hash_fn \<Rightarrow> uint256 \<Rightarrow> nat \<Rightarrow> uint256 list \<Rightarrow> nat \<Rightarrow> nat \<Rightarrow> int \<Rightarrow> uint256 list \<Rightarrow> bool" where
  "stored_match H x pos inner c L ml br \<longleftrightarrow>
     (\<exists>i. ml = int i \<and> L \<le> i \<and> i < 32 \<and> bit c i \<and> length br = i \<and> climb H x br pos = inner ! i \<and>
        pos div 2 ^ i = 2 * (c div 2 ^ Suc i))"

definition tail_match :: "hash_fn \<Rightarrow> uint256 \<Rightarrow> nat \<Rightarrow> nat \<Rightarrow> nat \<Rightarrow> uint256 \<Rightarrow> uint256 list \<Rightarrow> bool" where
  "tail_match H x pos cnt l h br \<longleftrightarrow> length br = l \<and> climb H x br pos = h \<and> cnt - 2 ^ l \<le> pos \<and> pos < cnt"

definition match_inv :: "hash_fn \<Rightarrow> uint256 \<Rightarrow> nat \<Rightarrow> uint256 list \<Rightarrow> nat \<Rightarrow> nat \<Rightarrow> int \<Rightarrow> nat \<Rightarrow> uint256 \<Rightarrow> bool \<Rightarrow> uint256 list \<Rightarrow> bool" where
  "match_inv H x pos inner c cnt ml l h mh br \<longleftrightarrow>
     (if mh then tail_match H x pos cnt l h br
      else (cnt \<le> pos \<and> ml = - 1 \<and> br = []) \<or> stored_match H x pos inner c l ml br)"

lemma pos_div_tail:
  assumes "2 ^ l dvd cnt" and "cnt - 2 ^ l \<le> pos" and "pos < (cnt :: nat)"
  shows "pos div 2 ^ l = cnt div 2 ^ l - 1"
proof -
  obtain q where q: "cnt = 2 ^ l * q" using assms(1) by (rule dvdE)
  then have q1: "1 \<le> q" using assms(3) by (cases q) simp_all
  have "2 ^ l * (q - 1) \<le> pos" "pos < 2 ^ l * (q - 1) + 2 ^ l"
    using assms(2,3) q q1 by (simp_all add: diff_mult_distrib2)
  then have "pos div 2 ^ l = q - 1" by (intro div_nat_eqI) (simp_all add: algebra_simps)
  then show ?thesis using q by simp
qed

lemma match_step_inv:
  assumes "adding H xs inner c cnt L" and "L \<le> l" and "l < 32" and "2 ^ Suc l dvd cnt"
    and "match_inv H x pos inner c cnt ml l h mh br" and "match_step True ml l (inner ! l) h mh br = (mh', br')"
  shows "match_inv H x pos inner c cnt ml (Suc l) (H (inner ! l) h) mh' br'"
proof (cases mh)
  case True
  then have m: "length br = l" "climb H x br pos = h" "cnt - 2 ^ l \<le> pos" "pos < cnt"
    using assms(5) by (simp_all add: match_inv_def tail_match_def)
  have d: "2 ^ l dvd cnt" using assms(4) by (simp add: dvd_mult_right)
  obtain q where q: "cnt = 2 ^ Suc l * q" using assms(4) by (rule dvdE)
  have "odd (pos div 2 ^ l)"
    using pos_div_tail [OF d m(3,4)] q m(4) by (cases q) simp_all
  then show ?thesis using True assms(6) m
    by (auto simp: match_step_def match_inv_def tail_match_def climb_append)
next
  case False
  note f = step_facts [OF assms(1-4)]
  show ?thesis
  proof (cases "ml = int l")
    case True
    then have m: "length br = l" "climb H x br pos = inner ! l" "pos div 2 ^ l = 2 * (c div 2 ^ Suc l)"
      using False assms(5) by (auto simp: match_inv_def stored_match_def)
    have "2 ^ l * (pos div 2 ^ l) \<le> pos" "pos < 2 ^ l * (pos div 2 ^ l) + 2 ^ l"
      using dividend_less_times_div [of "2 ^ l" pos] by (simp_all add: add.commute)
    moreover have "2 ^ l * (pos div 2 ^ l) = cnt - 2 ^ Suc l" using f(6) m(3) by (simp add: algebra_simps)
    ultimately have "cnt - 2 ^ Suc l \<le> pos" "pos < cnt" using f(1) by simp_all
    then show ?thesis using True False assms(6) m
      by (auto simp: match_step_def match_inv_def tail_match_def climb_append)
  next
    case nl: False
    then show ?thesis using False assms(5,6)
      by (auto simp: match_step_def match_inv_def stored_match_def Suc_le_eq le_less)
  qed
qed

lemma absorb_match:
  assumes "adding H xs inner c cnt L" and "match_inv H x pos inner c cnt ml L h mh br"
    and "absorb H True cnt inner ml L h mh br mu = Inr (l', h', mh', br', mu')"
  shows "match_inv H x pos inner c cnt ml l' h' mh' br'"
proof -
  have a: "2 ^ L dvd cnt" "0 < cnt" "cnt < 2 ^ 32" using assms by (simp_all add: adding_def)
  have "\<exists>l' h' mh' br' mu'. absorb H True cnt inner ml L h mh br mu = Inr (l', h', mh', br', mu') \<and>
      L \<le> l' \<and> l' < 32 \<and> 2 ^ l' dvd cnt \<and> bit cnt l' \<and> match_inv H x pos inner c cnt ml l' h' mh' br'"
  proof (rule absorb_rule [where P = "\<lambda>l h mh br mu. match_inv H x pos inner c cnt ml l h mh br", OF assms(2) a])
    fix l h mh br mu
    assume l: "L \<le> l" "l < 32" "2 ^ Suc l dvd cnt" and P: "match_inv H x pos inner c cnt ml l h mh br"
    obtain mh' br' where "match_step True ml l (inner ! l) h mh br = (mh', br')" by fastforce
    then show "case match_step True ml l (inner ! l) h mh br of (mh', br') \<Rightarrow>
        match_inv H x pos inner c cnt ml (Suc l) (H (inner ! l) h) mh' br'"
      using match_step_inv [OF assms(1) l P] by simp
  qed
  then show ?thesis using assms(3) by auto
qed

lemma settle:
  assumes "adding H xs inner c cnt L" and "L \<le> l" and "l < 32" and "2 ^ l dvd cnt" and "bit cnt l"
  shows "inner_ok H xs cnt (Suc l) inner"
    and "some_twins H xs c l \<longleftrightarrow> some_twins H xs cnt (Suc l)"
    and "stored_match H x pos inner c l ml br \<longleftrightarrow> stored_match H x pos inner cnt (Suc l) ml br"
proof -
  have cnt: "cnt = c + 2 ^ L" "2 ^ L dvd c" and inner: "inner_ok H xs c L inner"
    using assms(1) unfolding adding_def by blast+
  note one = carry_one [OF cnt assms(2,4,5)]
  have up: "c div 2 ^ i = cnt div 2 ^ i \<and> (bit c i = bit cnt i)" if "l < i" for i
    using one(2) [OF that] by (simp add: bit_odd_div)
  have bl: "block xs c i = block xs cnt i" if "l < i" for i
    using up [of "Suc i"] that by (simp add: block_def)
  show "inner_ok H xs cnt (Suc l) inner"
    using inner assms(2) up bl by (simp add: inner_ok_def Suc_le_eq)
  have lift: "(\<exists>i. l \<le> i \<and> i < 32 \<and> bit c i \<and> P i) \<longleftrightarrow> (\<exists>i. Suc l \<le> i \<and> i < 32 \<and> bit cnt i \<and> P i)" for P
    using one(1) up by (metis Suc_leD Suc_le_eq le_neq_implies_less)
  show "some_twins H xs c l \<longleftrightarrow> some_twins H xs cnt (Suc l)"
  proof -
    have "some_twins H xs c l \<longleftrightarrow> (\<exists>i. Suc l \<le> i \<and> i < 32 \<and> bit cnt i \<and> twins H i (block xs c i))"
      using lift [of "\<lambda>i. twins H i (block xs c i)"] by (simp only: some_twins_def)
    then show ?thesis using bl by (auto simp: some_twins_def Suc_le_eq)
  qed
  show "stored_match H x pos inner c l ml br \<longleftrightarrow> stored_match H x pos inner cnt (Suc l) ml br"
  proof -
    have "stored_match H x pos inner c l ml br \<longleftrightarrow> (\<exists>i. Suc l \<le> i \<and> i < 32 \<and> bit cnt i \<and>
        (ml = int i \<and> length br = i \<and> climb H x br pos = inner ! i \<and> pos div 2 ^ i = 2 * (c div 2 ^ Suc i)))"
      using lift [of "\<lambda>i. ml = int i \<and> length br = i \<and> climb H x br pos = inner ! i \<and> pos div 2 ^ i = 2 * (c div 2 ^ Suc i)"]
      by (auto simp: stored_match_def)
    moreover have "c div 2 ^ Suc i = cnt div 2 ^ Suc i" if "Suc l \<le> i" for i using up [of "Suc i"] that by simp
    ultimately show ?thesis by (auto simp: stored_match_def)
  qed
qed

lemma low_bits: "2 ^ l dvd (n :: nat) \<Longrightarrow> i < l \<Longrightarrow> \<not> bit n i"
proof -
  assume d: "2 ^ l dvd n" and i: "i < l"
  obtain q where "n = 2 ^ l * q" using d by (rule dvdE)
  moreover have "(2 :: nat) ^ l = 2 ^ i * 2 ^ (l - i)" using i by (simp add: power_add [symmetric])
  ultimately have "n div 2 ^ i = 2 ^ (l - i) * q" by (simp add: mult.assoc)
  then show ?thesis using i by (simp add: bit_odd_div)
qed

subsection \<open>The loop over the leaves\<close>

definition leaf_inv :: "hash_fn \<Rightarrow> bool \<Rightarrow> uint256 list \<Rightarrow> nat \<Rightarrow> nat \<Rightarrow> uint256 list \<Rightarrow> int \<Rightarrow> uint256 list \<Rightarrow> bool \<Rightarrow> bool" where
  "leaf_inv H pb xs pos c inner ml br mu \<longleftrightarrow> length inner = 32 \<and> inner_ok H xs c 0 inner \<and> mu = some_twins H xs c 0 \<and>
     (pb \<longrightarrow> (c \<le> pos \<and> ml = - 1 \<and> br = []) \<or> stored_match H (xs ! pos) pos inner c 0 ml br)"

lemma some_twins_level:
  assumes "2 ^ l dvd cnt" and "bit cnt l" and "l < 32" and "cnt \<le> length xs"
  shows "some_twins H xs cnt 0 \<longleftrightarrow> twins H l (tail xs cnt l) \<or> some_twins H xs cnt (Suc l)"
proof -
  have "some_twins H xs cnt 0 \<longleftrightarrow> some_twins H xs cnt l"
    using low_bits [OF assms(1)] unfolding some_twins_def by (meson le0 not_less)
  then show ?thesis using some_twins_Suc [OF assms(3)] assms(2) tail_block [OF assms(1,2,4)] by simp
qed

lemma pos_div_level:
  assumes "2 ^ l dvd cnt" and "bit cnt l"
  shows "cnt div 2 ^ l - 1 = 2 * (cnt div (2 :: nat) ^ Suc l)"
proof -
  have "cnt div 2 ^ Suc l = cnt div 2 ^ l div 2" by (simp only: power_Suc mult.commute [of 2] div_mult2_eq)
  then show ?thesis using assms(2) by (auto simp: bit_odd_div elim!: oddE)
qed

lemma stored_update:
  assumes "stored_match H x pos inner cnt (Suc l) ml br"
  shows "stored_match H x pos (inner[l := h]) cnt 0 ml br"
  using assms by (auto simp: stored_match_def Suc_le_eq)

lemma inner_update:
  assumes "inner_ok H xs cnt (Suc l) inner" and "2 ^ l dvd cnt" and "bit cnt l" and "cnt \<le> length xs"
    and "length inner = 32" and "l < 32"
  shows "inner_ok H xs cnt 0 (inner[l := rtree H l (tail xs cnt l)])"
  unfolding inner_ok_def
proof (intro allI impI)
  fix i assume i: "i < 32" "bit cnt i"
  then consider "i = l" | "l < i" using low_bits [OF assms(2)] by (cases i l rule: linorder_cases) auto
  then show "inner[l := rtree H l (tail xs cnt l)] ! i = rtree H i (block xs cnt i)"
    using assms i tail_block [OF assms(2-4)] by cases (simp_all add: inner_ok_def)
qed

lemma leaf_match_start:
  assumes "(c \<le> pos \<and> ml = - 1 \<and> br = []) \<or> stored_match H (xs ! pos) pos inner c 0 ml br"
  shows "match_inv H (xs ! pos) pos inner c (Suc c) ml 0 (xs ! c) (c = pos) br"
proof (cases "c = pos")
  case True
  have "\<not> stored_match H (xs ! pos) pos inner c 0 ml br"
    using True by (auto simp: stored_match_def bit_odd_div)
  then show ?thesis using True assms by (simp add: match_inv_def tail_match_def)
next
  case False
  then show ?thesis using assms by (auto simp: match_inv_def)
qed

lemma leaf_step:
  assumes "leaf_inv H pb xs pos c inner ml br mu" and "c < length xs" and "length xs < 2 ^ 32"
  shows "\<exists>l h mh br' mu'. absorb H pb (c + 1) inner ml 0 (xs ! c) (c = pos) br mu = Inr (l, h, mh, br', mu') \<and>
    leaf_inv H pb xs pos (c + 1) (inner[l := h]) (if mh then int l else ml) br' mu'"
proof -
  let ?cnt = "c + 1"
  have ad: "adding H xs inner c ?cnt 0" using assms by (simp add: adding_def leaf_inv_def)
  have le: "?cnt \<le> length xs" using assms(2) by simp
  have t0: "tail xs ?cnt 0 = [xs ! c]" using assms(2) by (simp add: tail_def take_Suc_conv_app_nth)
  obtain l mh br' mu' where a: "absorb H pb ?cnt inner ml 0 (xs ! c) (c = pos) br mu = Inr (l, rtree H l (tail xs ?cnt l), mh, br', mu')"
    and l: "l < 32" "2 ^ l dvd ?cnt" "bit ?cnt l"
    and mu: "mu = (twins H 0 (tail xs ?cnt 0) \<or> some_twins H xs c 0) \<longrightarrow> mu' = (twins H l (tail xs ?cnt l) \<or> some_twins H xs c l)"
    using absorb_tail [OF ad, of pb ml "c = pos" br mu] le t0 by auto
  note se = settle [OF ad _ l]
  have in': "inner_ok H xs ?cnt 0 (inner[l := rtree H l (tail xs ?cnt l)])"
    using inner_update [OF se(1) l(2,3) le _ l(1)] assms(1) by (simp add: leaf_inv_def)
  have mu': "mu' = some_twins H xs ?cnt 0"
    using mu assms(1) se(2) some_twins_level [OF l(2,3,1) le, of H] by (simp add: leaf_inv_def)
  have ma: "(?cnt \<le> pos \<and> (if mh then int l else ml) = - 1 \<and> br' = []) \<or>
      stored_match H (xs ! pos) pos (inner[l := rtree H l (tail xs ?cnt l)]) ?cnt 0 (if mh then int l else ml) br'" if pb: pb
  proof -
    have "match_inv H (xs ! pos) pos inner c ?cnt ml 0 (xs ! c) (c = pos) br"
      using leaf_match_start [of c pos ml br H xs inner] assms(1) pb by (simp add: leaf_inv_def)
    from absorb_match [OF ad this] a pb
    have m: "match_inv H (xs ! pos) pos inner c ?cnt ml l (rtree H l (tail xs ?cnt l)) mh br'" by simp
    show ?thesis
    proof (cases mh)
      case True
      then have t: "tail_match H (xs ! pos) pos ?cnt l (rtree H l (tail xs ?cnt l)) br'" using m by (simp add: match_inv_def)
      then have "pos div 2 ^ l = 2 * (?cnt div 2 ^ Suc l)"
        using pos_div_tail [OF l(2)] pos_div_level [OF l(2,3)] by (simp add: tail_match_def)
      then have "stored_match H (xs ! pos) pos (inner[l := rtree H l (tail xs ?cnt l)]) ?cnt 0 (int l) br'"
        using t l assms(1) by (simp add: stored_match_def tail_match_def leaf_inv_def)
      then show ?thesis using True by simp
    next
      case False
      then show ?thesis using m se(3) [of "xs ! pos" pos ml br'] stored_update by (auto simp: match_inv_def)
    qed
  qed
  show ?thesis using a in' mu' ma assms(1) by (auto simp: leaf_inv_def)
qed

lemma process_leaves_inv:
  assumes "length xs < 2 ^ 32"
  shows "ys = drop c xs \<Longrightarrow> c \<le> length xs \<Longrightarrow> leaf_inv H pb xs pos c inner ml br mu \<Longrightarrow>
    \<exists>inner' ml' br' mu'. process_leaves H pb pos ys c inner ml br mu = Inr (inner', ml', br', mu') \<and>
      leaf_inv H pb xs pos (length xs) inner' ml' br' mu'"
proof (induction ys arbitrary: c inner ml br mu)
  case Nil
  then have "c = length xs" by simp
  then show ?case using Nil.prems(3) by simp
next
  case (Cons y ys)
  then have c: "c < length xs" by (cases "c < length xs") auto
  then have y: "y = xs ! c" "ys = drop (c + 1) xs" using Cons.prems(1) by (metis Cons_nth_drop_Suc Suc_eq_plus1 list.inject)+
  from leaf_step [OF Cons.prems(3) c assms] obtain l h mh br' mu' where
    a: "absorb H pb (c + 1) inner ml 0 (xs ! c) (c = pos) br mu = Inr (l, h, mh, br', mu')"
    and i: "leaf_inv H pb xs pos (c + 1) (inner[l := h]) (if mh then int l else ml) br' mu'" by blast
  from Cons.IH [OF y(2) _ i] c obtain inner' ml' br'' mu'' where
    "process_leaves H pb pos ys (c + 1) (inner[l := h]) (if mh then int l else ml) br' mu' = Inr (inner', ml', br'', mu'')"
    "leaf_inv H pb xs pos (length xs) inner' ml' br'' mu''" by auto
  then show ?case using a y(1) by simp
qed

subsection \<open>The final sweep\<close>

definition sweep_inv :: "hash_fn \<Rightarrow> bool \<Rightarrow> uint256 list \<Rightarrow> nat \<Rightarrow> uint256 list \<Rightarrow> int \<Rightarrow> nat \<Rightarrow> nat \<Rightarrow> uint256 \<Rightarrow> bool \<Rightarrow> uint256 list \<Rightarrow> bool" where
  "sweep_inv H pb xs pos inner ml cnt l h mh br \<longleftrightarrow>
     2 ^ l dvd cnt \<and> bit cnt l \<and> l < 32 \<and> length xs \<le> cnt \<and> cnt - 2 ^ l < length xs \<and> h = rtree H l (tail xs cnt l) \<and>
     inner_ok H xs cnt (Suc l) inner \<and>
     (pb \<longrightarrow> (if mh then tail_match H (xs ! pos) pos cnt l h br else stored_match H (xs ! pos) pos inner cnt (Suc l) ml br))"

definition level_twins :: "hash_fn \<Rightarrow> uint256 list \<Rightarrow> nat \<Rightarrow> nat \<Rightarrow> bool" where
  "level_twins H xs cnt l \<longleftrightarrow> twins H l (tail xs cnt l) \<or> some_twins H xs cnt (Suc l)"

lemma level_bound:
  assumes "2 ^ l dvd cnt" and "bit cnt l" and "cnt \<noteq> 2 ^ l" and "cnt \<le> 2 ^ K"
  shows "l < K" and "cnt + 2 ^ l \<le> (2 :: nat) ^ K" and "2 ^ Suc l dvd cnt - 2 ^ l" and "2 ^ l \<le> cnt"
proof -
  obtain q where q: "cnt = 2 ^ l * q" using assms(1) by (rule dvdE)
  have o: "odd q" using assms(2) q by (simp add: bit_odd_div)
  obtain r where r: "q = 2 * r + 1" using o by (rule oddE)
  have r1: "1 \<le> r" using assms(3) q r by (cases r) simp_all
  show lK: "l < K"
  proof (rule ccontr)
    assume "\<not> l < K"
    then have "(2 :: nat) ^ K \<le> 2 ^ l" by (simp add: power_increasing)
    moreover have "2 ^ l < cnt" using q r r1 by simp
    ultimately show False using assms(4) by linarith
  qed
  define d where "d = K - Suc l"
  have K: "(2 :: nat) ^ K = 2 ^ l * (2 * 2 ^ d)" using lK by (simp add: d_def power_add [symmetric] flip: power_Suc)
  then have "2 ^ l * (2 * r + 1) \<le> 2 ^ l * (2 * 2 ^ d)" using assms(4) q r by (simp only:)
  then have "2 * r + 1 \<le> 2 * 2 ^ d" by (simp only: mult_le_cancel1) simp
  then have "r + 1 \<le> 2 ^ d" by simp
  then have "2 ^ l * (2 * (r + 1)) \<le> 2 ^ l * (2 * 2 ^ d)" by (intro mult_le_mono2)
  moreover have "cnt + 2 ^ l = 2 ^ l * (2 * (r + 1))" using q r by (simp add: algebra_simps)
  ultimately show "cnt + 2 ^ l \<le> 2 ^ K" using K by (simp only:)
  show "2 ^ Suc l dvd cnt - 2 ^ l" "2 ^ l \<le> cnt" using q r by (simp_all add: algebra_simps)
qed

lemma sweep_start:
  assumes "leaf_inv H pb xs pos (length xs) inner ml br mu" and "2 ^ l dvd length xs" and "bit (length xs) l" and "l < 32"
    and "xs \<noteq> []" and "pb \<longrightarrow> pos < length xs"
  shows "sweep_inv H pb xs pos inner ml (length xs) l (inner ! l) (ml = int l) br"
    and "mu = level_twins H xs (length xs) l"
proof -
  note tb = tail_block [OF assms(2,3) order_refl]
  have i: "inner_ok H xs (length xs) 0 inner" using assms(1) by (simp add: leaf_inv_def)
  then have h: "inner ! l = rtree H l (tail xs (length xs) l)" using assms tb by (simp add: inner_ok_def)
  have q: "length xs - 2 ^ l = 2 ^ l * (2 * (length xs div 2 ^ Suc l))"
    using pos_div_level [OF assms(2,3)] assms(2) by (metis diff_mult_distrib2 dvd_mult_div_cancel mult.right_neutral)
  have m: "if ml = int l then tail_match H (xs ! pos) pos (length xs) l (inner ! l) br
      else stored_match H (xs ! pos) pos inner (length xs) (Suc l) ml br" if pb
  proof -
    have "stored_match H (xs ! pos) pos inner (length xs) 0 ml br" using assms(1,6) that by (auto simp: leaf_inv_def)
    then obtain k where k: "ml = int k" "k < 32" "bit (length xs) k" "length br = k" "climb H (xs ! pos) br pos = inner ! k"
      "pos div 2 ^ k = 2 * (length xs div 2 ^ Suc k)" by (auto simp: stored_match_def)
    have lk: "l \<le> k" using low_bits [OF assms(2), of k] k(3) by (meson not_less)
    have "2 ^ l * (pos div 2 ^ l) \<le> pos" by (rule times_div_less_eq_dividend)
    then have "k = l \<Longrightarrow> length xs - 2 ^ l \<le> pos" using q k(6) by (simp only:)
    then show ?thesis using k lk assms(6) that by (auto simp: tail_match_def stored_match_def)
  qed
  have "0 < length xs" using assms(5) by simp
  then have "length xs - 2 ^ l < length xs" by (intro diff_less) simp_all
  then show "sweep_inv H pb xs pos inner ml (length xs) l (inner ! l) (ml = int l) br"
    using assms(2-4) i h m unfolding sweep_inv_def inner_ok_def by (simp cong: if_cong)
  show "mu = level_twins H xs (length xs) l"
    using assms(1) some_twins_level [OF assms(2,3,4) order_refl, of H] by (simp add: leaf_inv_def level_twins_def)
qed

lemma double_tail:
  assumes "length xs \<le> cnt" and "2 ^ l \<le> cnt" and "cnt - 2 ^ l < length xs"
  shows "tail xs (cnt + 2 ^ l) (Suc l) = tail xs cnt l" and "length (tail xs cnt l) \<le> 2 ^ l"
  using assms by (simp_all add: tail_def)

lemma sweep_step:
  assumes inv: "sweep_inv H pb xs pos inner ml cnt l h mh br" and K: "cnt \<le> 2 ^ K" "K \<le> 31" and ne: "cnt \<noteq> 2 ^ l"
  shows "\<exists>l' h' mh' br' mu'. absorb H pb (cnt + 2 ^ l) inner ml (l + 1) (H h h) mh (if pb \<and> mh then br @ [h] else br) False =
      Inr (l', h', mh', br', mu') \<and> l < l' \<and> sweep_inv H pb xs pos inner ml (cnt + 2 ^ l) l' h' mh' br' \<and>
      level_twins H xs (cnt + 2 ^ l) l' = level_twins H xs cnt l"
proof -
  let ?c = "cnt - 2 ^ l" and ?n = "cnt + 2 ^ l"
  have i: "2 ^ l dvd cnt" "bit cnt l" "l < 32" "length xs \<le> cnt" "?c < length xs" "h = rtree H l (tail xs cnt l)"
    "inner_ok H xs cnt (Suc l) inner" using inv by (simp_all add: sweep_inv_def)
  note b = level_bound [OF i(1,2) ne K(1)]
  have K31: "(2 :: nat) ^ K \<le> 2 ^ 31" using K(2) by (intro power_increasing) simp_all
  have c: "cnt = ?c + 2 ^ l" "2 ^ l dvd ?c" using b(3,4) by (simp_all add: dvd_mult_right)
  note one = carry_one [OF c order_refl i(1,2)]
  have up: "?c div 2 ^ k = cnt div 2 ^ k \<and> (bit ?c k = bit cnt k)" if "l < k" for k
    using one(2) [OF that] by (simp add: bit_odd_div)
  have bl: "block xs ?c k = block xs cnt k" if "l < k" for k
    using up [of "Suc k"] that by (simp add: block_def)
  have ad: "adding H xs inner ?c ?n (Suc l)"
    using b K31 i(5,7) up bl by (simp add: adding_def inner_ok_def Suc_le_eq)
  note dt = double_tail [OF i(4) b(4) i(5)]
  have hh: "H h h = rtree H (Suc l) (tail xs ?n (Suc l))" using dt i(6) by simp
  have st: "some_twins H xs ?c (Suc l) = some_twins H xs cnt (Suc l)" using up bl by (auto simp: some_twins_def Suc_le_eq)
  have lt: "length xs < ?n" using i(4) by (simp add: le_less_trans)
  let ?br = "if pb \<and> mh then br @ [h] else br"
  obtain l' mh' br' mu' where a: "absorb H pb ?n inner ml (Suc l) (H h h) mh ?br False = Inr (l', rtree H l' (tail xs ?n l'), mh', br', mu')"
    and l': "Suc l \<le> l'" "l' < 32" "2 ^ l' dvd ?n" "bit ?n l'"
    and tw: "(twins H (Suc l) (tail xs ?n (Suc l)) \<or> some_twins H xs ?c (Suc l)) = (twins H l' (tail xs ?n l') \<or> some_twins H xs ?c l')"
    using absorb_tail [OF ad, of pb ml mh ?br False] lt unfolding hh by blast
  note se = settle [OF ad l']
  have t: "level_twins H xs ?n l' = level_twins H xs cnt l"
    using tw se(2) st dt by (simp add: level_twins_def)
  have m: "if mh' then tail_match H (xs ! pos) pos ?n l' (rtree H l' (tail xs ?n l')) br'
      else stored_match H (xs ! pos) pos inner ?n (Suc l') ml br'" if pb: pb
  proof -
    have "match_inv H (xs ! pos) pos inner ?c ?n ml (Suc l) (H h h) mh ?br"
    proof (cases mh)
      case True
      then show ?thesis using inv pb by (auto simp: match_inv_def sweep_inv_def tail_match_def climb_append)
    next
      case False
      then have "stored_match H (xs ! pos) pos inner cnt (Suc l) ml br" using inv pb by (simp add: sweep_inv_def)
      then have "stored_match H (xs ! pos) pos inner ?c (Suc l) ml br"
        using up by (auto simp: stored_match_def Suc_le_eq simp del: power_Suc)
      then show ?thesis using False by (simp add: match_inv_def)
    qed
    from absorb_match [OF ad this] a pb
    have m: "match_inv H (xs ! pos) pos inner ?c ?n ml l' (rtree H l' (tail xs ?n l')) mh' br'" by simp
    have "\<not> (?n \<le> pos \<and> ml = - 1)"
      using inv pb i(4) by (auto simp: sweep_inv_def tail_match_def stored_match_def split: if_splits)
    then show ?thesis using m se(3) by (auto simp: match_inv_def split: if_splits)
  qed
  have "(2 :: nat) ^ Suc l \<le> 2 ^ l'" using l'(1) by (simp add: power_increasing del: power_Suc)
  then have "?n - 2 ^ l' < length xs" using i(5) b(4) by simp
  then have "sweep_inv H pb xs pos inner ml ?n l' (rtree H l' (tail xs ?n l')) mh' br'"
    using l' se(1) m i(4) by (simp add: sweep_inv_def)
  then show ?thesis using a l'(1) t by auto
qed

lemma sweep_result:
  assumes "xs \<noteq> []" and "length xs \<le> 2 ^ K" and "K = 0 \<or> 2 ^ (K - 1) < length xs" and "K \<le> 31"
  shows "sweep_inv H pb xs pos inner ml cnt l h mh br \<Longrightarrow> cnt \<le> 2 ^ K \<Longrightarrow>
    \<exists>br'. sweep H pb inner ml cnt l h mh br = Inr (rtree H K xs, br') \<and> twins H K xs = level_twins H xs cnt l \<and>
      (pb \<longrightarrow> climb H (xs ! pos) br' pos = rtree H K xs)"
proof (induction "32 - l" arbitrary: cnt l h mh br rule: less_induct)
  case less
  have i: "2 ^ l dvd cnt" "bit cnt l" "l < 32" "length xs \<le> cnt" "cnt - 2 ^ l < length xs" "h = rtree H l (tail xs cnt l)"
    using less.prems(1) by (simp_all add: sweep_inv_def)
  show ?case
  proof (cases "cnt = 2 ^ l")
    case True
    have "l \<le> K" using less.prems(2) True by (simp add: power_le_imp_le_exp)
    moreover have "K \<le> l"
    proof (cases K)
      case (Suc k)
      then have "(2 :: nat) ^ k < length xs" using assms(3) by simp
      then have "(2 :: nat) ^ k < 2 ^ l" using i(4) True by linarith
      then have "k < l" by (rule power_less_imp_less_exp [rotated]) simp
      then show ?thesis using Suc by simp
    qed simp
    ultimately have lK: "l = K" by simp
    have t: "tail xs cnt l = xs" using True i(4) by (simp add: tail_def)
    have "\<not> bit cnt k" if "Suc l \<le> k" for k using True that by (simp add: bit_odd_div)
    then have "\<not> some_twins H xs cnt (Suc l)" "\<not> stored_match H (xs ! pos) pos inner cnt (Suc l) ml br"
      unfolding some_twins_def stored_match_def by blast+
    then have "level_twins H xs cnt l = twins H K xs" "pb \<Longrightarrow> climb H (xs ! pos) br pos = h"
      using t lK less.prems(1) by (auto simp: level_twins_def sweep_inv_def tail_match_def split: if_splits)
    then show ?thesis using True i(3,6) t lK by (subst sweep.simps) simp
  next
    case False
    from sweep_step [OF less.prems(1,2) assms(4) False] obtain l' h' mh' br' mu' where
      a: "absorb H pb (cnt + 2 ^ l) inner ml (l + 1) (H h h) mh (if pb \<and> mh then br @ [h] else br) False = Inr (l', h', mh', br', mu')"
      and l': "l < l'" and s: "sweep_inv H pb xs pos inner ml (cnt + 2 ^ l) l' h' mh' br'"
      and t: "level_twins H xs (cnt + 2 ^ l) l' = level_twins H xs cnt l" by blast
    have n: "cnt + 2 ^ l \<le> 2 ^ K" by (rule level_bound(2) [OF i(1,2) False less.prems(2)])
    moreover have "(2 :: nat) ^ K < 2 ^ 32" using assms(4) by (intro power_strict_increasing) simp_all
    ultimately have m: "(cnt + 2 ^ l) mod 2 ^ 32 = cnt + 2 ^ l" by (intro mod_less) linarith
    have e: "sweep H pb inner ml cnt l h mh br = sweep H pb inner ml (cnt + 2 ^ l) l' h' mh' br'"
      using i(3) False m a by (subst sweep.simps) (simp add: Let_def)
    have "32 - l' < 32 - l" using l' i(3) by simp
    from less.hyps [OF this s n] show ?thesis using e t by simp
  qed
qed

lemma skip_zeros_found:
  assumes "0 < cnt" and "cnt < 2 ^ 32"
  shows "2 ^ l dvd cnt \<Longrightarrow> \<exists>l'. skip_zeros cnt l = Inr l' \<and> l' < 32 \<and> 2 ^ l' dvd cnt \<and> bit cnt l'"
proof (induction "32 - l" arbitrary: l rule: less_induct)
  case less
  have l: "l < 32" by (rule dvd_bounded [OF less.prems assms])
  show ?case
  proof (cases "bit cnt l")
    case True
    then have "skip_zeros cnt l = Inr l" using l by (subst skip_zeros.simps) simp
    then show ?thesis using True l less.prems by blast
  next
    case False
    have "32 - Suc l < 32 - l" using l by simp
    moreover have "skip_zeros cnt l = skip_zeros cnt (Suc l)" using l False by (subst skip_zeros.simps) simp
    ultimately show ?thesis using less.hyps [of "Suc l"] dvd_Suc_power [OF less.prems False] by (simp only:)
  qed
qed

subsection \<open>The whole routine\<close>

lemma MerkleComputation_result:
  assumes "xs \<noteq> []" and "length xs \<le> 2 ^ K" and "K = 0 \<or> 2 ^ (K - 1) < length xs" and "K \<le> 31"
    and "pb \<longrightarrow> pos < length xs"
  shows "\<exists>br. MerkleComputation H pb xs pos = Inr (rtree H K xs, twins H K xs, br) \<and>
    (pb \<longrightarrow> climb H (xs ! pos) br pos = rtree H K xs)"
proof -
  have "(2 :: nat) ^ K < 2 ^ 32" using assms(4) by (intro power_strict_increasing) simp_all
  then have n: "0 < length xs" "length xs < 2 ^ 32" using assms(1,2) by (simp, linarith)
  have "leaf_inv H pb xs pos 0 (replicate 32 uint256_null) (- 1) [] False"
    by (simp add: leaf_inv_def inner_ok_def some_twins_def)
  from process_leaves_inv [OF n(2) drop_0 [symmetric] _ this] obtain inner ml br mu where
    p: "process_leaves H pb pos xs 0 (replicate 32 uint256_null) (- 1) [] False = Inr (inner, ml, br, mu)"
    and i: "leaf_inv H pb xs pos (length xs) inner ml br mu" by blast
  from skip_zeros_found [OF n, of 0] obtain l where
    z: "skip_zeros (length xs) 0 = Inr l" and l: "2 ^ l dvd length xs" "bit (length xs) l" "l < 32" by auto
  note st = sweep_start [OF i l assms(1,5)]
  from sweep_result [OF assms(1-4) st(1) assms(2)] obtain br' where
    w: "sweep H pb inner ml (length xs) l (inner ! l) (ml = int l) br = Inr (rtree H K xs, br')"
    "twins H K xs = level_twins H xs (length xs) l" "pb \<longrightarrow> climb H (xs ! pos) br' pos = rtree H K xs" by blast
  have "\<not> 2 ^ 32 \<le> length xs" using n(2) by (simp only: not_le)
  then have "MerkleComputation H pb xs pos = Inr (rtree H K xs, mu, br')"
    unfolding MerkleComputation_def using assms(1) by (simp only: p z w(1) if_False bindR_simps prod.case)
  then show ?thesis using st(2) w(2,3) by simp
qed


text \<open>The height of the tree over \<open>n\<close> leaves.\<close>

function tree_depth :: "nat \<Rightarrow> nat" where
  "tree_depth n = (if n \<le> 1 then 0 else Suc (tree_depth ((n + 1) div 2)))"
  by pat_completeness auto
termination by (relation "measure id") auto

declare tree_depth.simps [simp del]

lemma tree_depth_bounds: "n \<le> 2 ^ tree_depth n \<and> (tree_depth n = 0 \<or> 2 ^ (tree_depth n - 1) < n)"
proof (induction n rule: tree_depth.induct)
  case (1 n)
  show ?case
  proof (cases "n \<le> 1")
    case True
    then show ?thesis by (subst tree_depth.simps) (simp add: tree_depth.simps)
  next
    case False
    let ?m = "(n + 1) div 2" and ?d = "tree_depth ((n + 1) div 2)"
    have d: "tree_depth n = Suc ?d" using False by (subst tree_depth.simps) simp
    have ih: "?m \<le> 2 ^ ?d" "?d = 0 \<or> 2 ^ (?d - 1) < ?m" using 1 False by simp_all
    have "2 ^ ?d < n"
    proof (cases ?d)
      case (Suc e)
      then have "2 ^ e < ?m" using ih(2) by simp
      then show ?thesis using Suc by simp
    qed (use False in simp)
    then show ?thesis using d ih(1) by simp
  qed
qed

lemma tree_depth_le: "n \<le> 2 ^ k \<Longrightarrow> tree_depth n \<le> k"
proof (rule ccontr)
  assume n: "n \<le> 2 ^ k" and "\<not> tree_depth n \<le> k"
  then have "k \<le> tree_depth n - 1" "tree_depth n \<noteq> 0" by simp_all
  then have "(2 :: nat) ^ k \<le> 2 ^ (tree_depth n - 1)" "2 ^ (tree_depth n - 1) < n"
    using tree_depth_bounds [of n] by (simp_all add: power_increasing)
  then show False using n by linarith
qed

lemma MerkleComputation_depth:
  assumes "xs \<noteq> []" and "length xs \<le> 2 ^ 31" and "pb \<longrightarrow> pos < length xs"
  shows "\<exists>br. MerkleComputation H pb xs pos = Inr (tree_root H xs, twins H (tree_depth (length xs)) xs, br) \<and>
    (pb \<longrightarrow> climb H (xs ! pos) br pos = tree_root H xs)"
proof -
  let ?K = "tree_depth (length xs)"
  have b: "length xs \<le> 2 ^ ?K" "?K = 0 \<or> 2 ^ (?K - 1) < length xs" using tree_depth_bounds [of "length xs"] by simp_all
  have K: "?K \<le> 31" by (rule tree_depth_le [OF assms(2)])
  show ?thesis using MerkleComputation_result [OF assms(1) b K assms(3)] by (simp only: rtree_root [OF assms(1) b])
qed

lemma ComputeMerkleRoot_depth:
  assumes "length xs \<le> 2 ^ 31"
  shows "ComputeMerkleRoot H xs = Inr (tree_root H xs, twins H (tree_depth (length xs)) xs)"
proof (cases "xs = []")
  case True
  then show ?thesis by (simp add: ComputeMerkleRoot_def MerkleComputation_def tree_depth.simps)
next
  case False
  from MerkleComputation_depth [OF False assms, of False "2 ^ 32 - 1" H] show ?thesis
    unfolding ComputeMerkleRoot_def by fastforce
qed

text \<open>C12. The Merkle root of a block. For up to \<open>2 ^ 31\<close> leaves the constant-space routine computes the root of
  the tree built level by level, with the last hash of an odd level doubled, and its flag says that two
  full sibling subtrees of that tree have the same hash.
\<close>

theorem ComputeMerkleRoot_is_tree:
  assumes "length leaves \<le> 2 ^ 31"
  shows "ComputeMerkleRoot H leaves = Inr (tree_root H leaves, twins H (tree_depth (length leaves)) leaves)"
  by (rule ComputeMerkleRoot_depth [OF assms])

theorem ComputeMerkleRoot_is_tree_witness:
  "length [[1], [2], [3 :: byte]] \<le> 2 ^ 31 \<and>
   ComputeMerkleRoot (@) [[1], [2], [3]] =
     Inr (tree_root (@) [[1], [2], [3]], twins (@) (tree_depth (length [[1], [2], [3 :: byte]])) [[1], [2], [3]])"
proof -
  have n: "length [[1], [2], [3 :: byte]] \<le> 2 ^ 31" by simp
  from ComputeMerkleRoot_is_tree [OF n] n show ?thesis by blast
qed

text \<open>C18. A Merkle branch leads from its leaf back to the root: for every leaf of a list of up to \<open>2 ^ 31\<close> leaves,
  \<open>ComputeMerkleRootFromBranch\<close> on the branch that \<open>ComputeMerkleBranch\<close> gives for it is the root that
  \<open>ComputeMerkleRoot\<close> gives for the list.
\<close>

theorem ComputeMerkleBranch_verifies:
  assumes "length leaves \<le> 2 ^ 31" and "unat position < length leaves"
  shows "\<exists>branch root mutated. ComputeMerkleBranch H leaves position = Inr branch \<and>
    ComputeMerkleRoot H leaves = Inr (root, mutated) \<and>
    ComputeMerkleRootFromBranch H (leaves ! unat position) branch position = root"
proof -
  have ne: "leaves \<noteq> []" using assms(2) by auto
  from MerkleComputation_depth [OF ne assms(1), of True "unat position" H] assms(2) obtain br where
    "MerkleComputation H True leaves (unat position) =
       Inr (tree_root H leaves, twins H (tree_depth (length leaves)) leaves, br)"
    "climb H (leaves ! unat position) br (unat position) = tree_root H leaves" by auto
  then show ?thesis using ComputeMerkleRoot_depth [OF assms(1)] by (simp add: ComputeMerkleBranch_def ComputeMerkleRootFromBranch_climb)
qed

theorem ComputeMerkleBranch_verifies_witness:
  "\<exists>branch root mutated. ComputeMerkleBranch (@) [[1], [2], [3]] (2 :: u32) = Inr branch \<and>
    ComputeMerkleRoot (@) [[1], [2], [3]] = Inr (root, mutated) \<and>
    ComputeMerkleRootFromBranch (@) ([[1], [2], [3]] ! unat (2 :: u32)) branch 2 = root"
  by (rule ComputeMerkleBranch_verifies) simp_all

subsection \<open>Lists with the same root\<close>

lemma twins_last:
  "xs = ys @ [x, x] \<Longrightarrow> even (length ys) \<Longrightarrow> length xs \<le> 2 ^ k \<Longrightarrow> twins H k xs"
proof (induction k arbitrary: xs ys)
  case (Suc k)
  show ?case
  proof (cases "length xs \<le> 2 ^ k")
    case True
    then show ?thesis using Suc by simp
  next
    case long: False
    show ?thesis
    proof (cases k)
      case 0
      then have "ys = []" using Suc.prems(1,3) by (cases ys) auto
      then show ?thesis using 0 Suc.prems(1) by simp
    next
      case (Suc j)
      obtain m where m: "length ys = 2 * m" using Suc.prems(2) by (rule evenE)
      then have "2 ^ j < m + 1" using long Suc Suc.prems(1) by simp
      then have le: "2 ^ k \<le> length ys" using m Suc by simp
      have "twins H k (drop (2 ^ k) xs)"
      proof (rule Suc.IH [of _ "drop (2 ^ k) ys"])
        show "drop (2 ^ k) xs = drop (2 ^ k) ys @ [x, x]" using le Suc.prems(1) by simp
        show "even (length (drop (2 ^ k) ys))" using le Suc Suc.prems(2) by simp
        show "length (drop (2 ^ k) xs) \<le> 2 ^ k" using Suc.prems(3) by simp
      qed
      then show ?thesis using long by simp
    qed
  qed
qed simp

lemma pair_up_last: "odd (length xs) \<Longrightarrow> pair_up H (xs @ [last xs]) = pair_up H xs"
  by (induction H xs rule: pair_up.induct) auto

text \<open>The ambiguity of the doubling rule (CVE-2012-2459) and its detection: repeating the last of an odd
  number of leaves does not change the root, and \<open>ComputeMerkleRoot\<close> sets the flag for the longer list.
\<close>

theorem duplicated_leaf_is_flagged:
  assumes "odd (length leaves)" and "2 < length leaves" and "length leaves < 2 ^ 31"
  shows "\<exists>root mutated. ComputeMerkleRoot H leaves = Inr (root, mutated) \<and>
    ComputeMerkleRoot H (leaves @ [last leaves]) = Inr (root, True)"
proof -
  let ?ys = "leaves @ [last leaves]"
  have ne: "leaves \<noteq> []" "?ys \<noteq> []" using assms(2) by auto
  have l: "length leaves \<le> 2 ^ 31" "length ?ys \<le> 2 ^ 31" using assms(3) by simp_all
  obtain x y zs where xs: "leaves = x # y # zs" using assms(2) by (cases leaves; cases "tl leaves") auto
  have "tree_root H ?ys = tree_root H leaves"
    using pair_up_last [OF assms(1), of H] xs by (simp del: pair_up.simps)
  moreover have "twins H (tree_depth (length ?ys)) ?ys"
  proof (rule twins_last)
    show "?ys = butlast leaves @ [last leaves, last leaves]" using ne(1) by simp
    show "even (length (butlast leaves))" using assms(1,2) by simp
    show "length ?ys \<le> 2 ^ tree_depth (length ?ys)" using tree_depth_bounds by blast
  qed
  ultimately show ?thesis using ComputeMerkleRoot_depth [OF l(1)] ComputeMerkleRoot_depth [OF l(2)] by simp
qed

theorem duplicated_leaf_is_flagged_witness:
  "\<exists>root mutated. ComputeMerkleRoot (@) [[1], [2], [3 :: byte]] = Inr (root, mutated) \<and>
    ComputeMerkleRoot (@) ([[1], [2], [3]] @ [last [[1], [2], [3]]]) = Inr (root, True)"
  by (rule duplicated_leaf_is_flagged) simp_all

text \<open>The hash has no collision among the pairs \<open>S\<close>, and none of the leaves is the hash of one of them.\<close>

definition collision_free :: "hash_fn \<Rightarrow> (uint256 \<times> uint256) set \<Rightarrow> uint256 set \<Rightarrow> bool" where
  "collision_free H S X \<longleftrightarrow>
     (\<forall>(a, b)\<in>S. \<forall>(c, d)\<in>S. H a b = H c d \<longrightarrow> a = c \<and> b = d) \<and> (\<forall>(a, b)\<in>S. H a b \<notin> X)"

lemma collision_freeD:
  assumes "collision_free H S X" and "(a, b) \<in> S"
  shows "H a b \<notin> X" and "(c, d) \<in> S \<Longrightarrow> H a b = H c d \<Longrightarrow> a = c \<and> b = d"
  using assms unfolding collision_free_def by blast+

lemma rtree_pair: "hashed H (Suc k) xs \<subseteq> S \<Longrightarrow> \<exists>a b. rtree H (Suc k) xs = H a b \<and> (a, b) \<in> S"
  by (auto split: if_splits)

lemma rtree_height:
  assumes "collision_free H S X"
  shows "set xs \<union> set ys \<subseteq> X \<Longrightarrow> xs \<noteq> [] \<Longrightarrow> ys \<noteq> [] \<Longrightarrow> hashed H k xs \<subseteq> S \<Longrightarrow> hashed H j ys \<subseteq> S \<Longrightarrow>
    rtree H k xs = rtree H j ys \<Longrightarrow> k = j"
proof (induction k arbitrary: j xs ys)
  case 0
  have "rtree H 0 xs \<in> X" using 0 hd_in_set [of xs] by auto
  then show ?case using rtree_pair [of H "j - 1" ys S] 0 collision_freeD(1) [OF assms] by (cases j) auto
next
  case (Suc k)
  show ?case
  proof (cases j)
    case 0
    then have "rtree H j ys \<in> X" using Suc.prems hd_in_set [of ys] by auto
    then show ?thesis using rtree_pair [OF Suc.prems(4)] Suc.prems(6) collision_freeD(1) [OF assms] by auto
  next
    case (Suc i)
    define a where "a = (if length xs \<le> 2 ^ k then xs else take (2 ^ k) xs)"
    define b where "b = (if length ys \<le> 2 ^ i then ys else take (2 ^ i) ys)"
    have sub: "set a \<subseteq> set xs" "set b \<subseteq> set ys" "a \<noteq> []" "b \<noteq> []" "hashed H k a \<subseteq> S" "hashed H i b \<subseteq> S"
      using Suc.prems Suc by (auto simp: a_def b_def dest: in_set_takeD)
    obtain a' b' where ab: "rtree H (Suc k) xs = H (rtree H k a) a'" "(rtree H k a, a') \<in> S"
      "rtree H (Suc i) ys = H (rtree H i b) b'" "(rtree H i b, b') \<in> S"
      using Suc.prems(4,5) Suc by (auto simp: a_def b_def split: if_splits)
    then have "H (rtree H k a) a' = H (rtree H i b) b'" using Suc.prems(6) Suc by simp
    then have "rtree H k a = rtree H i b" using collision_freeD(2) [OF assms ab(2,4)] by blast
    moreover have "set a \<union> set b \<subseteq> X" using sub(1,2) Suc.prems(1) by blast
    ultimately have "k = i" using sub by (intro Suc.IH [of a b i])
    then show ?thesis using Suc by simp
  qed
qed

lemma rtree_leaves:
  assumes "collision_free H S X"
  shows "xs \<noteq> [] \<Longrightarrow> ys \<noteq> [] \<Longrightarrow> length xs \<le> 2 ^ k \<Longrightarrow> length ys \<le> 2 ^ k \<Longrightarrow> hashed H k xs \<subseteq> S \<Longrightarrow> hashed H k ys \<subseteq> S \<Longrightarrow>
    \<not> twins H k xs \<Longrightarrow> \<not> twins H k ys \<Longrightarrow> rtree H k xs = rtree H k ys \<Longrightarrow> xs = ys"
proof (induction k arbitrary: xs ys)
  case 0
  then show ?case by (cases xs; cases ys) auto
next
  case (Suc k)
  have inj: "a = c \<and> b = d" if "H a b = H c d" "(a, b) \<in> S" "(c, d) \<in> S" for a b c d
    using collision_freeD(2) [OF assms that(2,3,1)] .
  have no_mix: "\<not> length us \<le> 2 ^ k \<Longrightarrow> False" if "us \<noteq> []" "vs \<noteq> []" "length vs \<le> 2 ^ k" "length us \<le> 2 ^ Suc k"
    "hashed H (Suc k) us \<subseteq> S" "hashed H (Suc k) vs \<subseteq> S" "\<not> twins H (Suc k) us" "\<not> twins H (Suc k) vs"
    "rtree H (Suc k) us = rtree H (Suc k) vs" for us vs
  proof -
    assume us: "\<not> length us \<le> 2 ^ k"
    let ?a = "take (2 ^ k) us" and ?b = "drop (2 ^ k) us"
    have "rtree H k ?a = rtree H k vs \<and> rtree H k ?b = rtree H k vs"
      using that(3,5,6,9) us by (intro inj) auto
    then have e: "rtree H k ?a = rtree H k ?b" by simp
    then have ne: "length us \<noteq> 2 ^ Suc k" using that(7) us by auto
    have "?a = ?b" using that(4,5,7) us e by (intro Suc.IH) auto
    then have "length ?a = length ?b" by simp
    then show False using us ne by simp
  qed
  show ?case
  proof (cases "length xs \<le> 2 ^ k"; cases "length ys \<le> 2 ^ k")
    assume s: "length xs \<le> 2 ^ k" "length ys \<le> 2 ^ k"
    then have "rtree H k xs = rtree H k ys \<and> rtree H k xs = rtree H k ys" using Suc.prems(5,6,9) by (intro inj) auto
    then show ?thesis using Suc.prems s by (intro Suc.IH) auto
  next
    assume s: "length xs \<le> 2 ^ k" "\<not> length ys \<le> 2 ^ k"
    show ?thesis using no_mix [OF Suc.prems(2,1) s(1) Suc.prems(4,6,5,8,7) Suc.prems(9) [symmetric] s(2)] ..
  next
    assume s: "\<not> length xs \<le> 2 ^ k" "length ys \<le> 2 ^ k"
    show ?thesis using no_mix [OF Suc.prems(1,2) s(2) Suc.prems(3,5,6,7,8,9) s(1)] ..
  next
    assume s: "\<not> length xs \<le> 2 ^ k" "\<not> length ys \<le> 2 ^ k"
    have "rtree H k (take (2 ^ k) xs) = rtree H k (take (2 ^ k) ys) \<and> rtree H k (drop (2 ^ k) xs) = rtree H k (drop (2 ^ k) ys)"
      using Suc.prems s by (intro inj) auto
    then have "take (2 ^ k) xs = take (2 ^ k) ys" "drop (2 ^ k) xs = drop (2 ^ k) ys"
      using Suc.prems s by (intro Suc.IH; auto)+
    then show ?thesis by (metis append_take_drop_id)
  qed
qed

text \<open>C17. The defence against the ambiguity: two non-empty lists of leaves for which \<open>ComputeMerkleRoot\<close> gives the
  same root without setting the flag are the same list, as far as the hash has no collision among the pairs
  hashed in the two trees and no leaf is itself such a hash.
\<close>

theorem unmutated_root_determines_leaves:
  assumes "length xs \<le> 2 ^ 31" and "length ys \<le> 2 ^ 31" and "xs \<noteq> []" and "ys \<noteq> []"
    and "ComputeMerkleRoot H xs = Inr (root, False)" and "ComputeMerkleRoot H ys = Inr (root, False)"
    and "collision_free H (hashed H (tree_depth (length xs)) xs \<union> hashed H (tree_depth (length ys)) ys) (set xs \<union> set ys)"
  shows "xs = ys"
proof -
  let ?k = "tree_depth (length xs)" and ?j = "tree_depth (length ys)"
  have bk: "length xs \<le> 2 ^ ?k" "?k = 0 \<or> 2 ^ (?k - 1) < length xs" using tree_depth_bounds [of "length xs"] by simp_all
  have bj: "length ys \<le> 2 ^ ?j" "?j = 0 \<or> 2 ^ (?j - 1) < length ys" using tree_depth_bounds [of "length ys"] by simp_all
  have x: "root = rtree H ?k xs" "\<not> twins H ?k xs"
    using ComputeMerkleRoot_depth [OF assms(1), of H] assms(5) rtree_root [OF assms(3) bk, of H] by simp_all
  have y: "root = rtree H ?j ys" "\<not> twins H ?j ys"
    using ComputeMerkleRoot_depth [OF assms(2), of H] assms(6) rtree_root [OF assms(4) bj, of H] by simp_all
  have k: "?k = ?j"
    by (rule rtree_height [OF assms(7) order_refl assms(3,4) Un_upper1 Un_upper2]) (use x(1) y(1) in simp)
  show ?thesis
  proof (rule rtree_leaves [OF assms(7,3,4) bk(1)])
    show "length ys \<le> 2 ^ ?k" using bj(1) unfolding k .
    show "hashed H ?k ys \<subseteq> hashed H ?k xs \<union> hashed H ?j ys" unfolding k by (rule Un_upper2)
    show "\<not> twins H ?k ys" using y(2) unfolding k .
    show "rtree H ?k xs = rtree H ?k ys" using x(1) y(1) unfolding k by simp
  qed (rule Un_upper1, rule x(2))
qed

theorem unmutated_root_determines_leaves_witness:
  "ComputeMerkleRoot (@) [[1], [2], [3 :: byte]] = Inr ([1, 2, 3, 3], False) \<and>
   collision_free (@) (hashed (@) 2 [[1], [2], [3 :: byte]]) (set [[1], [2], [3]]) \<and>
   [[1], [2], [3 :: byte]] = [[1], [2], [3]]"
proof -
  let ?xs = "[[1], [2], [3 :: byte]]"
  have d: "tree_depth (length ?xs) = 2" by (simp add: tree_depth.simps)
  have l: "length ?xs \<le> 2 ^ 31" "?xs \<noteq> []" by simp_all
  have c: "ComputeMerkleRoot (@) ?xs = Inr ([1, 2, 3, 3], False)"
    using ComputeMerkleRoot_depth [OF l(1), of "(@)"] d by (simp add: numeral_2_eq_2)
  have f: "collision_free (@) (hashed (@) 2 ?xs) (set ?xs)"
    by (simp add: collision_free_def numeral_2_eq_2)
  have "?xs = ?xs"
    by (rule unmutated_root_determines_leaves [OF l(1,1,2,2) c c]) (use f d in simp)
  then show ?thesis using c f by blast
qed

end
