(* ===== verification/Script.thy ===== *)
theory Script
  imports Serialize "HOL-Library.Sublist"
begin

unbundle bit_operations_syntax

text \<open>
  Scripts: \<open>src/src/script/script.h\<close> and \<open>src/src/script/script.cpp\<close>. A script is its bytes; an
  iterator into a script is the suffix from the iterator to the end. An opcode is the number of the
  enumeration \<open>opcodetype\<close>, since bytes without a name are opcodes too. \<open>CScriptNum\<close> is the integer
  it holds; its encoding works on 64-bit words as the code does. Sizes stay below \<open>2 ^ 32\<close>, the
  range of the size type of the container of scripts, so the casts of sizes do not change them.
\<close>

type_synonym valtype = bytes
type_synonym CScript = bytes
type_synonym opcodetype = nat

definition MAX_SCRIPT_ELEMENT_SIZE :: nat where "MAX_SCRIPT_ELEMENT_SIZE = 520"
definition MAX_OPS_PER_SCRIPT :: int where "MAX_OPS_PER_SCRIPT = 201"
definition MAX_PUBKEYS_PER_MULTISIG :: int where "MAX_PUBKEYS_PER_MULTISIG = 20"
definition MAX_SCRIPT_SIZE :: nat where "MAX_SCRIPT_SIZE = 10000"
definition MAX_STACK_SIZE :: nat where "MAX_STACK_SIZE = 1000"
definition LOCKTIME_THRESHOLD :: int where "LOCKTIME_THRESHOLD = 500000000"

subsection \<open>Opcodes\<close>

abbreviation (input) OP_0 where "OP_0 \<equiv> 0x00"
abbreviation (input) OP_FALSE where "OP_FALSE \<equiv> 0x00"
abbreviation (input) OP_PUSHDATA1 where "OP_PUSHDATA1 \<equiv> 0x4c"
abbreviation (input) OP_PUSHDATA2 where "OP_PUSHDATA2 \<equiv> 0x4d"
abbreviation (input) OP_PUSHDATA4 where "OP_PUSHDATA4 \<equiv> 0x4e"
abbreviation (input) OP_1NEGATE where "OP_1NEGATE \<equiv> 0x4f"
abbreviation (input) OP_RESERVED where "OP_RESERVED \<equiv> 0x50"
abbreviation (input) OP_1 where "OP_1 \<equiv> 0x51"
abbreviation (input) OP_TRUE where "OP_TRUE \<equiv> 0x51"
abbreviation (input) OP_2 where "OP_2 \<equiv> 0x52"
abbreviation (input) OP_3 where "OP_3 \<equiv> 0x53"
abbreviation (input) OP_4 where "OP_4 \<equiv> 0x54"
abbreviation (input) OP_5 where "OP_5 \<equiv> 0x55"
abbreviation (input) OP_6 where "OP_6 \<equiv> 0x56"
abbreviation (input) OP_7 where "OP_7 \<equiv> 0x57"
abbreviation (input) OP_8 where "OP_8 \<equiv> 0x58"
abbreviation (input) OP_9 where "OP_9 \<equiv> 0x59"
abbreviation (input) OP_10 where "OP_10 \<equiv> 0x5a"
abbreviation (input) OP_11 where "OP_11 \<equiv> 0x5b"
abbreviation (input) OP_12 where "OP_12 \<equiv> 0x5c"
abbreviation (input) OP_13 where "OP_13 \<equiv> 0x5d"
abbreviation (input) OP_14 where "OP_14 \<equiv> 0x5e"
abbreviation (input) OP_15 where "OP_15 \<equiv> 0x5f"
abbreviation (input) OP_16 where "OP_16 \<equiv> 0x60"
abbreviation (input) OP_NOP where "OP_NOP \<equiv> 0x61"
abbreviation (input) OP_VER where "OP_VER \<equiv> 0x62"
abbreviation (input) OP_IF where "OP_IF \<equiv> 0x63"
abbreviation (input) OP_NOTIF where "OP_NOTIF \<equiv> 0x64"
abbreviation (input) OP_VERIF where "OP_VERIF \<equiv> 0x65"
abbreviation (input) OP_VERNOTIF where "OP_VERNOTIF \<equiv> 0x66"
abbreviation (input) OP_ELSE where "OP_ELSE \<equiv> 0x67"
abbreviation (input) OP_ENDIF where "OP_ENDIF \<equiv> 0x68"
abbreviation (input) OP_VERIFY where "OP_VERIFY \<equiv> 0x69"
abbreviation (input) OP_RETURN where "OP_RETURN \<equiv> 0x6a"
abbreviation (input) OP_TOALTSTACK where "OP_TOALTSTACK \<equiv> 0x6b"
abbreviation (input) OP_FROMALTSTACK where "OP_FROMALTSTACK \<equiv> 0x6c"
abbreviation (input) OP_2DROP where "OP_2DROP \<equiv> 0x6d"
abbreviation (input) OP_2DUP where "OP_2DUP \<equiv> 0x6e"
abbreviation (input) OP_3DUP where "OP_3DUP \<equiv> 0x6f"
abbreviation (input) OP_2OVER where "OP_2OVER \<equiv> 0x70"
abbreviation (input) OP_2ROT where "OP_2ROT \<equiv> 0x71"
abbreviation (input) OP_2SWAP where "OP_2SWAP \<equiv> 0x72"
abbreviation (input) OP_IFDUP where "OP_IFDUP \<equiv> 0x73"
abbreviation (input) OP_DEPTH where "OP_DEPTH \<equiv> 0x74"
abbreviation (input) OP_DROP where "OP_DROP \<equiv> 0x75"
abbreviation (input) OP_DUP where "OP_DUP \<equiv> 0x76"
abbreviation (input) OP_NIP where "OP_NIP \<equiv> 0x77"
abbreviation (input) OP_OVER where "OP_OVER \<equiv> 0x78"
abbreviation (input) OP_PICK where "OP_PICK \<equiv> 0x79"
abbreviation (input) OP_ROLL where "OP_ROLL \<equiv> 0x7a"
abbreviation (input) OP_ROT where "OP_ROT \<equiv> 0x7b"
abbreviation (input) OP_SWAP where "OP_SWAP \<equiv> 0x7c"
abbreviation (input) OP_TUCK where "OP_TUCK \<equiv> 0x7d"
abbreviation (input) OP_CAT where "OP_CAT \<equiv> 0x7e"
abbreviation (input) OP_SUBSTR where "OP_SUBSTR \<equiv> 0x7f"
abbreviation (input) OP_LEFT where "OP_LEFT \<equiv> 0x80"
abbreviation (input) OP_RIGHT where "OP_RIGHT \<equiv> 0x81"
abbreviation (input) OP_SIZE where "OP_SIZE \<equiv> 0x82"
abbreviation (input) OP_INVERT where "OP_INVERT \<equiv> 0x83"
abbreviation (input) OP_AND where "OP_AND \<equiv> 0x84"
abbreviation (input) OP_OR where "OP_OR \<equiv> 0x85"
abbreviation (input) OP_XOR where "OP_XOR \<equiv> 0x86"
abbreviation (input) OP_EQUAL where "OP_EQUAL \<equiv> 0x87"
abbreviation (input) OP_EQUALVERIFY where "OP_EQUALVERIFY \<equiv> 0x88"
abbreviation (input) OP_RESERVED1 where "OP_RESERVED1 \<equiv> 0x89"
abbreviation (input) OP_RESERVED2 where "OP_RESERVED2 \<equiv> 0x8a"
abbreviation (input) OP_1ADD where "OP_1ADD \<equiv> 0x8b"
abbreviation (input) OP_1SUB where "OP_1SUB \<equiv> 0x8c"
abbreviation (input) OP_2MUL where "OP_2MUL \<equiv> 0x8d"
abbreviation (input) OP_2DIV where "OP_2DIV \<equiv> 0x8e"
abbreviation (input) OP_NEGATE where "OP_NEGATE \<equiv> 0x8f"
abbreviation (input) OP_ABS where "OP_ABS \<equiv> 0x90"
abbreviation (input) OP_NOT where "OP_NOT \<equiv> 0x91"
abbreviation (input) OP_0NOTEQUAL where "OP_0NOTEQUAL \<equiv> 0x92"
abbreviation (input) OP_ADD where "OP_ADD \<equiv> 0x93"
abbreviation (input) OP_SUB where "OP_SUB \<equiv> 0x94"
abbreviation (input) OP_MUL where "OP_MUL \<equiv> 0x95"
abbreviation (input) OP_DIV where "OP_DIV \<equiv> 0x96"
abbreviation (input) OP_MOD where "OP_MOD \<equiv> 0x97"
abbreviation (input) OP_LSHIFT where "OP_LSHIFT \<equiv> 0x98"
abbreviation (input) OP_RSHIFT where "OP_RSHIFT \<equiv> 0x99"
abbreviation (input) OP_BOOLAND where "OP_BOOLAND \<equiv> 0x9a"
abbreviation (input) OP_BOOLOR where "OP_BOOLOR \<equiv> 0x9b"
abbreviation (input) OP_NUMEQUAL where "OP_NUMEQUAL \<equiv> 0x9c"
abbreviation (input) OP_NUMEQUALVERIFY where "OP_NUMEQUALVERIFY \<equiv> 0x9d"
abbreviation (input) OP_NUMNOTEQUAL where "OP_NUMNOTEQUAL \<equiv> 0x9e"
abbreviation (input) OP_LESSTHAN where "OP_LESSTHAN \<equiv> 0x9f"
abbreviation (input) OP_GREATERTHAN where "OP_GREATERTHAN \<equiv> 0xa0"
abbreviation (input) OP_LESSTHANOREQUAL where "OP_LESSTHANOREQUAL \<equiv> 0xa1"
abbreviation (input) OP_GREATERTHANOREQUAL where "OP_GREATERTHANOREQUAL \<equiv> 0xa2"
abbreviation (input) OP_MIN where "OP_MIN \<equiv> 0xa3"
abbreviation (input) OP_MAX where "OP_MAX \<equiv> 0xa4"
abbreviation (input) OP_WITHIN where "OP_WITHIN \<equiv> 0xa5"
abbreviation (input) OP_RIPEMD160 where "OP_RIPEMD160 \<equiv> 0xa6"
abbreviation (input) OP_SHA1 where "OP_SHA1 \<equiv> 0xa7"
abbreviation (input) OP_SHA256 where "OP_SHA256 \<equiv> 0xa8"
abbreviation (input) OP_HASH160 where "OP_HASH160 \<equiv> 0xa9"
abbreviation (input) OP_HASH256 where "OP_HASH256 \<equiv> 0xaa"
abbreviation (input) OP_CODESEPARATOR where "OP_CODESEPARATOR \<equiv> 0xab"
abbreviation (input) OP_CHECKSIG where "OP_CHECKSIG \<equiv> 0xac"
abbreviation (input) OP_CHECKSIGVERIFY where "OP_CHECKSIGVERIFY \<equiv> 0xad"
abbreviation (input) OP_CHECKMULTISIG where "OP_CHECKMULTISIG \<equiv> 0xae"
abbreviation (input) OP_CHECKMULTISIGVERIFY where "OP_CHECKMULTISIGVERIFY \<equiv> 0xaf"
abbreviation (input) OP_NOP1 where "OP_NOP1 \<equiv> 0xb0"
abbreviation (input) OP_CHECKLOCKTIMEVERIFY where "OP_CHECKLOCKTIMEVERIFY \<equiv> 0xb1"
abbreviation (input) OP_NOP2 where "OP_NOP2 \<equiv> 0xb1"
abbreviation (input) OP_CHECKSEQUENCEVERIFY where "OP_CHECKSEQUENCEVERIFY \<equiv> 0xb2"
abbreviation (input) OP_NOP3 where "OP_NOP3 \<equiv> 0xb2"
abbreviation (input) OP_NOP4 where "OP_NOP4 \<equiv> 0xb3"
abbreviation (input) OP_NOP5 where "OP_NOP5 \<equiv> 0xb4"
abbreviation (input) OP_NOP6 where "OP_NOP6 \<equiv> 0xb5"
abbreviation (input) OP_NOP7 where "OP_NOP7 \<equiv> 0xb6"
abbreviation (input) OP_NOP8 where "OP_NOP8 \<equiv> 0xb7"
abbreviation (input) OP_NOP9 where "OP_NOP9 \<equiv> 0xb8"
abbreviation (input) OP_NOP10 where "OP_NOP10 \<equiv> 0xb9"
abbreviation (input) OP_RVH_ASSET where "OP_RVH_ASSET \<equiv> 0xc0"
abbreviation (input) OP_SMALLINTEGER where "OP_SMALLINTEGER \<equiv> 0xfa"
abbreviation (input) OP_PUBKEYS where "OP_PUBKEYS \<equiv> 0xfb"
abbreviation (input) OP_PUBKEYHASH where "OP_PUBKEYHASH \<equiv> 0xfd"
abbreviation (input) OP_PUBKEY where "OP_PUBKEY \<equiv> 0xfe"
abbreviation (input) OP_INVALIDOPCODE where "OP_INVALIDOPCODE \<equiv> 0xff"

definition MAX_OPCODE :: opcodetype where "MAX_OPCODE = OP_NOP10"

definition op_names :: "(opcodetype \<times> string) list" where
  "op_names =
    [(OP_0, ''0''), (OP_PUSHDATA1, ''OP_PUSHDATA1''), (OP_PUSHDATA2, ''OP_PUSHDATA2''),
     (OP_PUSHDATA4, ''OP_PUSHDATA4''), (OP_1NEGATE, ''-1''), (OP_RESERVED, ''OP_RESERVED''), (OP_1, ''1''),
     (OP_2, ''2''), (OP_3, ''3''), (OP_4, ''4''), (OP_5, ''5''), (OP_6, ''6''), (OP_7, ''7''), (OP_8, ''8''),
     (OP_9, ''9''), (OP_10, ''10''), (OP_11, ''11''), (OP_12, ''12''), (OP_13, ''13''), (OP_14, ''14''),
     (OP_15, ''15''), (OP_16, ''16''), (OP_NOP, ''OP_NOP''), (OP_VER, ''OP_VER''), (OP_IF, ''OP_IF''),
     (OP_NOTIF, ''OP_NOTIF''), (OP_VERIF, ''OP_VERIF''), (OP_VERNOTIF, ''OP_VERNOTIF''), (OP_ELSE, ''OP_ELSE''),
     (OP_ENDIF, ''OP_ENDIF''), (OP_VERIFY, ''OP_VERIFY''), (OP_RETURN, ''OP_RETURN''),
     (OP_TOALTSTACK, ''OP_TOALTSTACK''), (OP_FROMALTSTACK, ''OP_FROMALTSTACK''), (OP_2DROP, ''OP_2DROP''),
     (OP_2DUP, ''OP_2DUP''), (OP_3DUP, ''OP_3DUP''), (OP_2OVER, ''OP_2OVER''), (OP_2ROT, ''OP_2ROT''),
     (OP_2SWAP, ''OP_2SWAP''), (OP_IFDUP, ''OP_IFDUP''), (OP_DEPTH, ''OP_DEPTH''), (OP_DROP, ''OP_DROP''),
     (OP_DUP, ''OP_DUP''), (OP_NIP, ''OP_NIP''), (OP_OVER, ''OP_OVER''), (OP_PICK, ''OP_PICK''),
     (OP_ROLL, ''OP_ROLL''), (OP_ROT, ''OP_ROT''), (OP_SWAP, ''OP_SWAP''), (OP_TUCK, ''OP_TUCK''),
     (OP_CAT, ''OP_CAT''), (OP_SUBSTR, ''OP_SUBSTR''), (OP_LEFT, ''OP_LEFT''), (OP_RIGHT, ''OP_RIGHT''),
     (OP_SIZE, ''OP_SIZE''), (OP_INVERT, ''OP_INVERT''), (OP_AND, ''OP_AND''), (OP_OR, ''OP_OR''),
     (OP_XOR, ''OP_XOR''), (OP_EQUAL, ''OP_EQUAL''), (OP_EQUALVERIFY, ''OP_EQUALVERIFY''),
     (OP_RESERVED1, ''OP_RESERVED1''), (OP_RESERVED2, ''OP_RESERVED2''), (OP_1ADD, ''OP_1ADD''),
     (OP_1SUB, ''OP_1SUB''), (OP_2MUL, ''OP_2MUL''), (OP_2DIV, ''OP_2DIV''), (OP_NEGATE, ''OP_NEGATE''),
     (OP_ABS, ''OP_ABS''), (OP_NOT, ''OP_NOT''), (OP_0NOTEQUAL, ''OP_0NOTEQUAL''), (OP_ADD, ''OP_ADD''),
     (OP_SUB, ''OP_SUB''), (OP_MUL, ''OP_MUL''), (OP_DIV, ''OP_DIV''), (OP_MOD, ''OP_MOD''),
     (OP_LSHIFT, ''OP_LSHIFT''), (OP_RSHIFT, ''OP_RSHIFT''), (OP_BOOLAND, ''OP_BOOLAND''),
     (OP_BOOLOR, ''OP_BOOLOR''), (OP_NUMEQUAL, ''OP_NUMEQUAL''), (OP_NUMEQUALVERIFY, ''OP_NUMEQUALVERIFY''),
     (OP_NUMNOTEQUAL, ''OP_NUMNOTEQUAL''), (OP_LESSTHAN, ''OP_LESSTHAN''), (OP_GREATERTHAN, ''OP_GREATERTHAN''),
     (OP_LESSTHANOREQUAL, ''OP_LESSTHANOREQUAL''), (OP_GREATERTHANOREQUAL, ''OP_GREATERTHANOREQUAL''),
     (OP_MIN, ''OP_MIN''), (OP_MAX, ''OP_MAX''), (OP_WITHIN, ''OP_WITHIN''), (OP_RIPEMD160, ''OP_RIPEMD160''),
     (OP_SHA1, ''OP_SHA1''), (OP_SHA256, ''OP_SHA256''), (OP_HASH160, ''OP_HASH160''),
     (OP_HASH256, ''OP_HASH256''), (OP_CODESEPARATOR, ''OP_CODESEPARATOR''), (OP_CHECKSIG, ''OP_CHECKSIG''),
     (OP_CHECKSIGVERIFY, ''OP_CHECKSIGVERIFY''), (OP_CHECKMULTISIG, ''OP_CHECKMULTISIG''),
     (OP_CHECKMULTISIGVERIFY, ''OP_CHECKMULTISIGVERIFY''), (OP_NOP1, ''OP_NOP1''),
     (OP_CHECKLOCKTIMEVERIFY, ''OP_CHECKLOCKTIMEVERIFY''), (OP_CHECKSEQUENCEVERIFY, ''OP_CHECKSEQUENCEVERIFY''),
     (OP_NOP4, ''OP_NOP4''), (OP_NOP5, ''OP_NOP5''), (OP_NOP6, ''OP_NOP6''), (OP_NOP7, ''OP_NOP7''),
     (OP_NOP8, ''OP_NOP8''), (OP_NOP9, ''OP_NOP9''), (OP_NOP10, ''OP_NOP10''), (OP_RVH_ASSET, ''OP_RVH_ASSET''),
     (OP_INVALIDOPCODE, ''OP_INVALIDOPCODE'')]"

definition GetOpName :: "opcodetype \<Rightarrow> string" where
  "GetOpName opcode = (case map_of op_names opcode of Some name \<Rightarrow> name | None \<Rightarrow> ''OP_UNKNOWN'')"

subsection \<open>Script numbers\<close>

fun set_vch_loop :: "bytes \<Rightarrow> nat \<Rightarrow> u64 \<Rightarrow> u64" where
  "set_vch_loop [] i result = result"
| "set_vch_loop (b # vch) i result = set_vch_loop vch (i + 1) (result OR push_bit (8 * i) (ucast b))"

text \<open>Shifting an \<open>int64_t\<close> by 64 bits or more is undefined, so at most eight bytes can be read.\<close>

definition set_vch :: "valtype \<Rightarrow> int result" where
  "set_vch vch =
     (if vch = [] then Inr 0
      else if 8 < length vch then Inl OutOfRange
      else let result = set_vch_loop vch 0 0 in
           if last vch AND 0x80 \<noteq> 0
           then Inr (- sint (result AND NOT (push_bit (8 * (length vch - 1)) 0x80)))
           else Inr (sint result))"

definition CScriptNum_vch :: "valtype \<Rightarrow> bool \<Rightarrow> nat \<Rightarrow> int result" where
  "CScriptNum_vch vch fRequireMinimal nMaxNumSize =
     (if nMaxNumSize < length vch then Inl (Thrown ''script number overflow'')
      else if fRequireMinimal \<and> 0 < length vch \<and> last vch AND 0x7f = 0 \<and>
              (length vch \<le> 1 \<or> vch ! (length vch - 2) AND 0x80 = 0)
      then Inl (Thrown ''non-minimally encoded script number'')
      else set_vch vch)"

definition nDefaultMaxNumSize :: nat where "nDefaultMaxNumSize = 4"

definition num_add :: "int \<Rightarrow> int \<Rightarrow> int result" where
  "num_add m rhs = i64 (m + rhs)"

definition num_sub :: "int \<Rightarrow> int \<Rightarrow> int result" where
  "num_sub m rhs = i64 (m - rhs)"

definition num_and :: "int \<Rightarrow> int \<Rightarrow> int" where
  "num_and m rhs = sint ((word_of_int m :: u64) AND word_of_int rhs)"

definition num_neg :: "int \<Rightarrow> int result" where
  "num_neg m = bindR (assertR (m \<noteq> - 9223372036854775808)) (\<lambda>_. i64 (- m))"

definition num_add_assign :: "int \<Rightarrow> int \<Rightarrow> int result" where
  "num_add_assign m rhs =
     bindR (assertR (rhs = 0 \<or> (0 < rhs \<and> m \<le> INT64_MAX - rhs) \<or> (rhs < 0 \<and> - 9223372036854775808 - rhs \<le> m)))
       (\<lambda>_. i64 (m + rhs))"

definition num_sub_assign :: "int \<Rightarrow> int \<Rightarrow> int result" where
  "num_sub_assign m rhs =
     bindR (assertR (rhs = 0 \<or> (0 < rhs \<and> - 9223372036854775808 + rhs \<le> m) \<or> (rhs < 0 \<and> m \<le> INT64_MAX + rhs)))
       (\<lambda>_. i64 (m - rhs))"

definition getint :: "int \<Rightarrow> int" where
  "getint m = (if INT32_MAX < m then INT32_MAX else if m < - 2147483648 then - 2147483648 else m)"

function abs_bytes :: "u64 \<Rightarrow> bytes" where
  "abs_bytes absvalue = (if absvalue = 0 then [] else ucast (absvalue AND 0xff) # abs_bytes (drop_bit 8 absvalue))"
  by pat_completeness auto
termination
proof (relation "measure unat")
  fix a :: u64
  assume "a \<noteq> 0"
  then have "0 < unat a" by (simp add: unat_gt_0)
  moreover have "unat (drop_bit 8 a) = unat a div 256" by (simp add: drop_bit_eq_div unat_div)
  ultimately show "(drop_bit 8 a, a) \<in> measure unat" by simp
qed simp

declare abs_bytes.simps [simp del]

definition serialize :: "int \<Rightarrow> valtype result" where
  "serialize value =
     (if value = 0 then Inr []
      else bindR (if value < 0 then i64 (- value) else Inr value) (\<lambda>absvalue.
           let neg = value < 0; result = abs_bytes (word_of_int absvalue) in
           Inr (if last result AND 0x80 \<noteq> 0 then result @ [if neg then 0x80 else 0]
                else if neg then butlast result @ [last result OR 0x80] else result)))"

definition getvch :: "int \<Rightarrow> valtype result" where
  "getvch m = serialize m"

subsection \<open>Building scripts\<close>

definition push_opcode :: "CScript \<Rightarrow> opcodetype \<Rightarrow> CScript result" where
  "push_opcode s opcode =
     (if 0xff < opcode then Inl (Thrown ''CScript::operator<<(): invalid opcode'') else Inr (s @ [of_nat opcode]))"

definition push_data :: "CScript \<Rightarrow> valtype \<Rightarrow> CScript" where
  "push_data s b =
     (if length b < OP_PUSHDATA1 then s @ [of_nat (length b)]
      else if length b \<le> 0xff then s @ [OP_PUSHDATA1] @ [of_nat (length b)]
      else if length b \<le> 0xffff then s @ [OP_PUSHDATA2] @ le_bytes 2 (length b)
      else s @ [OP_PUSHDATA4] @ le_bytes 4 (length b)) @ b"

definition push_int64 :: "CScript \<Rightarrow> int \<Rightarrow> CScript result" where
  "push_int64 s n =
     (if n = - 1 \<or> (1 \<le> n \<and> n \<le> 16) then Inr (s @ [word_of_int (n + (int OP_1 - 1))])
      else if n = 0 then Inr (s @ [OP_0])
      else bindR (serialize n) (\<lambda>b. Inr (push_data s b)))"

subsection \<open>Reading scripts\<close>

definition push_size :: "opcodetype \<Rightarrow> CScript \<Rightarrow> (nat \<times> CScript) option" where
  "push_size opcode pc =
     (if opcode < OP_PUSHDATA1 then Some (opcode, pc)
      else if opcode = OP_PUSHDATA1 then if length pc < 1 then None else Some (unat (hd pc), tl pc)
      else if opcode = OP_PUSHDATA2 then if length pc < 2 then None else Some (le_val (take 2 pc), drop 2 pc)
      else if length pc < 4 then None else Some (le_val (take 4 pc), drop 4 pc))"

text \<open>The result is the returned flag, the opcode, the data and the iterator afterwards.\<close>

definition GetOp2 :: "CScript \<Rightarrow> bool \<times> opcodetype \<times> valtype \<times> CScript" where
  "GetOp2 pc =
     (case pc of [] \<Rightarrow> (False, OP_INVALIDOPCODE, [], [])
      | b # pc \<Rightarrow>
        let opcode = unat b in
        if opcode \<le> OP_PUSHDATA4 then
          (case push_size opcode pc of
             None \<Rightarrow> (False, OP_INVALIDOPCODE, [], pc)
           | Some (nSize, pc) \<Rightarrow>
               if length pc < nSize then (False, OP_INVALIDOPCODE, [], pc)
               else (True, opcode, take nSize pc, drop nSize pc))
        else if opcode = OP_RVH_ASSET then (True, opcode, pc, [])
        else (True, opcode, [], pc))"

definition DecodeOP_N :: "opcodetype \<Rightarrow> int result" where
  "DecodeOP_N opcode =
     (if opcode = OP_0 then Inr 0
      else bindR (assertR (OP_1 \<le> opcode \<and> opcode \<le> OP_16)) (\<lambda>_. Inr (int opcode - (int OP_1 - 1))))"

definition EncodeOP_N :: "int \<Rightarrow> opcodetype result" where
  "EncodeOP_N n =
     bindR (assertR (0 \<le> n \<and> n \<le> 16)) (\<lambda>_. Inr (if n = 0 then OP_0 else nat (int OP_1 + n - 1)))"

lemma push_size_shorter: "push_size opcode pc = Some (n, pc') \<Longrightarrow> length pc' \<le> length pc"
  by (auto simp: push_size_def split: if_splits)

lemma GetOp2_shorter: "GetOp2 pc = (True, opcode, vch, pc') \<Longrightarrow> length pc' < length pc"
  by (auto simp: GetOp2_def Let_def less_Suc_eq_le dest!: push_size_shorter split: list.splits if_splits option.splits prod.splits)

lemma length_dropWhile_pos [termination_simp]: "b \<noteq> [] \<Longrightarrow> prefix b pc \<Longrightarrow> length (drop (length b) pc) < length pc"
  by (cases pc) (auto simp: prefix_def)

function skip_copies :: "CScript \<Rightarrow> CScript \<Rightarrow> nat \<times> CScript" where
  "skip_copies b pc =
     (if b \<noteq> [] \<and> prefix b pc
      then (case skip_copies b (drop (length b) pc) of (nFound, pc') \<Rightarrow> (nFound + 1, pc'))
      else (0, pc))"
  by pat_completeness auto
termination by (relation "measure (\<lambda>(b, pc). length pc)") (auto dest: length_dropWhile_pos)

declare skip_copies.simps [simp del]

lemma skip_copies_suffix:
  "skip_copies b pc = (n, pc') \<Longrightarrow> \<exists>k. pc = concat (replicate n b) @ pc' \<and> k = n"
proof (induction b pc arbitrary: n pc' rule: skip_copies.induct)
  case (1 b pc)
  show ?case
  proof (cases "b \<noteq> [] \<and> prefix b pc")
    case True
    obtain m q where r: "skip_copies b (drop (length b) pc) = (m, q)" by fastforce
    then have "drop (length b) pc = concat (replicate m b) @ q" "n = m + 1" "pc' = q"
      using 1 True by (auto simp: skip_copies.simps [of b pc])
    moreover have "pc = b @ drop (length b) pc" using True by (auto simp: prefix_def)
    ultimately show ?thesis by simp
  next
    case False
    then show ?thesis using "1.prems" by (simp add: skip_copies.simps [of b pc] split: if_splits)
  qed
qed

lemma skip_copies_length: "skip_copies b pc = (n, pc') \<Longrightarrow> length pc = n * length b + length pc'"
  by (auto dest!: skip_copies_suffix simp: length_concat sum_list_replicate)

function find_loop :: "CScript \<Rightarrow> CScript \<Rightarrow> CScript \<Rightarrow> CScript \<Rightarrow> nat \<Rightarrow> nat \<times> CScript" where
  "find_loop b pc2 pc result nFound =
     (case skip_copies b pc of (k, pc') \<Rightarrow>
      let result' = result @ take (length pc2 - length pc) pc2; nFound' = nFound + k in
      case GetOp2 pc' of (ok, _, _, pc3) \<Rightarrow>
        if ok then find_loop b pc' pc3 result' nFound' else (nFound', result' @ pc'))"
  by pat_completeness auto
termination
  by (relation "measure (\<lambda>(b, pc2, pc, result, n). length pc)")
     (auto dest!: GetOp2_shorter [OF sym] skip_copies_length [OF sym])

declare find_loop.simps [simp del]

definition FindAndDelete :: "CScript \<Rightarrow> CScript \<Rightarrow> nat \<times> CScript" where
  "FindAndDelete script b =
     (if b = [] then (0, script)
      else case find_loop b script script [] 0 of (nFound, result) \<Rightarrow>
           if 0 < nFound then (nFound, result) else (nFound, script))"

function Find :: "CScript \<Rightarrow> opcodetype \<Rightarrow> nat" where
  "Find pc op =
     (case GetOp2 pc of (ok, opcode, _, pc') \<Rightarrow>
        if ok then (if opcode = op then 1 else 0) + Find pc' op else 0)"
  by pat_completeness auto
termination by (relation "measure (\<lambda>(pc, op). length pc)") (auto dest!: GetOp2_shorter [OF sym])

declare Find.simps [simp del]

subsection \<open>Counting signature operations\<close>

function sigop_loop :: "bool \<Rightarrow> CScript \<Rightarrow> opcodetype \<Rightarrow> u32 \<Rightarrow> u32 result" where
  "sigop_loop fAccurate pc lastOpcode n =
     (if pc = [] then Inr n
      else case GetOp2 pc of (ok, opcode, _, pc') \<Rightarrow>
        if \<not> ok then Inr n
        else bindR
          (if opcode = OP_CHECKSIG \<or> opcode = OP_CHECKSIGVERIFY then Inr (n + 1)
           else if opcode = OP_CHECKMULTISIG \<or> opcode = OP_CHECKMULTISIGVERIFY then
             if fAccurate \<and> OP_1 \<le> lastOpcode \<and> lastOpcode \<le> OP_16
             then bindR (DecodeOP_N lastOpcode) (\<lambda>k. Inr (n + word_of_int k))
             else Inr (n + word_of_int MAX_PUBKEYS_PER_MULTISIG)
           else Inr n)
          (\<lambda>n'. sigop_loop fAccurate pc' opcode n'))"
  by pat_completeness auto
termination by (relation "measure (\<lambda>(_, pc, _). length pc)") (auto dest!: GetOp2_shorter [OF sym])

declare sigop_loop.simps [simp del]

definition GetSigOpCount :: "CScript \<Rightarrow> bool \<Rightarrow> u32 result" where
  "GetSigOpCount s fAccurate = sigop_loop fAccurate s OP_INVALIDOPCODE 0"

subsection \<open>Templates\<close>

definition IsPayToPublicKeyHash :: "CScript \<Rightarrow> bool" where
  "IsPayToPublicKeyHash s \<longleftrightarrow> length s = 25 \<and> s ! 0 = OP_DUP \<and> s ! 1 = OP_HASH160 \<and> s ! 2 = 0x14 \<and>
     s ! 23 = OP_EQUALVERIFY \<and> s ! 24 = OP_CHECKSIG"

definition IsPayToScriptHash :: "CScript \<Rightarrow> bool" where
  "IsPayToScriptHash s \<longleftrightarrow> length s = 23 \<and> s ! 0 = OP_HASH160 \<and> s ! 1 = 0x14 \<and> s ! 22 = OP_EQUAL"

definition IsPayToWitnessScriptHash :: "CScript \<Rightarrow> bool" where
  "IsPayToWitnessScriptHash s \<longleftrightarrow> length s = 34 \<and> s ! 0 = OP_0 \<and> s ! 1 = 0x20"

definition IsWitnessProgram :: "CScript \<Rightarrow> (int \<times> valtype) option result" where
  "IsWitnessProgram s =
     (if length s < 4 \<or> 42 < length s then Inr None
      else if s ! 0 \<noteq> OP_0 \<and> (unat (s ! 0) < OP_1 \<or> OP_16 < unat (s ! 0)) then Inr None
      else if unat (s ! 1) + 2 = length s
      then bindR (DecodeOP_N (unat (s ! 0))) (\<lambda>version. Inr (Some (version, drop 2 s)))
      else Inr None)"

definition IsPayToPublicKey :: "CScript \<Rightarrow> bool" where
  "IsPayToPublicKey s \<longleftrightarrow>
     (if length s = 35 then (s ! 1 = 0x02 \<or> s ! 1 = 0x03) \<and> s ! 34 = OP_CHECKSIG
      else if length s = 67 then s ! 1 = 0x04 \<and> s ! 66 = OP_CHECKSIG
      else False)"

function IsPushOnly :: "CScript \<Rightarrow> bool" where
  "IsPushOnly pc =
     (if pc = [] then True
      else case GetOp2 pc of (ok, opcode, _, pc') \<Rightarrow>
        if \<not> ok then False else if OP_16 < opcode then False else IsPushOnly pc')"
  by pat_completeness auto
termination by (relation "measure length") (auto dest!: GetOp2_shorter [OF sym])

declare IsPushOnly.simps [simp del]

function HasValidOps :: "CScript \<Rightarrow> bool" where
  "HasValidOps it =
     (if it = [] then True
      else case GetOp2 it of (ok, opcode, item, it') \<Rightarrow>
        if \<not> ok \<or> MAX_OPCODE < opcode \<or> MAX_SCRIPT_ELEMENT_SIZE < length item then False else HasValidOps it')"
  by pat_completeness auto
termination by (relation "measure length") (auto dest!: GetOp2_shorter [OF sym])

declare HasValidOps.simps [simp del]

text \<open>The last data a script pushes, as \<open>GetSigOpCount\<close> collects it; None when a non-push operation occurs.\<close>

function last_push :: "CScript \<Rightarrow> valtype \<Rightarrow> valtype option" where
  "last_push pc vData =
     (if pc = [] then Some vData
      else case GetOp2 pc of (ok, opcode, vData', pc') \<Rightarrow>
        if \<not> ok then None else if OP_16 < opcode then None else last_push pc' vData')"
  by pat_completeness auto
termination by (relation "measure (\<lambda>(pc, v). length pc)") (auto dest!: GetOp2_shorter [OF sym])

declare last_push.simps [simp del]

definition GetSigOpCount_p2sh :: "CScript \<Rightarrow> CScript \<Rightarrow> u32 result" where
  "GetSigOpCount_p2sh s scriptSig =
     (if \<not> IsPayToScriptHash s then GetSigOpCount s True
      else case last_push scriptSig [] of None \<Rightarrow> Inr 0 | Some vData \<Rightarrow> GetSigOpCount vData True)"

subsection \<open>Asset scripts\<close>

datatype txnouttype =
    TX_NONSTANDARD | TX_PUBKEY | TX_PUBKEYHASH | TX_SCRIPTHASH | TX_MULTISIG | TX_NULL_DATA
  | TX_WITNESS_V0_SCRIPTHASH | TX_WITNESS_V0_KEYHASH | TX_NEW_ASSET | TX_REISSUE_ASSET
  | TX_TRANSFER_ASSET | TX_RESTRICTED_ASSET_DATA

abbreviation (input) RVH_N where "RVH_N \<equiv> 114"
abbreviation (input) RVH_E where "RVH_E \<equiv> 118"
abbreviation (input) RVH_X where "RVH_X \<equiv> 110"
abbreviation (input) RVH_Q where "RVH_Q \<equiv> 113"
abbreviation (input) RVH_T where "RVH_T \<equiv> 116"
abbreviation (input) RVH_O where "RVH_O \<equiv> 111"

text \<open>The position after the three marker letters; 0 stands for the index -1 of the code.\<close>

definition asset_marker :: "CScript \<Rightarrow> nat" where
  "asset_marker s =
     (if s ! 27 = RVH_N then if s ! 28 = RVH_E \<and> s ! 29 = RVH_X then 30 else 0
      else if s ! 28 = RVH_N \<and> s ! 29 = RVH_E \<and> s ! 30 = RVH_X then 31 else 0)"

text \<open>The type, whether it is an owner asset, and where the asset data begins.\<close>

definition IsAssetScript :: "CScript \<Rightarrow> (txnouttype \<times> bool \<times> nat) option" where
  "IsAssetScript s =
     (if 31 < length s \<and> s ! 25 = OP_RVH_ASSET then
        let index = asset_marker s in
        if 0 < index then
          if s ! index = RVH_T then Some (TX_TRANSFER_ASSET, False, index + 1)
          else if s ! index = RVH_Q \<and> 39 < length s then Some (TX_NEW_ASSET, False, index + 1)
          else if s ! index = RVH_O then Some (TX_NEW_ASSET, True, index + 1)
          else if s ! index = RVH_N then Some (TX_REISSUE_ASSET, False, index + 1)
          else None
        else None
      else None)"

definition IsNewAsset :: "CScript \<Rightarrow> bool" where
  "IsNewAsset s = (case IsAssetScript s of Some (nType, fIsOwner, _) \<Rightarrow> \<not> fIsOwner \<and> nType = TX_NEW_ASSET | None \<Rightarrow> False)"

definition IsOwnerAsset :: "CScript \<Rightarrow> bool" where
  "IsOwnerAsset s = (case IsAssetScript s of Some (nType, fIsOwner, _) \<Rightarrow> fIsOwner \<and> nType = TX_NEW_ASSET | None \<Rightarrow> False)"

definition IsReissueAsset :: "CScript \<Rightarrow> bool" where
  "IsReissueAsset s = (case IsAssetScript s of Some (nType, _, _) \<Rightarrow> nType = TX_REISSUE_ASSET | None \<Rightarrow> False)"

definition IsTransferAsset :: "CScript \<Rightarrow> bool" where
  "IsTransferAsset s = (case IsAssetScript s of Some (nType, _, _) \<Rightarrow> nType = TX_TRANSFER_ASSET | None \<Rightarrow> False)"

definition IsNullAssetTxDataScript :: "CScript \<Rightarrow> bool" where
  "IsNullAssetTxDataScript s \<longleftrightarrow> 23 < length s \<and> s ! 0 = OP_RVH_ASSET \<and> s ! 1 = 0x14"

definition IsNullGlobalRestrictionAssetTxDataScript :: "CScript \<Rightarrow> bool" where
  "IsNullGlobalRestrictionAssetTxDataScript s \<longleftrightarrow>
     6 < length s \<and> s ! 0 = OP_RVH_ASSET \<and> s ! 1 = OP_RESERVED \<and> s ! 2 = OP_RESERVED"

definition IsNullAssetVerifierTxDataScript :: "CScript \<Rightarrow> bool" where
  "IsNullAssetVerifierTxDataScript s \<longleftrightarrow>
     3 < length s \<and> s ! 0 = OP_RVH_ASSET \<and> s ! 1 = OP_RESERVED \<and> s ! 2 \<noteq> OP_RESERVED"

definition IsNullAsset :: "CScript \<Rightarrow> bool" where
  "IsNullAsset s \<longleftrightarrow>
     IsNullAssetTxDataScript s \<or> IsNullGlobalRestrictionAssetTxDataScript s \<or> IsNullAssetVerifierTxDataScript s"

definition ScriptNewAsset :: "CScript \<Rightarrow> nat option" where
  "ScriptNewAsset s = (case IsAssetScript s of Some (nType, fIsOwner, i) \<Rightarrow>
     if nType = TX_NEW_ASSET \<and> \<not> fIsOwner then Some i else None | None \<Rightarrow> None)"

definition ScriptTransferAsset :: "CScript \<Rightarrow> nat option" where
  "ScriptTransferAsset s = (case IsAssetScript s of Some (nType, _, i) \<Rightarrow>
     if nType = TX_TRANSFER_ASSET then Some i else None | None \<Rightarrow> None)"

definition ScriptReissueAsset :: "CScript \<Rightarrow> nat option" where
  "ScriptReissueAsset s = (case IsAssetScript s of Some (nType, _, i) \<Rightarrow>
     if nType = TX_REISSUE_ASSET then Some i else None | None \<Rightarrow> None)"

subsection \<open>Encoding of script numbers\<close>

lemma byte_low7: "unat ((b :: byte) AND 0x7f) = unat b mod 128"
proof -
  have "b AND 0x7f = take_bit 7 b" by (simp add: take_bit_eq_mask mask_numeral)
  then show ?thesis by (simp add: unsigned_take_bit_eq) (simp add: take_bit_eq_mod)
qed

lemma byte_high: "(b :: byte) AND 0x80 \<noteq> 0 \<longleftrightarrow> 128 \<le> unat b"
proof -
  have "b AND 0x80 = 0 \<longleftrightarrow> unat b AND 2 ^ 7 = 0" by (simp add: unat_eq_0 [symmetric] unsigned_and_eq)
  then have "b AND 0x80 \<noteq> 0 \<longleftrightarrow> bit (unat b) 7" by (simp only: and_exp_eq_0_iff_not_bit not_not)
  also have "\<dots> \<longleftrightarrow> odd (unat b div 128)" by (simp add: bit_iff_odd)
  also have "\<dots> \<longleftrightarrow> 128 \<le> unat b"
  proof (cases "unat b < 128")
    case False
    then have "unat b div 128 = 1" using byte_less [of b] by (intro div_nat_eqI) simp_all
    then show ?thesis using False by simp
  qed simp
  finally show ?thesis .
qed

lemma byte_set_high: "unat b < 128 \<Longrightarrow> unat ((b :: byte) OR 0x80) = unat b + 128"
proof -
  assume b: "unat b < 128"
  have "unat (b OR 0x80) = unat b OR 2 ^ 7" by (simp add: unsigned_or_eq)
  also have "\<dots> = unat b + 2 ^ 7"
  proof (rule disjunctive_add [symmetric])
    fix n
    have "\<not> bit (unat b) 7" using b by (simp add: bit_iff_odd)
    then show "\<not> bit (unat b) n \<or> \<not> bit ((2 :: nat) ^ 7) n" by (auto simp: bit_exp_iff simp del: power_numeral)
  qed
  finally show ?thesis by simp
qed

subsubsection \<open>Digits\<close>

function digits :: "nat \<Rightarrow> bytes" where
  "digits m = (if m = 0 then [] else of_nat (m mod 256) # digits (m div 256))"
  by pat_completeness auto
termination by (relation "measure id") auto

declare digits.simps [simp del]

lemma digits_0 [simp]: "digits 0 = []"
  by (simp add: digits.simps)

lemma le_val_digits [simp]: "le_val (digits m) = m"
  by (induction m rule: digits.induct) (subst digits.simps, simp add: take_bit_nat_eq_self unsigned_of_nat take_bit_eq_mod)

lemma digits_eq_Nil [simp]: "digits m = [] \<longleftrightarrow> m = 0"
  by (subst digits.simps) simp

lemma last_digits: "m \<noteq> 0 \<Longrightarrow> last (digits m) \<noteq> 0"
proof (induction m rule: digits.induct)
  case (1 m)
  show ?case
  proof (cases "m div 256 = 0")
    case True
    then have "m < 256" by simp
    then have "unat (of_nat m :: byte) = m" by (simp add: unsigned_of_nat take_bit_nat_eq_self)
    then have "(of_nat m :: byte) \<noteq> 0" using 1(2) by force
    then show ?thesis using True 1(2) \<open>m < 256\<close> by (subst digits.simps) simp
  next
    case False
    then show ?thesis using 1 by (subst digits.simps) simp
  qed
qed

lemma digits_le_val: "bs = [] \<or> last bs \<noteq> 0 \<Longrightarrow> digits (le_val bs) = bs"
proof (induction bs)
  case (Cons b bs)
  have d: "digits (le_val bs) = bs" using Cons by (cases bs) auto
  have "le_val (b # bs) \<noteq> 0"
  proof (cases bs)
    case Nil
    then show ?thesis using Cons.prems by (simp add: unat_eq_0)
  next
    case (Cons c cs)
    then have "le_val bs \<noteq> 0" using d digits_0 by (metis list.distinct(1))
    then show ?thesis by (simp only: le_val.simps)
  qed
  moreover have "le_val (b # bs) mod 256 = unat b" "le_val (b # bs) div 256 = le_val bs" by simp_all
  ultimately show ?case using d by (subst digits.simps) simp
qed simp

lemma length_digits: "m < 256 ^ k \<Longrightarrow> length (digits m) \<le> k"
proof (induction k arbitrary: m)
  case (Suc k)
  show ?case
  proof (cases "m = 0")
    case False
    have "m div 256 < 256 ^ k" using Suc.prems by (simp add: less_mult_imp_div_less mult.commute)
    then show ?thesis using Suc.IH False by (subst digits.simps) simp
  qed simp
qed simp

lemma le_val_append: "le_val (xs @ ys) = le_val xs + 256 ^ length xs * le_val ys"
  by (induction xs) (simp_all add: algebra_simps)

lemma digits_lower: "m \<noteq> 0 \<Longrightarrow> 256 ^ (length (digits m) - 1) * unat (last (digits m)) \<le> m"
proof -
  assume "m \<noteq> 0"
  then have "digits m = butlast (digits m) @ [last (digits m)]" by simp
  then have "m = le_val (butlast (digits m)) + 256 ^ (length (digits m) - 1) * unat (last (digits m))"
    using le_val_append [of "butlast (digits m)" "[last (digits m)]"] by (metis le_val_digits length_butlast le_val.simps mult_0_right add_0_right)
  then show ?thesis by linarith
qed

lemma abs_bytes_digits: "abs_bytes w = digits (unat w)"
proof (induction w rule: abs_bytes.induct)
  case (1 w)
  have d: "unat (drop_bit 8 w) = unat w div 256" by (simp add: drop_bit_eq_div unat_div)
  have a: "(ucast (w AND 0xff) :: byte) = of_nat (unat w mod 256)"
  proof -
    have "w AND 0xff = take_bit 8 w" by (simp add: take_bit_eq_mask mask_numeral)
    then have "unat (w AND 0xff) = unat w mod 256" by (simp add: unsigned_take_bit_eq) (simp add: take_bit_eq_mod)
    moreover have "unat (ucast (w AND 0xff) :: byte) = unat (w AND 0xff) mod 256" by (simp add: unsigned_ucast_eq take_bit_eq_mod)
    ultimately show ?thesis by (simp add: word_unat_eq_iff unsigned_of_nat take_bit_eq_mod)
  qed
  show ?case
  proof (cases "w = 0")
    case True
    then show ?thesis by (simp add: abs_bytes.simps)
  next
    case False
    then have "unat w \<noteq> 0" by (simp add: unat_eq_0)
    then show ?thesis using 1 False a d by (subst abs_bytes.simps, subst digits.simps) simp
  qed
qed

lemma or_is_add:
  assumes "unat (r :: u64) < 256 ^ i" and "i < 8"
  shows "unat (r OR push_bit (8 * i) (ucast (b :: byte))) = unat r + 256 ^ i * unat b"
proof -
  have pw: "(256 :: nat) ^ i = 2 ^ (8 * i)" by (simp add: power_mult)
  have b: "256 ^ i * unat b < (2 :: nat) ^ 64"
  proof -
    have "256 ^ i * unat b < (256 :: nat) ^ i * 256" by simp
    also have "\<dots> = 256 ^ Suc i" by simp
    also have "\<dots> \<le> 256 ^ 8" using assms(2) by (intro power_increasing) simp_all
    finally show ?thesis by simp
  qed
  have "unat (r OR push_bit (8 * i) (ucast b)) = unat r OR unat (push_bit (8 * i) (ucast b :: u64))"
    by (simp add: unsigned_or_eq)
  also have "unat (push_bit (8 * i) (ucast b :: u64)) = 256 ^ i * unat b"
  proof -
    have "unat (push_bit (8 * i) (ucast b :: u64)) = take_bit 64 (push_bit (8 * i) (unat (ucast b :: u64)))"
      by (simp only: unsigned_push_bit_eq) simp
    also have "unat (ucast b :: u64) = unat b"
      by (simp add: unsigned_ucast_eq take_bit_nat_eq_self order_less_trans [OF byte_less])
    also have "push_bit (8 * i) (unat b) = 256 ^ i * unat b" by (simp add: push_bit_eq_mult pw mult.commute)
    also have "take_bit 64 (256 ^ i * unat b) = 256 ^ i * unat b" using b by (rule take_bit_nat_eq_self)
    finally show ?thesis .
  qed
  also have "unat r OR (256 ^ i * unat b) = unat r + 256 ^ i * unat b"
  proof (rule disjunctive_add [symmetric])
    fix n
    have "\<not> bit (unat r) n" if "8 * i \<le> n"
    proof -
      have "(2 :: nat) ^ (8 * i) \<le> 2 ^ n" using that by (simp add: power_increasing)
      then have "unat r < 2 ^ n" using assms(1) pw by linarith
      then show ?thesis by (simp add: bit_iff_odd)
    qed
    moreover have "256 ^ i * unat b = push_bit (8 * i) (unat b)" by (simp add: push_bit_eq_mult pw mult.commute)
    ultimately show "\<not> bit (unat r) n \<or> \<not> bit (256 ^ i * unat b) n" by (auto simp: bit_push_bit_iff_nat)
  qed
  finally show ?thesis .
qed

lemma set_vch_loop_val:
  "unat r < 256 ^ i \<Longrightarrow> i + length vch \<le> 8 \<Longrightarrow> unat (set_vch_loop vch i r) = unat r + 256 ^ i * le_val vch"
proof (induction vch i r rule: set_vch_loop.induct)
  case (2 b vch i r)
  have u: "unat (r OR push_bit (8 * i) (ucast b)) = unat r + 256 ^ i * unat b" using 2 by (intro or_is_add) simp_all
  have "unat b + 1 \<le> 256" using byte_less [of b] by linarith
  then have "256 ^ i * (unat b + 1) \<le> (256 :: nat) ^ i * 256" by (rule mult_le_mono2)
  then have "256 ^ i * unat b + 256 ^ i \<le> (256 :: nat) * 256 ^ i" by (simp add: algebra_simps)
  then have "unat (r OR push_bit (8 * i) (ucast b)) < 256 ^ (i + 1)" using u "2.prems"(1) unfolding power_add power_one_right by linarith
  then show ?case using 2 u by (simp add: algebra_simps)
qed simp


subsubsection \<open>Sign and magnitude\<close>

definition num_val :: "valtype \<Rightarrow> int" where
  "num_val vch =
     (if vch = [] then 0
      else let m = int (le_val (butlast vch @ [last vch AND 0x7f])) in if 128 \<le> unat (last vch) then - m else m)"

definition minimal :: "valtype \<Rightarrow> bool" where
  "minimal vch \<longleftrightarrow> vch = [] \<or> last vch AND 0x7f \<noteq> 0 \<or> (1 < length vch \<and> vch ! (length vch - 2) AND 0x80 \<noteq> 0)"

lemma sint_small: "unat (w :: u64) < 2 ^ 63 \<Longrightarrow> sint w = int (unat w)"
proof -
  assume "unat w < 2 ^ 63"
  then have "int (unat w) < 2 ^ 63" by (metis of_nat_less_iff of_nat_numeral of_nat_power)
  moreover have "- (2 ^ 63) \<le> int (unat w)" using of_nat_0_le_iff [of "unat w"] by (rule order_trans [rotated]) simp
  ultimately have "signed_take_bit 63 (int (unat w)) = int (unat w)" by (rule signed_take_bit_int_eq_self [rotated])
  then show ?thesis by (simp add: sint_uint)
qed

lemma le_val_snoc: "le_val (bs @ [b]) = le_val bs + 256 ^ length bs * unat b"
  by (simp add: le_val_append)

lemma le_val_top:
  assumes "vch \<noteq> []"
  shows "le_val vch = le_val (butlast vch @ [last vch AND 0x7f]) + (if 128 \<le> unat (last vch) then 256 ^ (length vch - 1) * 128 else 0)"
proof -
  have "le_val vch = le_val (butlast vch @ [last vch])" using assms by simp
  moreover have e: "unat (last vch) = unat (last vch AND 0x7f) + (if 128 \<le> unat (last vch) then 128 else 0)"
  proof (cases "128 \<le> unat (last vch)")
    case True
    then have "unat (last vch) mod 128 = unat (last vch) - 128" using byte_less [of "last vch"] le_mod_geq [of 128 "unat (last vch)"] mod_less [of "unat (last vch) - 128" 128] by linarith
    then show ?thesis using True by (simp add: byte_low7)
  qed (simp add: byte_low7)
  ultimately show ?thesis
    using arg_cong [OF e, of "\<lambda>t. 256 ^ (length vch - 1) * t"] unfolding le_val_snoc length_butlast
    by (simp only: distrib_left if_distrib mult_0_right add.assoc)
qed

lemma le_val_mag_less:
  assumes "vch \<noteq> []"
  shows "le_val (butlast vch @ [last vch AND 0x7f]) < 256 ^ (length vch - 1) * 128"
proof -
  have a: "le_val (butlast vch) < 256 ^ (length vch - 1)" using le_val_less [of "butlast vch"] by simp
  have "unat (last vch AND 0x7f) < 128" by (simp add: byte_low7)
  then have "unat (last vch AND 0x7f) + 1 \<le> 128" by simp
  then have "256 ^ (length vch - 1) * (unat (last vch AND 0x7f) + 1) \<le> 256 ^ (length vch - 1) * (128 :: nat)" by (rule mult_le_mono2)
  then have "256 ^ (length vch - 1) * unat (last vch AND 0x7f) + 256 ^ (length vch - 1) \<le> 256 ^ (length vch - 1) * (128 :: nat)"
    by (simp only: distrib_left mult_1_right)
  then show ?thesis using a unfolding le_val_snoc length_butlast by linarith
qed

lemma mag_64:
  assumes "vch \<noteq> []" and "length vch \<le> 8"
  shows "le_val (butlast vch @ [last vch AND 0x7f]) < 2 ^ 63" and "256 ^ (length vch - 1) * 128 \<le> (2 :: nat) ^ 63"
proof -
  have "(256 :: nat) ^ (length vch - 1) \<le> 256 ^ 7" using assms(2) by (intro power_increasing) simp_all
  then show "256 ^ (length vch - 1) * 128 \<le> (2 :: nat) ^ 63" by simp
  then show "le_val (butlast vch @ [last vch AND 0x7f]) < 2 ^ 63" using le_val_mag_less [OF assms(1)] by linarith
qed

lemma clear_bit_val:
  assumes "bit (w :: u64) k"
  shows "unat (w AND NOT (push_bit k 1)) = unat w - 2 ^ k"
proof -
  have k: "k < 64" using bit_imp_le_length [OF assms] by simp
  have "(w AND NOT (push_bit k 1)) + push_bit k 1 = (w AND NOT (push_bit k 1)) OR push_bit k 1"
    by (rule disjunctive_add) (auto simp: bit_simps)
  also have "\<dots> = w" using assms k by (intro bit_eqI) (auto simp: bit_simps)
  finally have e: "w AND NOT (push_bit k 1) = w - push_bit k 1" by (metis add_diff_cancel_right')
  have "unat (push_bit k 1 :: u64) = take_bit 64 (push_bit k 1)" by (simp only: unsigned_push_bit_eq) simp
  then have p: "unat (push_bit k 1 :: u64) = 2 ^ k" using k by (simp add: push_bit_eq_mult take_bit_nat_eq_self)
  have "bit (unat w) k" using assms by (simp add: bit_unsigned_iff)
  then have "2 ^ k \<le> unat w" by (cases "unat w < 2 ^ k") (simp_all add: bit_iff_odd)
  then show ?thesis unfolding e using p by (simp add: unat_sub word_le_nat_alt)
qed

lemma set_vch_val: "length vch \<le> 8 \<Longrightarrow> set_vch vch = Inr (num_val vch)"
proof (cases "vch = []")
  case False
  assume l: "length vch \<le> 8"
  let ?w = "set_vch_loop vch 0 0" and ?m = "le_val (butlast vch @ [last vch AND 0x7f])" and ?k = "8 * (length vch - 1) + 7"
  have w: "unat ?w = le_val vch" using set_vch_loop_val [of 0 0 vch] l by simp
  note top = le_val_top [OF False] and m = mag_64 [OF False l]
  show ?thesis
  proof (cases "128 \<le> unat (last vch)")
    case True
    have pk: "(2 :: nat) ^ ?k = 256 ^ (length vch - 1) * 128" by (simp add: power_add power_mult)
    have pu: "push_bit (8 * (length vch - 1)) 0x80 = (push_bit ?k 1 :: u64)" by (simp add: push_bit_eq_mult power_add)
    have "unat ?w = ?m + 2 ^ ?k" using w top True pk by simp
    moreover have "?m < 2 ^ ?k" using le_val_mag_less [OF False] pk by simp
    ultimately have "unat ?w div 2 ^ ?k = 1" by (intro div_nat_eqI) simp_all
    then have "bit (unat ?w) ?k" by (simp add: bit_iff_odd)
    then have b: "bit ?w ?k" by (simp add: bit_unsigned_iff)
    have "unat (?w AND NOT (push_bit ?k 1)) = ?m" using clear_bit_val [OF b] \<open>unat ?w = ?m + 2 ^ ?k\<close> by simp
    then have "sint (?w AND NOT (push_bit ?k 1)) = int ?m" using sint_small [of "?w AND NOT (push_bit ?k 1)"] m(1) by (simp only:)
    then show ?thesis using False l True byte_high [of "last vch"] unfolding set_vch_def num_val_def Let_def pu by simp
  next
    case low: False
    then have "unat ?w = ?m" using w top by simp
    then have "sint ?w = int ?m" using sint_small [of ?w] m(1) by (simp only:)
    then show ?thesis using False l low byte_high [of "last vch"] unfolding set_vch_def num_val_def Let_def by simp
  qed
qed (simp add: set_vch_def num_val_def)

subsubsection \<open>Encoding\<close>

definition sign_mag :: "bool \<Rightarrow> bytes \<Rightarrow> valtype" where
  "sign_mag neg r =
     (if 128 \<le> unat (last r) then r @ [if neg then 0x80 else 0]
      else if neg then butlast r @ [last r OR 0x80] else r)"

lemma serialize_eq:
  assumes "in_int64 v" and "v \<noteq> - 9223372036854775808"
  shows "serialize v = Inr (if v = 0 then [] else sign_mag (v < 0) (digits (nat \<bar>v\<bar>)))"
proof (cases "v = 0")
  case False
  have ab: "(if v < 0 then i64 (- v) else Inr v) = Inr \<bar>v\<bar>"
    using assms by (auto simp: range_simps i64_def)
  have "0 \<le> \<bar>v\<bar>" "\<bar>v\<bar> < 2 ^ 64" using assms by (auto simp: range_simps)
  then have "unat (word_of_int \<bar>v\<bar> :: u64) = nat \<bar>v\<bar>" by (simp add: unat_eq_nat_uint uint_word_of_int)
  then have d: "abs_bytes (word_of_int \<bar>v\<bar>) = digits (nat \<bar>v\<bar>)" by (simp only: abs_bytes_digits)
  show ?thesis unfolding serialize_def ab bindR_simps Let_def d sign_mag_def byte_high using False by simp
qed (simp add: serialize_def)

lemma num_val_snoc: "num_val (bs @ [b]) = (if 128 \<le> unat b then - int (le_val (bs @ [b AND 0x7f])) else int (le_val (bs @ [b AND 0x7f])))"
  by (simp add: num_val_def Let_def)

lemma low7_same: "unat (b :: byte) < 128 \<Longrightarrow> b AND 0x7f = b"
  by (simp add: word_unat_eq_iff byte_low7)

lemma low7_set_high: "unat (b :: byte) < 128 \<Longrightarrow> (b OR 0x80) AND 0x7f = b"
  by (simp add: word_unat_eq_iff byte_low7 byte_set_high)

lemma num_val_sign_mag:
  assumes "r \<noteq> []" and "last r \<noteq> 0"
  shows "num_val (sign_mag neg r) = (if neg then - int (le_val r) else int (le_val r))"
proof -
  obtain bs b where r: "r = bs @ [b]" using assms(1) by (metis append_butlast_last_id)
  show ?thesis
  proof (cases "128 \<le> unat b")
    case True
    then show ?thesis using r num_val_snoc [of r "0x80"] num_val_snoc [of r 0]
      by (simp add: sign_mag_def le_val_append)
  next
    case False
    then have b: "unat b < 128" by simp
    then show ?thesis using r byte_set_high [OF b] low7_set_high [OF b] low7_same [OF b]
      by (simp add: sign_mag_def num_val_snoc)
  qed
qed

lemma minimal_sign_mag:
  assumes "r \<noteq> []" and "last r \<noteq> 0"
  shows "minimal (sign_mag neg r)"
proof -
  obtain bs b where r: "r = bs @ [b]" using assms(1) by (metis append_butlast_last_id)
  show ?thesis
  proof (cases "128 \<le> unat b")
    case True
    then show ?thesis using r byte_high [of b] by (simp add: sign_mag_def minimal_def nth_append)
  next
    case False
    then have b: "unat b < 128" by simp
    then show ?thesis using r assms(2) low7_set_high [OF b] low7_same [OF b] by (simp add: sign_mag_def minimal_def)
  qed
qed

lemma sign_mag_num_val:
  assumes "minimal vch" and "vch \<noteq> []"
  shows "sign_mag (num_val vch < 0) (digits (nat \<bar>num_val vch\<bar>)) = vch \<and> num_val vch \<noteq> 0"
proof -
  obtain bs b where v: "vch = bs @ [b]" using assms(2) by (metis append_butlast_last_id)
  show ?thesis
  proof (cases "b AND 0x7f = 0")
    case False
    let ?m = "le_val (bs @ [b AND 0x7f])"
    have d: "digits ?m = bs @ [b AND 0x7f]" using False by (intro digits_le_val) simp
    then have m: "?m \<noteq> 0" by (metis digits_0 snoc_eq_iff_butlast)
    have low: "unat (b AND 0x7f) < 128" by (simp add: byte_low7)
    have hi: "(b AND 0x7f) OR 0x80 = b" if "128 \<le> unat b"
      using byte_set_high [OF low] that le_mod_geq [of 128 "unat b"] mod_less [of "unat b - 128" 128] byte_less [of b]
      by (simp add: word_unat_eq_iff byte_low7)
    show ?thesis
    proof (cases "128 \<le> unat b")
      case True
      then have "num_val vch = - int ?m" using v by (simp add: num_val_snoc)
      then show ?thesis using d m low hi [OF True] v by (simp add: sign_mag_def)
    next
      case neg: False
      then have "num_val vch = int ?m" using v by (simp add: num_val_snoc)
      then show ?thesis using d m low low7_same [of b] neg v by (simp add: sign_mag_def)
    qed
  next
    case True
    then have bs: "bs \<noteq> []" "128 \<le> unat (last bs)"
      using assms(1) v byte_high [of "last bs"] by (auto simp: minimal_def nth_append last_conv_nth)
    have "last bs \<noteq> 0" using bs(2) by auto
    then have d: "digits (le_val bs) = bs" by (intro digits_le_val) simp
    then have m: "le_val bs \<noteq> 0" using bs(1) digits_0 by metis
    have "unat b mod 128 = 0" using True byte_low7 [of b] by simp
    then have "unat b = 0 \<or> unat b = 128" using byte_less [of b] by presburger
    then have b: "b = (if 128 \<le> unat b then 0x80 else 0)" by (auto simp: word_unat_eq_iff)
    have "num_val vch = (if 128 \<le> unat b then - int (le_val bs) else int (le_val bs))"
      using v True by (simp add: num_val_snoc le_val_snoc)
    then show ?thesis using d m bs(2) v b by (cases "128 \<le> unat b") (simp_all add: sign_mag_def)
  qed
qed

lemma length_sign_mag: "r \<noteq> [] \<Longrightarrow> length (sign_mag neg r) = length r + (if 128 \<le> unat (last r) then 1 else 0)"
  by (simp add: sign_mag_def)

lemma serialize_length_le:
  assumes "v \<noteq> 0" and "\<bar>v\<bar> < 2 ^ (8 * k - 1)" and "0 < k"
  shows "length (sign_mag neg (digits (nat \<bar>v\<bar>))) \<le> k"
proof -
  let ?m = "nat \<bar>v\<bar>"
  have m: "?m \<noteq> 0" "?m < 2 ^ (8 * k - 1)" using assms(1,2) by (auto simp: nat_less_iff)
  have pw: "(256 :: nat) ^ j = 2 ^ (8 * j)" for j by (simp add: power_mult)
  have "(2 :: nat) ^ (8 * k - 1) \<le> 256 ^ k" unfolding pw by (intro power_increasing) simp_all
  then have l: "length (digits ?m) \<le> k" using m(2) by (intro length_digits) linarith
  moreover have "length (digits ?m) < k" if "128 \<le> unat (last (digits ?m))"
  proof (rule ccontr)
    assume "\<not> length (digits ?m) < k"
    then have k: "length (digits ?m) = k" using l by simp
    have "256 ^ (k - 1) * 128 \<le> 256 ^ (k - 1) * unat (last (digits ?m))" using that by simp
    also have "\<dots> \<le> ?m" using digits_lower [OF m(1)] k by simp
    finally have "256 ^ (k - 1) * 128 \<le> ?m" .
    moreover have "(256 :: nat) ^ (k - 1) * 128 = 2 ^ (8 * k - 1)"
    proof -
      have "8 * k - 1 = 8 * (k - 1) + 7" using assms(3) by simp
      then show ?thesis unfolding pw by (simp only: power_add) simp
    qed
    ultimately show False using m(2) by simp
  qed
  ultimately show ?thesis using m(1) by (auto simp: length_sign_mag Suc_le_eq)
qed

lemma num_val_bound:
  assumes "length vch \<le> k" and "0 < k"
  shows "\<bar>num_val vch\<bar> < 2 ^ (8 * k - 1)"
proof (cases "vch = []")
  case False
  let ?m = "le_val (butlast vch @ [last vch AND 0x7f])"
  have "?m < 256 ^ (length vch - 1) * 128" by (rule le_val_mag_less [OF False])
  also have "\<dots> = 2 ^ (8 * (length vch - 1) + 7)" by (simp add: power_add power_mult)
  also have "\<dots> \<le> 2 ^ (8 * k - 1)" using assms False by (intro power_increasing) (auto simp: Suc_le_eq)
  finally have "int ?m < 2 ^ (8 * k - 1)" by (metis of_nat_less_iff of_nat_numeral of_nat_power)
  moreover have "\<bar>num_val vch\<bar> = int ?m" using False by (simp add: num_val_def Let_def)
  ultimately show ?thesis by simp
qed (simp add: num_val_def)

lemma CScriptNum_vch_eq:
  assumes "n \<le> 8"
  shows "CScriptNum_vch vch fRequireMinimal n = Inr v \<longleftrightarrow>
    length vch \<le> n \<and> (fRequireMinimal \<longrightarrow> minimal vch) \<and> v = num_val vch"
proof (cases "length vch \<le> n")
  case True
  then have v: "set_vch vch = Inr (num_val vch)" using assms by (intro set_vch_val) simp
  have "(0 < length vch \<and> last vch AND 0x7f = 0 \<and> (length vch \<le> 1 \<or> vch ! (length vch - 2) AND 0x80 = 0)) \<longleftrightarrow> \<not> minimal vch"
    by (auto simp: minimal_def not_le)
  then show ?thesis using True unfolding CScriptNum_vch_def v by auto
qed (simp add: CScriptNum_vch_def)

lemma serialize_minimal:
  assumes "in_int64 v" and "v \<noteq> - 9223372036854775808"
  shows "\<exists>vch. serialize v = Inr vch \<and> minimal vch \<and> num_val vch = v \<and> length vch \<le> 8"
proof (cases "v = 0")
  case True
  then show ?thesis by (simp add: serialize_def minimal_def num_val_def)
next
  case False
  let ?r = "digits (nat \<bar>v\<bar>)"
  have r: "?r \<noteq> []" "last ?r \<noteq> 0" using False last_digits [of "nat \<bar>v\<bar>"] by simp_all
  have "\<bar>v\<bar> < 2 ^ (8 * 8 - 1)" using assms by (auto simp: range_simps)
  from serialize_length_le [OF False this] have "length (sign_mag (v < 0) ?r) \<le> 8" by simp
  then show ?thesis using serialize_eq [OF assms] False minimal_sign_mag [OF r] num_val_sign_mag [OF r, of "v < 0"] by simp
qed

lemma serialize_num_val:
  assumes "minimal vch" and "length vch \<le> 8"
  shows "serialize (num_val vch) = Inr vch"
proof -
  have "\<bar>num_val vch\<bar> < 2 ^ (8 * 8 - 1)" by (rule num_val_bound [OF assms(2)]) simp
  then have "in_int64 (num_val vch)" "num_val vch \<noteq> - 9223372036854775808" by (auto simp: range_simps)
  then show ?thesis using serialize_eq [of "num_val vch"] sign_mag_num_val [OF assms(1)] by (cases "vch = []") (simp_all add: num_val_def)
qed

text \<open>C23. Script numbers have one minimal encoding: with minimal encodings required, and up to eight bytes,
  \<open>CScriptNum\<close> accepts a byte vector exactly when it is what \<open>serialize\<close> makes of the number read, and the
  numbers of at most \<open>n\<close> bytes are those below \<open>2 ^ (8 * n - 1)\<close> in magnitude.\<close>

theorem CScriptNum_canonical:
  assumes "0 < n" and "n \<le> 8"
  shows "CScriptNum_vch vch True n = Inr v \<longleftrightarrow> serialize v = Inr vch \<and> \<bar>v\<bar> < 2 ^ (8 * n - 1) \<and> in_int64 v"
proof
  assume "CScriptNum_vch vch True n = Inr v"
  then have a: "length vch \<le> n" "minimal vch" "v = num_val vch"
    by (simp_all add: CScriptNum_vch_eq [OF assms(2)])
  have b: "\<bar>v\<bar> < 2 ^ (8 * n - 1)" using num_val_bound [OF a(1) assms(1)] a(3) by simp
  moreover have "\<bar>v\<bar> < 2 ^ (8 * 8 - 1)" using num_val_bound [of vch 8] a(1,3) assms(2) by simp
  then have "in_int64 v" by (auto simp: range_simps)
  moreover have "serialize v = Inr vch" using serialize_num_val [OF a(2)] a(1,3) assms(2) by simp
  ultimately show "serialize v = Inr vch \<and> \<bar>v\<bar> < 2 ^ (8 * n - 1) \<and> in_int64 v" by blast
next
  assume "serialize v = Inr vch \<and> \<bar>v\<bar> < 2 ^ (8 * n - 1) \<and> in_int64 v"
  then have r: "serialize v = Inr vch" "\<bar>v\<bar> < 2 ^ (8 * n - 1)" "in_int64 v" by blast+
  have "(2 :: int) ^ (8 * n - 1) \<le> 2 ^ 63" using assms(2) by (intro power_increasing) simp_all
  then have "\<bar>v\<bar> < 2 ^ 63" using r(2) by linarith
  then have m: "v \<noteq> - 9223372036854775808" by auto
  obtain vch' where "serialize v = Inr vch'" "minimal vch'" "num_val vch' = v"
    using serialize_minimal [OF r(3) m] by blast
  then have v: "minimal vch" "num_val vch = v" using r(1) by simp_all
  have "length vch \<le> n"
  proof (cases "v = 0")
    case True
    then show ?thesis using r(1) by (simp add: serialize_def)
  next
    case False
    have "length (sign_mag (v < 0) (digits (nat \<bar>v\<bar>))) \<le> n" by (rule serialize_length_le [OF False r(2) assms(1)])
    then show ?thesis using serialize_eq [OF r(3) m] r(1) False by simp
  qed
  then show "CScriptNum_vch vch True n = Inr v" using v by (simp add: CScriptNum_vch_eq [OF assms(2)])
qed

theorem CScriptNum_canonical_witness:
  "CScriptNum_vch [0xff, 0x80] True 4 = Inr (- 255) \<longleftrightarrow>
     serialize (- 255) = Inr [0xff, 0x80] \<and> \<bar>- 255\<bar> < (2 :: int) ^ (8 * 4 - 1) \<and> in_int64 (- 255)"
  by (rule CScriptNum_canonical) simp_all

subsection \<open>Pushes and templates\<close>

lemma push_data_append: "push_data s b = s @ push_data [] b"
  by (simp add: push_data_def)

lemma GetOp2_push:
  assumes "length b < 2 ^ 32"
  shows "\<exists>opcode. GetOp2 (push_data [] b @ rest) = (True, opcode, b, rest) \<and> opcode \<le> OP_PUSHDATA4"
proof -
  consider "length b < 76" | "76 \<le> length b" "length b \<le> 255" | "255 < length b" "length b \<le> 65535" | "65535 < length b"
    by linarith
  then show ?thesis
  proof cases
    case 1
    then have "unat (of_nat (length b) :: byte) = length b" by (simp add: unsigned_of_nat take_bit_nat_eq_self)
    then show ?thesis using 1 by (simp add: push_data_def GetOp2_def push_size_def)
  next
    case 2
    then have "unat (of_nat (length b) :: byte) = length b" by (simp add: unsigned_of_nat take_bit_nat_eq_self)
    then show ?thesis using 2 by (simp add: push_data_def GetOp2_def push_size_def)
  next
    case 3
    then have "le_val (le_bytes 2 (length b)) = length b" by (simp add: le_val_bytes)
    then show ?thesis using 3 by (simp add: push_data_def GetOp2_def push_size_def)
  next
    case 4
    then have "le_val (le_bytes 4 (length b)) = length b" using assms by (simp add: le_val_bytes)
    then show ?thesis using 4 by (simp add: push_data_def GetOp2_def push_size_def)
  qed
qed

lemma GetOp2_small:
  assumes "length b < 76"
  shows "GetOp2 (of_nat (length b) # b @ rest) = (True, length b, b, rest)"
proof -
  have "unat (of_nat (length b) :: byte) = length b" using assms by (simp add: unsigned_of_nat take_bit_nat_eq_self)
  then show ?thesis using assms by (simp add: GetOp2_def push_size_def)
qed

lemma GetOp2_op:
  assumes "OP_PUSHDATA4 < unat b" and "unat b \<noteq> OP_RVH_ASSET"
  shows "GetOp2 (b # rest) = (True, unat b, [], rest)"
  using assms by (simp add: GetOp2_def)

lemma two_split: "length s = n + 2 + m \<Longrightarrow> \<exists>a b h t. s = a # b # h @ t \<and> length h = n \<and> length t = m"
proof -
  assume l: "length s = n + 2 + m"
  then obtain a b r where s: "s = a # b # r" by (cases s; cases "tl s") auto
  then have "r = take n r @ drop n r" "length (take n r) = n" "length (drop n r) = m" using l by auto
  then show ?thesis using s by metis
qed

lemma IsPayToScriptHash_iff:
  "IsPayToScriptHash s \<longleftrightarrow> (\<exists>h. length h = 20 \<and> s = [OP_HASH160, 0x14] @ h @ [OP_EQUAL])"
proof
  assume p: "IsPayToScriptHash s"
  then obtain a b h t where s: "s = a # b # h @ t" "length h = 20" "length t = 1"
    using two_split [of s 20 1] by (auto simp: IsPayToScriptHash_def)
  then obtain c where t: "t = [c]" by (cases t) auto
  have "s ! 22 = c" using s t by (simp add: nth_Cons' nth_append)
  then show "\<exists>h. length h = 20 \<and> s = [OP_HASH160, 0x14] @ h @ [OP_EQUAL]"
    using p s t by (auto simp: IsPayToScriptHash_def)
next
  assume "\<exists>h. length h = 20 \<and> s = [OP_HASH160, 0x14] @ h @ [OP_EQUAL]"
  then obtain h where h: "length h = 20" "s = [OP_HASH160, 0x14] @ h @ [OP_EQUAL]" by blast
  then have "s ! 22 = OP_EQUAL" by (simp add: nth_Cons' nth_append)
  then show "IsPayToScriptHash s" using h by (simp add: IsPayToScriptHash_def)
qed

lemma GetOp2_suffix: "GetOp2 pc = (ok, opcode, vch, pc') \<Longrightarrow> suffix pc' pc"
  by (auto simp: GetOp2_def push_size_def Let_def suffix_drop intro: suffix_ConsI suffix_order.trans [OF suffix_drop] suffix_tl
      split: list.splits if_splits option.splits prod.splits)

lemma find_loop_length:
  "find_loop b pc2 pc result n = (n', r) \<Longrightarrow> suffix pc pc2 \<Longrightarrow>
     length r + n' * length b = length result + length pc2 + n * length b"
proof (induction b pc2 pc result n arbitrary: n' r rule: find_loop.induct)
  case (1 b pc2 pc result n)
  obtain k pc' where k: "skip_copies b pc = (k, pc')" by fastforce
  obtain ok op v pc3 where g: "GetOp2 pc' = (ok, op, v, pc3)" by (metis prod.exhaust)
  have l: "length pc = k * length b + length pc'" by (rule skip_copies_length [OF k])
  have le: "length pc \<le> length pc2" using "1.prems"(2) by (rule suffix_length_le)
  show ?case
  proof (cases ok)
    case True
    have s3: "suffix pc3 pc'" by (rule GetOp2_suffix [OF g])
    have "find_loop b pc' pc3 (result @ take (length pc2 - length pc) pc2) (n + k) = (n', r)"
      using "1.prems"(1) k g True by (simp add: find_loop.simps [of b pc2 pc] Let_def)
    from "1.IH" [OF k [symmetric] refl refl g [symmetric] refl refl True this s3] show ?thesis
      using l le by (simp add: algebra_simps)
  next
    case False
    then show ?thesis using "1.prems" k g l le by (auto simp: find_loop.simps [of b pc2 pc] Let_def algebra_simps)
  qed
qed


lemma FindAndDelete_length:
  assumes "FindAndDelete script b = (n, script')"
  shows "length script' + n * length b = length script" and "n = 0 \<Longrightarrow> script' = script"
proof -
  obtain m r where f: "find_loop b script script [] 0 = (m, r)" by fastforce
  have "length r + m * length b = length script" using find_loop_length [OF f] by simp
  then show "length script' + n * length b = length script" "n = 0 \<Longrightarrow> script' = script"
    using assms f by (auto simp: FindAndDelete_def split: if_splits)
qed

text \<open>Reading back a push: the instruction that \<open>operator<<\<close> appends for a data element is read by \<open>GetOp\<close> as
  that element, whatever follows it in the script, for elements of every length a script can hold.\<close>

theorem GetOp_reads_push:
  assumes "length b < 2 ^ 32"
  shows "\<exists>opcode. GetOp2 (drop (length s) (push_data s b) @ rest) = (True, opcode, b, rest) \<and> opcode \<le> OP_PUSHDATA4"
  using GetOp2_push [OF assms, of rest] by (simp add: push_data_append [of s])

theorem GetOp_reads_push_witness:
  "\<exists>opcode. GetOp2 (drop (length [0x51 :: byte]) (push_data [0x51] (replicate 300 7)) @ [OP_CHECKSIG]) =
     (True, opcode, replicate 300 7, [OP_CHECKSIG]) \<and> opcode \<le> OP_PUSHDATA4"
  by (rule GetOp_reads_push) simp

end
