(* ===== verification/Interpreter.thy ===== *)
theory Interpreter
  imports Script
begin

unbundle bit_operations_syntax

text \<open>
  The script interpreter: \<open>src/src/script/interpreter.cpp\<close>. The stacks are lists with the top first,
  so \<open>stacktop(-1 - k)\<close> is \<open>stack ! k\<close>; \<open>vfExec\<close> is kept the same way. An iteration of the loop of
  \<open>EvalScript\<close> is \<open>eval_instr\<close>, its switch is \<open>exec_op\<close> with one definition per group of cases.
  A \<open>return set_error(...)\<close> is \<open>Error\<close>, anything that leaves by an exception or a failed assertion is
  \<open>Abort\<close>; \<open>EvalScript\<close> catches the exceptions as the code does, and a failed assertion stays a fault.
  When evaluation fails the callers never look at the stack again, so only success returns one.
  The hash functions and the signature check of the checker object are parameters.
\<close>

datatype ScriptError =
    SCRIPT_ERR_OK | SCRIPT_ERR_UNKNOWN_ERROR | SCRIPT_ERR_EVAL_FALSE | SCRIPT_ERR_OP_RETURN
  | SCRIPT_ERR_SCRIPT_SIZE | SCRIPT_ERR_PUSH_SIZE | SCRIPT_ERR_OP_COUNT | SCRIPT_ERR_STACK_SIZE
  | SCRIPT_ERR_SIG_COUNT | SCRIPT_ERR_PUBKEY_COUNT | SCRIPT_ERR_VERIFY | SCRIPT_ERR_EQUALVERIFY
  | SCRIPT_ERR_CHECKMULTISIGVERIFY | SCRIPT_ERR_CHECKSIGVERIFY | SCRIPT_ERR_NUMEQUALVERIFY
  | SCRIPT_ERR_BAD_OPCODE | SCRIPT_ERR_DISABLED_OPCODE | SCRIPT_ERR_INVALID_STACK_OPERATION
  | SCRIPT_ERR_INVALID_ALTSTACK_OPERATION | SCRIPT_ERR_UNBALANCED_CONDITIONAL | SCRIPT_ERR_NEGATIVE_LOCKTIME
  | SCRIPT_ERR_UNSATISFIED_LOCKTIME | SCRIPT_ERR_SIG_HASHTYPE | SCRIPT_ERR_SIG_DER | SCRIPT_ERR_MINIMALDATA
  | SCRIPT_ERR_SIG_PUSHONLY | SCRIPT_ERR_SIG_HIGH_S | SCRIPT_ERR_SIG_NULLDUMMY | SCRIPT_ERR_PUBKEYTYPE
  | SCRIPT_ERR_CLEANSTACK | SCRIPT_ERR_MINIMALIF | SCRIPT_ERR_SIG_NULLFAIL
  | SCRIPT_ERR_DISCOURAGE_UPGRADABLE_NOPS | SCRIPT_ERR_DISCOURAGE_UPGRADABLE_WITNESS_PROGRAM
  | SCRIPT_ERR_WITNESS_PROGRAM_WRONG_LENGTH | SCRIPT_ERR_WITNESS_PROGRAM_WITNESS_EMPTY
  | SCRIPT_ERR_WITNESS_PROGRAM_MISMATCH | SCRIPT_ERR_WITNESS_MALLEATED | SCRIPT_ERR_WITNESS_MALLEATED_P2SH
  | SCRIPT_ERR_WITNESS_UNEXPECTED | SCRIPT_ERR_WITNESS_PUBKEYTYPE

datatype script_stop = Error ScriptError | Abort cpp_fault

type_synonym 'a script_result = "script_stop + 'a"

definition liftS :: "'a result \<Rightarrow> 'a script_result" where
  "liftS m = (case m of Inl e \<Rightarrow> Inl (Abort e) | Inr x \<Rightarrow> Inr x)"

lemma liftS_simps [simp, fault_simps]: "liftS (Inl e) = Inl (Abort e)" "liftS (Inr x) = Inr x"
  by (simp_all add: liftS_def)

lemma liftS_Inr_iff [simp]: "liftS m = Inr x \<longleftrightarrow> m = Inr x"
  by (cases m) simp_all

datatype SigVersion = SIGVERSION_BASE | SIGVERSION_WITNESS_V0

record crypto =
  RIPEMD160 :: "bytes \<Rightarrow> bytes"
  SHA1 :: "bytes \<Rightarrow> bytes"
  SHA256 :: "bytes \<Rightarrow> bytes"
  CheckLowS :: "bytes \<Rightarrow> bool"

definition CHash256 :: "crypto \<Rightarrow> bytes \<Rightarrow> bytes" where
  "CHash256 cr data = SHA256 cr (SHA256 cr data)"

definition CHash160 :: "crypto \<Rightarrow> bytes \<Rightarrow> bytes" where
  "CHash160 cr data = RIPEMD160 cr (SHA256 cr data)"

record SignatureChecker =
  CheckSig :: "valtype \<Rightarrow> valtype \<Rightarrow> CScript \<Rightarrow> SigVersion \<Rightarrow> bool result"
  CheckLockTime :: "int \<Rightarrow> bool result"
  CheckSequence :: "int \<Rightarrow> bool result"

definition BaseSignatureChecker :: SignatureChecker where
  "BaseSignatureChecker = \<lparr>CheckSig = \<lambda>_ _ _ _. Inr False, CheckLockTime = \<lambda>_. Inr False, CheckSequence = \<lambda>_. Inr False\<rparr>"

subsection \<open>Flags\<close>

abbreviation (input) SIGHASH_ALL where "SIGHASH_ALL \<equiv> 1"
abbreviation (input) SIGHASH_NONE where "SIGHASH_NONE \<equiv> 2"
abbreviation (input) SIGHASH_SINGLE where "SIGHASH_SINGLE \<equiv> 3"
abbreviation (input) SIGHASH_ANYONECANPAY where "SIGHASH_ANYONECANPAY \<equiv> 0x80"

definition SCRIPT_VERIFY_P2SH :: u32 where "SCRIPT_VERIFY_P2SH = 0x1"
definition SCRIPT_VERIFY_STRICTENC :: u32 where "SCRIPT_VERIFY_STRICTENC = 0x2"
definition SCRIPT_VERIFY_DERSIG :: u32 where "SCRIPT_VERIFY_DERSIG = 0x4"
definition SCRIPT_VERIFY_LOW_S :: u32 where "SCRIPT_VERIFY_LOW_S = 0x8"
definition SCRIPT_VERIFY_NULLDUMMY :: u32 where "SCRIPT_VERIFY_NULLDUMMY = 0x10"
definition SCRIPT_VERIFY_SIGPUSHONLY :: u32 where "SCRIPT_VERIFY_SIGPUSHONLY = 0x20"
definition SCRIPT_VERIFY_MINIMALDATA :: u32 where "SCRIPT_VERIFY_MINIMALDATA = 0x40"
definition SCRIPT_VERIFY_DISCOURAGE_UPGRADABLE_NOPS :: u32 where "SCRIPT_VERIFY_DISCOURAGE_UPGRADABLE_NOPS = 0x80"
definition SCRIPT_VERIFY_CLEANSTACK :: u32 where "SCRIPT_VERIFY_CLEANSTACK = 0x100"
definition SCRIPT_VERIFY_CHECKLOCKTIMEVERIFY :: u32 where "SCRIPT_VERIFY_CHECKLOCKTIMEVERIFY = 0x200"
definition SCRIPT_VERIFY_CHECKSEQUENCEVERIFY :: u32 where "SCRIPT_VERIFY_CHECKSEQUENCEVERIFY = 0x400"
definition SCRIPT_VERIFY_WITNESS :: u32 where "SCRIPT_VERIFY_WITNESS = 0x800"
definition SCRIPT_VERIFY_DISCOURAGE_UPGRADABLE_WITNESS_PROGRAM :: u32 where
  "SCRIPT_VERIFY_DISCOURAGE_UPGRADABLE_WITNESS_PROGRAM = 0x1000"
definition SCRIPT_VERIFY_MINIMALIF :: u32 where "SCRIPT_VERIFY_MINIMALIF = 0x2000"
definition SCRIPT_VERIFY_NULLFAIL :: u32 where "SCRIPT_VERIFY_NULLFAIL = 0x4000"
definition SCRIPT_VERIFY_WITNESS_PUBKEYTYPE :: u32 where "SCRIPT_VERIFY_WITNESS_PUBKEYTYPE = 0x8000"

definition flag_set :: "u32 \<Rightarrow> u32 \<Rightarrow> bool" where
  "flag_set flags f \<longleftrightarrow> flags AND f \<noteq> 0"

subsection \<open>Values and encodings\<close>

fun CastToBool :: "valtype \<Rightarrow> bool" where
  "CastToBool [] = False"
| "CastToBool (b # vch) = (if b \<noteq> 0 then \<not> (vch = [] \<and> b = 0x80) else CastToBool vch)"

definition IsCompressedOrUncompressedPubKey :: "valtype \<Rightarrow> bool" where
  "IsCompressedOrUncompressedPubKey vchPubKey =
     (if length vchPubKey < 33 then False
      else if vchPubKey ! 0 = 0x04 then length vchPubKey = 65
      else if vchPubKey ! 0 = 0x02 \<or> vchPubKey ! 0 = 0x03 then length vchPubKey = 33
      else False)"

definition IsCompressedPubKey :: "valtype \<Rightarrow> bool" where
  "IsCompressedPubKey vchPubKey =
     (if length vchPubKey \<noteq> 33 then False
      else if vchPubKey ! 0 \<noteq> 0x02 \<and> vchPubKey ! 0 \<noteq> 0x03 then False else True)"

definition IsValidSignatureEncoding :: "valtype \<Rightarrow> bool" where
  "IsValidSignatureEncoding sig =
     (if length sig < 9 then False
      else if 73 < length sig then False
      else if sig ! 0 \<noteq> 0x30 then False
      else if unat (sig ! 1) \<noteq> length sig - 3 then False
      else let lenR = unat (sig ! 3) in
      if length sig \<le> 5 + lenR then False
      else let lenS = unat (sig ! (5 + lenR)) in
      if lenR + lenS + 7 \<noteq> length sig then False
      else if sig ! 2 \<noteq> 0x02 then False
      else if lenR = 0 then False
      else if sig ! 4 AND 0x80 \<noteq> 0 then False
      else if 1 < lenR \<and> sig ! 4 = 0 \<and> sig ! 5 AND 0x80 = 0 then False
      else if sig ! (lenR + 4) \<noteq> 0x02 then False
      else if lenS = 0 then False
      else if sig ! (lenR + 6) AND 0x80 \<noteq> 0 then False
      else if 1 < lenS \<and> sig ! (lenR + 6) = 0 \<and> sig ! (lenR + 7) AND 0x80 = 0 then False
      else True)"

definition IsLowDERSignature :: "crypto \<Rightarrow> valtype \<Rightarrow> unit script_result" where
  "IsLowDERSignature cr vchSig =
     (if \<not> IsValidSignatureEncoding vchSig then Inl (Error SCRIPT_ERR_SIG_DER)
      else if \<not> CheckLowS cr (butlast vchSig) then Inl (Error SCRIPT_ERR_SIG_HIGH_S)
      else Inr ())"

definition IsDefinedHashtypeSignature :: "valtype \<Rightarrow> bool" where
  "IsDefinedHashtypeSignature vchSig =
     (if length vchSig = 0 then False
      else let nHashType = unat (last vchSig AND NOT SIGHASH_ANYONECANPAY) in
           \<not> (nHashType < SIGHASH_ALL \<or> SIGHASH_SINGLE < nHashType))"

definition CheckSignatureEncoding :: "crypto \<Rightarrow> valtype \<Rightarrow> u32 \<Rightarrow> unit script_result" where
  "CheckSignatureEncoding cr vchSig flags =
     (if length vchSig = 0 then Inr ()
      else if flag_set flags (SCRIPT_VERIFY_DERSIG OR SCRIPT_VERIFY_LOW_S OR SCRIPT_VERIFY_STRICTENC) \<and>
              \<not> IsValidSignatureEncoding vchSig then Inl (Error SCRIPT_ERR_SIG_DER)
      else case (if flag_set flags SCRIPT_VERIFY_LOW_S then IsLowDERSignature cr vchSig else Inr ()) of
        Inl e \<Rightarrow> Inl e
      | Inr _ \<Rightarrow>
          if flag_set flags SCRIPT_VERIFY_STRICTENC \<and> \<not> IsDefinedHashtypeSignature vchSig
          then Inl (Error SCRIPT_ERR_SIG_HASHTYPE) else Inr ())"

definition CheckPubKeyEncoding :: "valtype \<Rightarrow> u32 \<Rightarrow> SigVersion \<Rightarrow> unit script_result" where
  "CheckPubKeyEncoding vchPubKey flags sigversion =
     (if flag_set flags SCRIPT_VERIFY_STRICTENC \<and> \<not> IsCompressedOrUncompressedPubKey vchPubKey
      then Inl (Error SCRIPT_ERR_PUBKEYTYPE)
      else if flag_set flags SCRIPT_VERIFY_WITNESS_PUBKEYTYPE \<and> sigversion = SIGVERSION_WITNESS_V0 \<and>
              \<not> IsCompressedPubKey vchPubKey then Inl (Error SCRIPT_ERR_WITNESS_PUBKEYTYPE)
      else Inr ())"

definition CheckMinimalPush :: "valtype \<Rightarrow> opcodetype \<Rightarrow> bool" where
  "CheckMinimalPush data opcode =
     (if length data = 0 then opcode = OP_0
      else if length data = 1 \<and> 1 \<le> unat (data ! 0) \<and> unat (data ! 0) \<le> 16 then opcode = OP_1 + (unat (data ! 0) - 1)
      else if length data = 1 \<and> data ! 0 = 0x81 then opcode = OP_1NEGATE
      else if length data \<le> 75 then opcode = length data
      else if length data \<le> 255 then opcode = OP_PUSHDATA1
      else if length data \<le> 65535 then opcode = OP_PUSHDATA2
      else True)"

definition vchFalse :: valtype where "vchFalse = []"
definition vchTrue :: valtype where "vchTrue = [1]"

definition vchBool :: "bool \<Rightarrow> valtype" where
  "vchBool b = (if b then vchTrue else vchFalse)"

subsection \<open>The state of an evaluation\<close>

record exec =
  stk :: "valtype list"
  altstk :: "valtype list"
  vfExec :: "bool list"
  nOpCount :: int
  codehash :: CScript

abbreviation (input) INVALID_STACK :: "'a script_result" where
  "INVALID_STACK \<equiv> Inl (Error SCRIPT_ERR_INVALID_STACK_OPERATION)"

definition on_stack :: "(valtype list \<Rightarrow> valtype list script_result) \<Rightarrow> exec \<Rightarrow> exec script_result" where
  "on_stack f s = bindR (f (stk s)) (\<lambda>st. Inr (s\<lparr>stk := st\<rparr>))"

definition script_num :: "u32 \<Rightarrow> nat \<Rightarrow> valtype \<Rightarrow> int script_result" where
  "script_num flags n vch = liftS (CScriptNum_vch vch (flag_set flags SCRIPT_VERIFY_MINIMALDATA) n)"

subsection \<open>Control\<close>

definition op_push_small :: "opcodetype \<Rightarrow> valtype list \<Rightarrow> valtype list script_result" where
  "op_push_small opcode st = liftS (bindR (getvch (int opcode - (int OP_1 - 1))) (\<lambda>v. Inr (v # st)))"

definition op_upgradable_nop :: "u32 \<Rightarrow> exec \<Rightarrow> exec script_result" where
  "op_upgradable_nop flags s =
     (if flag_set flags SCRIPT_VERIFY_DISCOURAGE_UPGRADABLE_NOPS then Inl (Error SCRIPT_ERR_DISCOURAGE_UPGRADABLE_NOPS)
      else Inr s)"

definition op_checklocktimeverify :: "SignatureChecker \<Rightarrow> u32 \<Rightarrow> exec \<Rightarrow> exec script_result" where
  "op_checklocktimeverify checker flags s =
     (if \<not> flag_set flags SCRIPT_VERIFY_CHECKLOCKTIMEVERIFY then op_upgradable_nop flags s
      else case stk s of [] \<Rightarrow> INVALID_STACK
      | v # _ \<Rightarrow> bindR (script_num flags 5 v) (\<lambda>nLockTime.
          if nLockTime < 0 then Inl (Error SCRIPT_ERR_NEGATIVE_LOCKTIME)
          else bindR (liftS (CheckLockTime checker nLockTime)) (\<lambda>ok.
               if \<not> ok then Inl (Error SCRIPT_ERR_UNSATISFIED_LOCKTIME) else Inr s)))"

definition SEQUENCE_LOCKTIME_DISABLE_FLAG :: int where "SEQUENCE_LOCKTIME_DISABLE_FLAG = 0x80000000"

definition op_checksequenceverify :: "SignatureChecker \<Rightarrow> u32 \<Rightarrow> exec \<Rightarrow> exec script_result" where
  "op_checksequenceverify checker flags s =
     (if \<not> flag_set flags SCRIPT_VERIFY_CHECKSEQUENCEVERIFY then op_upgradable_nop flags s
      else case stk s of [] \<Rightarrow> INVALID_STACK
      | v # _ \<Rightarrow> bindR (script_num flags 5 v) (\<lambda>nSequence.
          if nSequence < 0 then Inl (Error SCRIPT_ERR_NEGATIVE_LOCKTIME)
          else if num_and nSequence SEQUENCE_LOCKTIME_DISABLE_FLAG \<noteq> 0 then Inr s
          else bindR (liftS (CheckSequence checker nSequence)) (\<lambda>ok.
               if \<not> ok then Inl (Error SCRIPT_ERR_UNSATISFIED_LOCKTIME) else Inr s)))"

definition op_if :: "opcodetype \<Rightarrow> u32 \<Rightarrow> SigVersion \<Rightarrow> bool \<Rightarrow> exec \<Rightarrow> exec script_result" where
  "op_if opcode flags sigversion fExec s =
     (if fExec then
        (case stk s of [] \<Rightarrow> Inl (Error SCRIPT_ERR_UNBALANCED_CONDITIONAL)
         | vch # st \<Rightarrow>
             if sigversion = SIGVERSION_WITNESS_V0 \<and> flag_set flags SCRIPT_VERIFY_MINIMALIF \<and>
                (1 < length vch \<or> (length vch = 1 \<and> vch ! 0 \<noteq> 1)) then Inl (Error SCRIPT_ERR_MINIMALIF)
             else let fValue = (if opcode = OP_NOTIF then \<not> CastToBool vch else CastToBool vch) in
                  Inr (s\<lparr>stk := st, vfExec := fValue # vfExec s\<rparr>))
      else Inr (s\<lparr>vfExec := False # vfExec s\<rparr>))"

definition op_else :: "exec \<Rightarrow> exec script_result" where
  "op_else s = (case vfExec s of [] \<Rightarrow> Inl (Error SCRIPT_ERR_UNBALANCED_CONDITIONAL)
     | b # bs \<Rightarrow> Inr (s\<lparr>vfExec := (\<not> b) # bs\<rparr>))"

definition op_endif :: "exec \<Rightarrow> exec script_result" where
  "op_endif s = (case vfExec s of [] \<Rightarrow> Inl (Error SCRIPT_ERR_UNBALANCED_CONDITIONAL)
     | b # bs \<Rightarrow> Inr (s\<lparr>vfExec := bs\<rparr>))"

definition op_verify :: "valtype list \<Rightarrow> valtype list script_result" where
  "op_verify st = (case st of [] \<Rightarrow> INVALID_STACK
     | v # st' \<Rightarrow> if CastToBool v then Inr st' else Inl (Error SCRIPT_ERR_VERIFY))"

subsection \<open>Stack operations\<close>

definition op_toaltstack :: "exec \<Rightarrow> exec script_result" where
  "op_toaltstack s = (case stk s of [] \<Rightarrow> INVALID_STACK
     | v # st \<Rightarrow> Inr (s\<lparr>stk := st, altstk := v # altstk s\<rparr>))"

definition op_fromaltstack :: "exec \<Rightarrow> exec script_result" where
  "op_fromaltstack s = (case altstk s of [] \<Rightarrow> Inl (Error SCRIPT_ERR_INVALID_ALTSTACK_OPERATION)
     | v # st \<Rightarrow> Inr (s\<lparr>stk := v # stk s, altstk := st\<rparr>))"

definition op_2drop :: "valtype list \<Rightarrow> valtype list script_result" where
  "op_2drop st = (case st of x2 # x1 # r \<Rightarrow> Inr r | _ \<Rightarrow> INVALID_STACK)"

definition op_2dup :: "valtype list \<Rightarrow> valtype list script_result" where
  "op_2dup st = (case st of x2 # x1 # r \<Rightarrow> Inr (x2 # x1 # x2 # x1 # r) | _ \<Rightarrow> INVALID_STACK)"

definition op_3dup :: "valtype list \<Rightarrow> valtype list script_result" where
  "op_3dup st = (case st of x3 # x2 # x1 # r \<Rightarrow> Inr (x3 # x2 # x1 # x3 # x2 # x1 # r) | _ \<Rightarrow> INVALID_STACK)"

definition op_2over :: "valtype list \<Rightarrow> valtype list script_result" where
  "op_2over st = (case st of x4 # x3 # x2 # x1 # r \<Rightarrow> Inr (x2 # x1 # x4 # x3 # x2 # x1 # r) | _ \<Rightarrow> INVALID_STACK)"

definition op_2rot :: "valtype list \<Rightarrow> valtype list script_result" where
  "op_2rot st = (case st of x6 # x5 # x4 # x3 # x2 # x1 # r \<Rightarrow> Inr (x2 # x1 # x6 # x5 # x4 # x3 # r) | _ \<Rightarrow> INVALID_STACK)"

definition op_2swap :: "valtype list \<Rightarrow> valtype list script_result" where
  "op_2swap st = (case st of x4 # x3 # x2 # x1 # r \<Rightarrow> Inr (x2 # x1 # x4 # x3 # r) | _ \<Rightarrow> INVALID_STACK)"

definition op_ifdup :: "valtype list \<Rightarrow> valtype list script_result" where
  "op_ifdup st = (case st of v # r \<Rightarrow> Inr (if CastToBool v then v # v # r else v # r) | _ \<Rightarrow> INVALID_STACK)"

definition op_depth :: "valtype list \<Rightarrow> valtype list script_result" where
  "op_depth st = liftS (bindR (getvch (int (length st))) (\<lambda>v. Inr (v # st)))"

definition op_drop :: "valtype list \<Rightarrow> valtype list script_result" where
  "op_drop st = (case st of v # r \<Rightarrow> Inr r | _ \<Rightarrow> INVALID_STACK)"

definition op_dup :: "valtype list \<Rightarrow> valtype list script_result" where
  "op_dup st = (case st of v # r \<Rightarrow> Inr (v # v # r) | _ \<Rightarrow> INVALID_STACK)"

definition op_nip :: "valtype list \<Rightarrow> valtype list script_result" where
  "op_nip st = (case st of x2 # x1 # r \<Rightarrow> Inr (x2 # r) | _ \<Rightarrow> INVALID_STACK)"

definition op_over :: "valtype list \<Rightarrow> valtype list script_result" where
  "op_over st = (case st of x2 # x1 # r \<Rightarrow> Inr (x1 # x2 # x1 # r) | _ \<Rightarrow> INVALID_STACK)"

definition op_pick_roll :: "opcodetype \<Rightarrow> u32 \<Rightarrow> valtype list \<Rightarrow> valtype list script_result" where
  "op_pick_roll opcode flags st =
     (if length st < 2 then INVALID_STACK
      else bindR (script_num flags nDefaultMaxNumSize (hd st)) (\<lambda>v.
        let n = getint v; st' = tl st in
        if n < 0 \<or> int (length st') \<le> n then INVALID_STACK
        else let vch = st' ! nat n;
                 st'' = (if opcode = OP_ROLL then take (nat n) st' @ drop (nat n + 1) st' else st') in
             Inr (vch # st'')))"

definition op_rot :: "valtype list \<Rightarrow> valtype list script_result" where
  "op_rot st = (case st of x3 # x2 # x1 # r \<Rightarrow> Inr (x1 # x3 # x2 # r) | _ \<Rightarrow> INVALID_STACK)"

definition op_swap :: "valtype list \<Rightarrow> valtype list script_result" where
  "op_swap st = (case st of x2 # x1 # r \<Rightarrow> Inr (x1 # x2 # r) | _ \<Rightarrow> INVALID_STACK)"

definition op_tuck :: "valtype list \<Rightarrow> valtype list script_result" where
  "op_tuck st = (case st of x2 # x1 # r \<Rightarrow> Inr (x2 # x1 # x2 # r) | _ \<Rightarrow> INVALID_STACK)"

definition op_size :: "valtype list \<Rightarrow> valtype list script_result" where
  "op_size st = (case st of v # r \<Rightarrow> liftS (bindR (getvch (int (length v))) (\<lambda>n. Inr (n # v # r))) | _ \<Rightarrow> INVALID_STACK)"

subsection \<open>Comparison and arithmetic\<close>

definition op_equal :: "opcodetype \<Rightarrow> valtype list \<Rightarrow> valtype list script_result" where
  "op_equal opcode st = (case st of x2 # x1 # r \<Rightarrow>
     let fEqual = (x1 = x2) in
     if opcode = OP_EQUALVERIFY then if fEqual then Inr r else Inl (Error SCRIPT_ERR_EQUALVERIFY)
     else Inr (vchBool fEqual # r) | _ \<Rightarrow> INVALID_STACK)"

definition num_unary :: "opcodetype \<Rightarrow> int \<Rightarrow> int result" where
  "num_unary opcode bn =
     (if opcode = OP_1ADD then num_add_assign bn 1
      else if opcode = OP_1SUB then num_sub_assign bn 1
      else if opcode = OP_NEGATE then num_neg bn
      else if opcode = OP_ABS then if bn < 0 then num_neg bn else Inr bn
      else if opcode = OP_NOT then Inr (of_bool (bn = 0))
      else if opcode = OP_0NOTEQUAL then Inr (of_bool (bn \<noteq> 0))
      else Inl AssertFailed)"

definition op_unary :: "opcodetype \<Rightarrow> u32 \<Rightarrow> valtype list \<Rightarrow> valtype list script_result" where
  "op_unary opcode flags st = (case st of v # r \<Rightarrow>
     bindR (script_num flags nDefaultMaxNumSize v) (\<lambda>bn.
     bindR (liftS (num_unary opcode bn)) (\<lambda>bn'.
     bindR (liftS (getvch bn')) (\<lambda>v'. Inr (v' # r)))) | _ \<Rightarrow> INVALID_STACK)"

definition num_binary :: "opcodetype \<Rightarrow> int \<Rightarrow> int \<Rightarrow> int result" where
  "num_binary opcode bn1 bn2 =
     (if opcode = OP_ADD then num_add bn1 bn2
      else if opcode = OP_SUB then num_sub bn1 bn2
      else if opcode = OP_BOOLAND then Inr (of_bool (bn1 \<noteq> 0 \<and> bn2 \<noteq> 0))
      else if opcode = OP_BOOLOR then Inr (of_bool (bn1 \<noteq> 0 \<or> bn2 \<noteq> 0))
      else if opcode = OP_NUMEQUAL then Inr (of_bool (bn1 = bn2))
      else if opcode = OP_NUMEQUALVERIFY then Inr (of_bool (bn1 = bn2))
      else if opcode = OP_NUMNOTEQUAL then Inr (of_bool (bn1 \<noteq> bn2))
      else if opcode = OP_LESSTHAN then Inr (of_bool (bn1 < bn2))
      else if opcode = OP_GREATERTHAN then Inr (of_bool (bn2 < bn1))
      else if opcode = OP_LESSTHANOREQUAL then Inr (of_bool (bn1 \<le> bn2))
      else if opcode = OP_GREATERTHANOREQUAL then Inr (of_bool (bn2 \<le> bn1))
      else if opcode = OP_MIN then Inr (if bn1 < bn2 then bn1 else bn2)
      else if opcode = OP_MAX then Inr (if bn2 < bn1 then bn1 else bn2)
      else Inl AssertFailed)"

definition op_binary :: "opcodetype \<Rightarrow> u32 \<Rightarrow> valtype list \<Rightarrow> valtype list script_result" where
  "op_binary opcode flags st = (case st of x2 # x1 # r \<Rightarrow>
     bindR (script_num flags nDefaultMaxNumSize x1) (\<lambda>bn1.
     bindR (script_num flags nDefaultMaxNumSize x2) (\<lambda>bn2.
     bindR (liftS (num_binary opcode bn1 bn2)) (\<lambda>bn.
     bindR (liftS (getvch bn)) (\<lambda>v.
       if opcode = OP_NUMEQUALVERIFY
       then if CastToBool v then Inr r else Inl (Error SCRIPT_ERR_NUMEQUALVERIFY)
       else Inr (v # r))))) | _ \<Rightarrow> INVALID_STACK)"

definition op_within :: "u32 \<Rightarrow> valtype list \<Rightarrow> valtype list script_result" where
  "op_within flags st = (case st of x3 # x2 # x1 # r \<Rightarrow>
     bindR (script_num flags nDefaultMaxNumSize x1) (\<lambda>bn1.
     bindR (script_num flags nDefaultMaxNumSize x2) (\<lambda>bn2.
     bindR (script_num flags nDefaultMaxNumSize x3) (\<lambda>bn3.
       Inr (vchBool (bn2 \<le> bn1 \<and> bn1 < bn3) # r)))) | _ \<Rightarrow> INVALID_STACK)"

subsection \<open>Cryptographic operations\<close>

definition op_hash :: "crypto \<Rightarrow> opcodetype \<Rightarrow> valtype list \<Rightarrow> valtype list script_result" where
  "op_hash cr opcode st = (case st of v # r \<Rightarrow>
     Inr ((if opcode = OP_RIPEMD160 then RIPEMD160 cr v
           else if opcode = OP_SHA1 then SHA1 cr v
           else if opcode = OP_SHA256 then SHA256 cr v
           else if opcode = OP_HASH160 then CHash160 cr v
           else CHash256 cr v) # r) | _ \<Rightarrow> INVALID_STACK)"

definition drop_sig :: "SigVersion \<Rightarrow> valtype \<Rightarrow> CScript \<Rightarrow> CScript" where
  "drop_sig sigversion vchSig scriptCode =
     (if sigversion = SIGVERSION_BASE then snd (FindAndDelete scriptCode (push_data [] vchSig)) else scriptCode)"

definition op_checksig :: "crypto \<Rightarrow> SignatureChecker \<Rightarrow> opcodetype \<Rightarrow> u32 \<Rightarrow> SigVersion \<Rightarrow> CScript \<Rightarrow> valtype list \<Rightarrow>
    valtype list script_result" where
  "op_checksig cr checker opcode flags sigversion code st = (case st of vchPubKey # vchSig # r \<Rightarrow>
     let scriptCode = drop_sig sigversion vchSig code in
     bindR (CheckSignatureEncoding cr vchSig flags) (\<lambda>_.
     bindR (CheckPubKeyEncoding vchPubKey flags sigversion) (\<lambda>_.
     bindR (liftS (CheckSig checker vchSig vchPubKey scriptCode sigversion)) (\<lambda>fSuccess.
       if \<not> fSuccess \<and> flag_set flags SCRIPT_VERIFY_NULLFAIL \<and> 0 < length vchSig then Inl (Error SCRIPT_ERR_SIG_NULLFAIL)
       else if opcode = OP_CHECKSIGVERIFY
       then if fSuccess then Inr r else Inl (Error SCRIPT_ERR_CHECKSIGVERIFY)
       else Inr (vchBool fSuccess # r)))) | _ \<Rightarrow> INVALID_STACK)"

text \<open>
  The loop over the signatures. \<open>sigs\<close> and \<open>keys\<close> are the elements from \<open>stacktop(-isig)\<close> and
  \<open>stacktop(-ikey)\<close> on, as many as \<open>nSigsCount\<close> and \<open>nKeysCount\<close> say. There are never more signatures
  than keys when the body runs, so the third equation is not reached.
\<close>

fun multisig_loop :: "crypto \<Rightarrow> SignatureChecker \<Rightarrow> u32 \<Rightarrow> SigVersion \<Rightarrow> CScript \<Rightarrow> valtype list \<Rightarrow> valtype list \<Rightarrow>
    bool script_result" where
  "multisig_loop cr checker flags sigversion scriptCode [] keys = Inr True"
| "multisig_loop cr checker flags sigversion scriptCode (vchSig # sigs) (vchPubKey # keys) =
     bindR (CheckSignatureEncoding cr vchSig flags) (\<lambda>_.
     bindR (CheckPubKeyEncoding vchPubKey flags sigversion) (\<lambda>_.
     bindR (liftS (CheckSig checker vchSig vchPubKey scriptCode sigversion)) (\<lambda>fOk.
       let sigs' = (if fOk then sigs else vchSig # sigs) in
       if length keys < length sigs' then Inr False
       else multisig_loop cr checker flags sigversion scriptCode sigs' keys)))"
| "multisig_loop cr checker flags sigversion scriptCode (vchSig # sigs) [] = Inr False"

text \<open>Removing the arguments: \<open>i\<close> is how many are left, \<open>ikey2\<close> how many of them are not signatures.\<close>

fun multisig_cleanup :: "u32 \<Rightarrow> bool \<Rightarrow> nat \<Rightarrow> nat \<Rightarrow> valtype list \<Rightarrow> valtype list script_result" where
  "multisig_cleanup flags fSuccess 0 ikey2 st = Inr st"
| "multisig_cleanup flags fSuccess (Suc i) ikey2 st = (case st of
     [] \<Rightarrow> Inl (Abort (Thrown ''popstack(): stack empty''))
   | v # st' \<Rightarrow>
       if \<not> fSuccess \<and> flag_set flags SCRIPT_VERIFY_NULLFAIL \<and> ikey2 = 0 \<and> 0 < length v
       then Inl (Error SCRIPT_ERR_SIG_NULLFAIL)
       else multisig_cleanup flags fSuccess i (ikey2 - 1) st')"

definition multisig_finish :: "opcodetype \<Rightarrow> u32 \<Rightarrow> bool \<Rightarrow> valtype list \<Rightarrow> valtype list script_result" where
  "multisig_finish opcode flags fSuccess st = (case st of [] \<Rightarrow> INVALID_STACK
     | dummy # r \<Rightarrow>
         if flag_set flags SCRIPT_VERIFY_NULLDUMMY \<and> 0 < length dummy then Inl (Error SCRIPT_ERR_SIG_NULLDUMMY)
         else if opcode = OP_CHECKMULTISIGVERIFY
         then if fSuccess then Inr r else Inl (Error SCRIPT_ERR_CHECKMULTISIGVERIFY)
         else Inr (vchBool fSuccess # r))"

definition op_checkmultisig :: "crypto \<Rightarrow> SignatureChecker \<Rightarrow> opcodetype \<Rightarrow> u32 \<Rightarrow> SigVersion \<Rightarrow> exec \<Rightarrow> exec script_result" where
  "op_checkmultisig cr checker opcode flags sigversion s =
     (let st = stk s in
      if length st < 1 then INVALID_STACK
      else bindR (script_num flags nDefaultMaxNumSize (st ! 0)) (\<lambda>k.
      let nKeysCount = getint k in
      if nKeysCount < 0 \<or> MAX_PUBKEYS_PER_MULTISIG < nKeysCount then Inl (Error SCRIPT_ERR_PUBKEY_COUNT)
      else let n = nOpCount s + nKeysCount in
      if MAX_OPS_PER_SCRIPT < n then Inl (Error SCRIPT_ERR_OP_COUNT)
      else let keys = nat nKeysCount in
      if length st < 2 + keys then INVALID_STACK
      else bindR (script_num flags nDefaultMaxNumSize (st ! (1 + keys))) (\<lambda>m.
      let nSigsCount = getint m in
      if nSigsCount < 0 \<or> nKeysCount < nSigsCount then Inl (Error SCRIPT_ERR_SIG_COUNT)
      else let sigs = nat nSigsCount in
      if length st < 3 + keys + sigs then INVALID_STACK
      else let vKeys = take keys (drop 1 st); vSigs = take sigs (drop (2 + keys) st);
               scriptCode = foldl (\<lambda>c v. drop_sig sigversion v c) (codehash s) vSigs in
      bindR (multisig_loop cr checker flags sigversion scriptCode vSigs vKeys) (\<lambda>fSuccess.
      bindR (multisig_cleanup flags fSuccess (2 + keys + sigs) (keys + 2) st) (\<lambda>st'.
      bindR (multisig_finish opcode flags fSuccess st') (\<lambda>st''.
        Inr (s\<lparr>stk := st'', nOpCount := n\<rparr>)))))))"

subsection \<open>The switch\<close>

definition exec_control :: "SignatureChecker \<Rightarrow> opcodetype \<Rightarrow> u32 \<Rightarrow> SigVersion \<Rightarrow> bool \<Rightarrow> exec \<Rightarrow> exec script_result" where
  "exec_control checker opcode flags sigversion fExec s =
     (if opcode = OP_NOP then Inr s
      else if opcode = OP_CHECKLOCKTIMEVERIFY then op_checklocktimeverify checker flags s
      else if opcode = OP_CHECKSEQUENCEVERIFY then op_checksequenceverify checker flags s
      else if opcode = OP_NOP1 \<or> (OP_NOP4 \<le> opcode \<and> opcode \<le> OP_NOP10) then op_upgradable_nop flags s
      else if opcode = OP_IF \<or> opcode = OP_NOTIF then op_if opcode flags sigversion fExec s
      else if opcode = OP_ELSE then op_else s
      else if opcode = OP_ENDIF then op_endif s
      else if opcode = OP_VERIFY then on_stack op_verify s
      else if opcode = OP_RETURN then Inl (Error SCRIPT_ERR_OP_RETURN)
      else Inl (Error SCRIPT_ERR_BAD_OPCODE))"

definition exec_stack :: "opcodetype \<Rightarrow> u32 \<Rightarrow> exec \<Rightarrow> exec script_result" where
  "exec_stack opcode flags s =
     (if opcode = OP_TOALTSTACK then op_toaltstack s
      else if opcode = OP_FROMALTSTACK then op_fromaltstack s
      else on_stack
        (if opcode = OP_2DROP then op_2drop
         else if opcode = OP_2DUP then op_2dup
         else if opcode = OP_3DUP then op_3dup
         else if opcode = OP_2OVER then op_2over
         else if opcode = OP_2ROT then op_2rot
         else if opcode = OP_2SWAP then op_2swap
         else if opcode = OP_IFDUP then op_ifdup
         else if opcode = OP_DEPTH then op_depth
         else if opcode = OP_DROP then op_drop
         else if opcode = OP_DUP then op_dup
         else if opcode = OP_NIP then op_nip
         else if opcode = OP_OVER then op_over
         else if opcode = OP_PICK \<or> opcode = OP_ROLL then op_pick_roll opcode flags
         else if opcode = OP_ROT then op_rot
         else if opcode = OP_SWAP then op_swap
         else if opcode = OP_TUCK then op_tuck
         else if opcode = OP_SIZE then op_size
         else (\<lambda>_. Inl (Error SCRIPT_ERR_BAD_OPCODE))) s)"

definition exec_numeric :: "opcodetype \<Rightarrow> u32 \<Rightarrow> exec \<Rightarrow> exec script_result" where
  "exec_numeric opcode flags s = on_stack
     (if opcode = OP_EQUAL \<or> opcode = OP_EQUALVERIFY then op_equal opcode
      else if opcode = OP_1ADD \<or> opcode = OP_1SUB \<or> opcode = OP_NEGATE \<or> opcode = OP_ABS \<or> opcode = OP_NOT \<or>
              opcode = OP_0NOTEQUAL then op_unary opcode flags
      else if opcode = OP_ADD \<or> opcode = OP_SUB \<or> (OP_BOOLAND \<le> opcode \<and> opcode \<le> OP_MAX) then op_binary opcode flags
      else if opcode = OP_WITHIN then op_within flags
      else (\<lambda>_. Inl (Error SCRIPT_ERR_BAD_OPCODE))) s"

definition exec_crypto :: "crypto \<Rightarrow> SignatureChecker \<Rightarrow> opcodetype \<Rightarrow> u32 \<Rightarrow> SigVersion \<Rightarrow> CScript \<Rightarrow> exec \<Rightarrow> exec script_result" where
  "exec_crypto cr checker opcode flags sigversion pc s =
     (if OP_RIPEMD160 \<le> opcode \<and> opcode \<le> OP_HASH256 then on_stack (op_hash cr opcode) s
      else if opcode = OP_CODESEPARATOR then Inr (s\<lparr>codehash := pc\<rparr>)
      else if opcode = OP_CHECKSIG \<or> opcode = OP_CHECKSIGVERIFY
      then on_stack (op_checksig cr checker opcode flags sigversion (codehash s)) s
      else if opcode = OP_CHECKMULTISIG \<or> opcode = OP_CHECKMULTISIGVERIFY
      then op_checkmultisig cr checker opcode flags sigversion s
      else if opcode = OP_RVH_ASSET then Inr s
      else Inl (Error SCRIPT_ERR_BAD_OPCODE))"

text \<open>The cases of the switch are disjoint; they are tried in groups, in the order of their opcodes.\<close>

definition exec_op :: "crypto \<Rightarrow> SignatureChecker \<Rightarrow> opcodetype \<Rightarrow> u32 \<Rightarrow> SigVersion \<Rightarrow> bool \<Rightarrow> CScript \<Rightarrow> exec \<Rightarrow>
    exec script_result" where
  "exec_op cr checker opcode flags sigversion fExec pc s =
     (if opcode = OP_1NEGATE \<or> (OP_1 \<le> opcode \<and> opcode \<le> OP_16) then on_stack (op_push_small opcode) s
      else if (OP_NOP \<le> opcode \<and> opcode \<le> OP_RETURN) \<or> (OP_NOP1 \<le> opcode \<and> opcode \<le> OP_NOP10)
      then exec_control checker opcode flags sigversion fExec s
      else if OP_TOALTSTACK \<le> opcode \<and> opcode \<le> OP_SIZE then exec_stack opcode flags s
      else if OP_INVERT \<le> opcode \<and> opcode \<le> OP_WITHIN then exec_numeric opcode flags s
      else if OP_RIPEMD160 \<le> opcode then exec_crypto cr checker opcode flags sigversion pc s
      else Inl (Error SCRIPT_ERR_BAD_OPCODE))"

definition disabled_opcode :: "opcodetype \<Rightarrow> bool" where
  "disabled_opcode opcode \<longleftrightarrow> opcode \<in> {OP_CAT, OP_SUBSTR, OP_LEFT, OP_RIGHT, OP_INVERT, OP_AND, OP_OR, OP_XOR,
     OP_2MUL, OP_2DIV, OP_MUL, OP_DIV, OP_MOD, OP_LSHIFT, OP_RSHIFT}"

text \<open>One iteration of the loop: the iterator after the instruction and the new state.\<close>

definition eval_instr :: "crypto \<Rightarrow> SignatureChecker \<Rightarrow> u32 \<Rightarrow> SigVersion \<Rightarrow> CScript \<Rightarrow> exec \<Rightarrow> (CScript \<times> exec) script_result" where
  "eval_instr cr checker flags sigversion pc s =
     (let fExec = (False \<notin> set (vfExec s)) in
      case GetOp2 pc of (ok, opcode, vchPushValue, pc') \<Rightarrow>
      if \<not> ok then Inl (Error SCRIPT_ERR_BAD_OPCODE)
      else if MAX_SCRIPT_ELEMENT_SIZE < length vchPushValue then Inl (Error SCRIPT_ERR_PUSH_SIZE)
      else let s1 = (if OP_16 < opcode then s\<lparr>nOpCount := nOpCount s + 1\<rparr> else s) in
      if OP_16 < opcode \<and> MAX_OPS_PER_SCRIPT < nOpCount s1 then Inl (Error SCRIPT_ERR_OP_COUNT)
      else if disabled_opcode opcode then Inl (Error SCRIPT_ERR_DISABLED_OPCODE)
      else bindR
        (if fExec \<and> opcode \<le> OP_PUSHDATA4 then
           if flag_set flags SCRIPT_VERIFY_MINIMALDATA \<and> \<not> CheckMinimalPush vchPushValue opcode
           then Inl (Error SCRIPT_ERR_MINIMALDATA)
           else Inr (s1\<lparr>stk := vchPushValue # stk s1\<rparr>)
         else if fExec \<or> (OP_IF \<le> opcode \<and> opcode \<le> OP_ENDIF)
         then exec_op cr checker opcode flags sigversion fExec pc' s1
         else Inr s1)
        (\<lambda>s2. if MAX_STACK_SIZE < length (stk s2) + length (altstk s2) then Inl (Error SCRIPT_ERR_STACK_SIZE)
              else Inr (pc', s2)))"

lemma eval_instr_shorter: "eval_instr cr checker flags sigversion pc s = Inr (pc', s') \<Longrightarrow> length pc' < length pc"
  by (auto simp: eval_instr_def Let_def bindR_Inr_iff dest!: GetOp2_shorter split: prod.splits if_splits)

function eval_loop :: "crypto \<Rightarrow> SignatureChecker \<Rightarrow> u32 \<Rightarrow> SigVersion \<Rightarrow> CScript \<Rightarrow> exec \<Rightarrow> exec script_result" where
  "eval_loop cr checker flags sigversion pc s =
     (if pc = [] then Inr s
      else bindR (eval_instr cr checker flags sigversion pc s) (\<lambda>(pc', s').
           eval_loop cr checker flags sigversion pc' s'))"
  by pat_completeness auto
termination
  by (relation "measure (\<lambda>(_, _, _, _, pc, _). length pc)") (auto dest: eval_instr_shorter)

declare eval_loop.simps [simp del]

definition exec_init :: "valtype list \<Rightarrow> CScript \<Rightarrow> exec" where
  "exec_init stack script = \<lparr>stk = stack, altstk = [], vfExec = [], nOpCount = 0, codehash = script\<rparr>"

text \<open>The outer level of the result is a failed assertion; the inner one is the returned flag with the error.\<close>

definition EvalScript :: "crypto \<Rightarrow> SignatureChecker \<Rightarrow> valtype list \<Rightarrow> CScript \<Rightarrow> u32 \<Rightarrow> SigVersion \<Rightarrow>
    (ScriptError + valtype list) result" where
  "EvalScript cr checker stack script flags sigversion =
     (if MAX_SCRIPT_SIZE < length script then Inr (Inl SCRIPT_ERR_SCRIPT_SIZE)
      else case eval_loop cr checker flags sigversion script (exec_init stack script) of
        Inl (Error e) \<Rightarrow> Inr (Inl e)
      | Inl (Abort (Thrown _)) \<Rightarrow> Inr (Inl SCRIPT_ERR_UNKNOWN_ERROR)
      | Inl (Abort e) \<Rightarrow> Inl e
      | Inr s \<Rightarrow> if vfExec s \<noteq> [] then Inr (Inl SCRIPT_ERR_UNBALANCED_CONDITIONAL) else Inr (Inr (stk s)))"

subsection \<open>Verification of an input\<close>

type_synonym CScriptWitness = "valtype list"

text \<open>Continue with the stack when evaluation succeeds; the error is passed on otherwise.\<close>

definition and_then :: "(ScriptError + 'a) result \<Rightarrow> ('a \<Rightarrow> (ScriptError + 'b) result) \<Rightarrow> (ScriptError + 'b) result" where
  "and_then m f = (case m of Inl e \<Rightarrow> Inl e | Inr (Inl e) \<Rightarrow> Inr (Inl e) | Inr (Inr x) \<Rightarrow> f x)"

definition check_true :: "valtype list \<Rightarrow> (ScriptError + unit) result" where
  "check_true stack = (case stack of [] \<Rightarrow> Inr (Inl SCRIPT_ERR_EVAL_FALSE)
     | v # _ \<Rightarrow> if CastToBool v then Inr (Inr ()) else Inr (Inl SCRIPT_ERR_EVAL_FALSE))"

definition witness_program :: "crypto \<Rightarrow> CScriptWitness \<Rightarrow> valtype \<Rightarrow> ScriptError + (CScript \<times> valtype list)" where
  "witness_program cr witness program =
     (if length program = 32 then
        if length witness = 0 then Inl SCRIPT_ERR_WITNESS_PROGRAM_WITNESS_EMPTY
        else let scriptPubKey = last witness; stack = rev (butlast witness) in
             if SHA256 cr scriptPubKey \<noteq> program then Inl SCRIPT_ERR_WITNESS_PROGRAM_MISMATCH
             else Inr (scriptPubKey, stack)
      else if length program = 20 then
        if length witness \<noteq> 2 then Inl SCRIPT_ERR_WITNESS_PROGRAM_MISMATCH
        else Inr (push_data [OP_DUP, OP_HASH160] program @ [OP_EQUALVERIFY, OP_CHECKSIG], rev witness)
      else Inl SCRIPT_ERR_WITNESS_PROGRAM_WRONG_LENGTH)"

definition VerifyWitnessProgram :: "crypto \<Rightarrow> SignatureChecker \<Rightarrow> CScriptWitness \<Rightarrow> int \<Rightarrow> valtype \<Rightarrow> u32 \<Rightarrow>
    (ScriptError + unit) result" where
  "VerifyWitnessProgram cr checker witness witversion program flags =
     (if witversion = 0 then
        case witness_program cr witness program of
          Inl e \<Rightarrow> Inr (Inl e)
        | Inr (scriptPubKey, stack) \<Rightarrow>
            if \<exists>v\<in>set stack. MAX_SCRIPT_ELEMENT_SIZE < length v then Inr (Inl SCRIPT_ERR_PUSH_SIZE)
            else and_then (EvalScript cr checker stack scriptPubKey flags SIGVERSION_WITNESS_V0) (\<lambda>stack'.
                 if length stack' \<noteq> 1 then Inr (Inl SCRIPT_ERR_EVAL_FALSE)
                 else if \<not> CastToBool (hd stack') then Inr (Inl SCRIPT_ERR_EVAL_FALSE)
                 else Inr (Inr ()))
      else if flag_set flags SCRIPT_VERIFY_DISCOURAGE_UPGRADABLE_WITNESS_PROGRAM
      then Inr (Inl SCRIPT_ERR_DISCOURAGE_UPGRADABLE_WITNESS_PROGRAM)
      else Inr (Inr ()))"

text \<open>
  The witness part of \<open>VerifyScript\<close> for a script: whether there was a program, and the stack after
  \<open>stack.resize(1)\<close>, which keeps the bottom element.
\<close>

definition verify_witness :: "crypto \<Rightarrow> SignatureChecker \<Rightarrow> CScriptWitness \<Rightarrow> u32 \<Rightarrow> CScript \<Rightarrow> bool \<Rightarrow> ScriptError \<Rightarrow> valtype list \<Rightarrow>
    (ScriptError + (bool \<times> valtype list)) result" where
  "verify_witness cr checker witness flags script malleated err stack =
     (if flag_set flags SCRIPT_VERIFY_WITNESS then
        case IsWitnessProgram script of
          Inl e \<Rightarrow> Inl e
        | Inr None \<Rightarrow> Inr (Inr (False, stack))
        | Inr (Some (version, program)) \<Rightarrow>
            if malleated then Inr (Inl err)
            else and_then (VerifyWitnessProgram cr checker witness version program flags) (\<lambda>_.
                 Inr (Inr (True, if stack = [] then [[]] else [last stack])))
      else Inr (Inr (False, stack)))"

definition verify_p2sh :: "crypto \<Rightarrow> SignatureChecker \<Rightarrow> CScriptWitness \<Rightarrow> u32 \<Rightarrow> CScript \<Rightarrow> CScript \<Rightarrow> valtype list \<Rightarrow> bool \<Rightarrow> valtype list \<Rightarrow>
    (ScriptError + (bool \<times> valtype list)) result" where
  "verify_p2sh cr checker witness flags scriptSig scriptPubKey stackCopy hadWitness stack =
     (if flag_set flags SCRIPT_VERIFY_P2SH \<and> IsPayToScriptHash scriptPubKey then
        if \<not> IsPushOnly scriptSig then Inr (Inl SCRIPT_ERR_SIG_PUSHONLY)
        else case stackCopy of [] \<Rightarrow> Inl AssertFailed
        | pubKey2 # stack2 \<Rightarrow>
            and_then (EvalScript cr checker stack2 pubKey2 flags SIGVERSION_BASE) (\<lambda>stack3.
            and_then (check_true stack3) (\<lambda>_.
            and_then (verify_witness cr checker witness flags pubKey2 (scriptSig \<noteq> push_data [] pubKey2)
                SCRIPT_ERR_WITNESS_MALLEATED_P2SH stack3) (\<lambda>(had, stack4). Inr (Inr (hadWitness \<or> had, stack4)))))
      else Inr (Inr (hadWitness, stack)))"

definition verify_final :: "CScriptWitness \<Rightarrow> u32 \<Rightarrow> bool \<Rightarrow> valtype list \<Rightarrow> (ScriptError + unit) result" where
  "verify_final witness flags hadWitness stack =
     bindR (if flag_set flags SCRIPT_VERIFY_CLEANSTACK then
              bindR (assertR (flag_set flags SCRIPT_VERIFY_P2SH)) (\<lambda>_.
              bindR (assertR (flag_set flags SCRIPT_VERIFY_WITNESS)) (\<lambda>_.
              Inr (if length stack \<noteq> 1 then Inl SCRIPT_ERR_CLEANSTACK else Inr ())))
            else Inr (Inr ()))
       (\<lambda>r. case r of Inl e \<Rightarrow> Inr (Inl e) | Inr _ \<Rightarrow>
         if flag_set flags SCRIPT_VERIFY_WITNESS then
           bindR (assertR (flag_set flags SCRIPT_VERIFY_P2SH)) (\<lambda>_.
           Inr (if \<not> hadWitness \<and> witness \<noteq> [] then Inl SCRIPT_ERR_WITNESS_UNEXPECTED else Inr ()))
         else Inr (Inr ()))"

definition VerifyScript :: "crypto \<Rightarrow> SignatureChecker \<Rightarrow> CScript \<Rightarrow> CScript \<Rightarrow> CScriptWitness option \<Rightarrow> u32 \<Rightarrow>
    (ScriptError + unit) result" where
  "VerifyScript cr checker scriptSig scriptPubKey witness flags =
     (let witness = (case witness of None \<Rightarrow> [] | Some w \<Rightarrow> w) in
      if flag_set flags SCRIPT_VERIFY_SIGPUSHONLY \<and> \<not> IsPushOnly scriptSig then Inr (Inl SCRIPT_ERR_SIG_PUSHONLY)
      else and_then (EvalScript cr checker [] scriptSig flags SIGVERSION_BASE) (\<lambda>stackCopy.
      and_then (EvalScript cr checker stackCopy scriptPubKey flags SIGVERSION_BASE) (\<lambda>stack.
      and_then (check_true stack) (\<lambda>_.
      and_then (verify_witness cr checker witness flags scriptPubKey (scriptSig \<noteq> []) SCRIPT_ERR_WITNESS_MALLEATED stack)
        (\<lambda>(hadWitness, stack).
      and_then (verify_p2sh cr checker witness flags scriptSig scriptPubKey stackCopy hadWitness stack)
        (\<lambda>(hadWitness, stack). verify_final witness flags hadWitness stack))))))"

subsection \<open>Signature operations in witnesses\<close>

definition WitnessSigOps :: "int \<Rightarrow> valtype \<Rightarrow> CScriptWitness \<Rightarrow> u32 result" where
  "WitnessSigOps witversion witprogram witness =
     (if witversion = 0 then
        if length witprogram = 20 then Inr 1
        else if length witprogram = 32 \<and> 0 < length witness then GetSigOpCount (last witness) True
        else Inr 0
      else Inr 0)"

text \<open>
  The loop that collects the last pushed data does not look at the result of \<open>GetOp\<close>; it runs only on
  scripts that \<open>IsPushOnly\<close> accepted, in which every \<open>GetOp\<close> succeeds.
\<close>

function last_data :: "CScript \<Rightarrow> valtype \<Rightarrow> valtype" where
  "last_data pc data = (if pc = [] then data else case GetOp2 pc of (_, _, data', pc') \<Rightarrow>
     if length pc' < length pc then last_data pc' data' else data')"
  by pat_completeness auto
termination by (relation "measure (\<lambda>(pc, _). length pc)") auto

declare last_data.simps [simp del]

definition CountWitnessSigOps :: "CScript \<Rightarrow> CScript \<Rightarrow> CScriptWitness option \<Rightarrow> u32 \<Rightarrow> u32 result" where
  "CountWitnessSigOps scriptSig scriptPubKey witness flags =
     (let w = (case witness of None \<Rightarrow> [] | Some w \<Rightarrow> w) in
      if \<not> flag_set flags SCRIPT_VERIFY_WITNESS then Inr 0
      else bindR (assertR (flag_set flags SCRIPT_VERIFY_P2SH)) (\<lambda>_.
      bindR (IsWitnessProgram scriptPubKey) (\<lambda>p. case p of
        Some (version, program) \<Rightarrow> WitnessSigOps version program w
      | None \<Rightarrow>
          if IsPayToScriptHash scriptPubKey \<and> IsPushOnly scriptSig then
            bindR (IsWitnessProgram (last_data scriptSig [])) (\<lambda>p. case p of
              Some (version, program) \<Rightarrow> WitnessSigOps version program w
            | None \<Rightarrow> Inr 0)
          else Inr 0)))"

subsection \<open>Fewer flags accept more\<close>

text \<open>
  Turning flags off: every flag of \<open>f'\<close> is one of \<open>f\<close>, and when the opcodes reserved for upgrades are
  discouraged, no upgrade of \<open>f\<close> is missing in \<open>f'\<close>.
\<close>

definition fewer_flags :: "u32 \<Rightarrow> u32 \<Rightarrow> bool" where
  "fewer_flags f' f \<longleftrightarrow> f' AND f = f' \<and>
     (flag_set f' SCRIPT_VERIFY_DISCOURAGE_UPGRADABLE_NOPS \<longrightarrow>
        (flag_set f SCRIPT_VERIFY_CHECKLOCKTIMEVERIFY \<longrightarrow> flag_set f' SCRIPT_VERIFY_CHECKLOCKTIMEVERIFY) \<and>
        (flag_set f SCRIPT_VERIFY_CHECKSEQUENCEVERIFY \<longrightarrow> flag_set f' SCRIPT_VERIFY_CHECKSEQUENCEVERIFY))"

lemma flag_set_mono: "fewer_flags f' f \<Longrightarrow> flag_set f' x \<Longrightarrow> flag_set f x"
proof -
  assume "fewer_flags f' f" and x: "flag_set f' x"
  then have "f' AND x = (f' AND f) AND x" by (simp add: fewer_flags_def)
  also have "\<dots> = f' AND (f AND x)" by (simp only: and.assoc)
  finally show "flag_set f x" using x by (auto simp: flag_set_def)
qed

text \<open>
  The order in which the proofs go: the second computation succeeds with the same value wherever the
  first one succeeds.
\<close>

definition laxer :: "'e + 'a \<Rightarrow> 'e + 'a \<Rightarrow> bool" where
  "laxer m' m \<longleftrightarrow> (\<forall>x. m = Inr x \<longrightarrow> m' = Inr x)"

named_theorems lax \<open>rules for the order on computations\<close>

lemma laxerD: "laxer m' m \<Longrightarrow> m = Inr x \<Longrightarrow> m' = Inr x"
  by (simp add: laxer_def)

lemma laxer_refl [lax]: "laxer m m"
  by (simp add: laxer_def)

lemma laxer_bind [lax]: "laxer m' m \<Longrightarrow> (\<And>x. laxer (k' x) (k x)) \<Longrightarrow> laxer (bindR m' k') (bindR m k)"
  by (auto simp: laxer_def bindR_Inr_iff)

lemma laxer_guard [lax]: "(b' \<Longrightarrow> b) \<Longrightarrow> laxer m' m \<Longrightarrow> laxer (if b' then Inl e else m') (if b then Inl e else m)"
  by (auto simp: laxer_def)

lemma laxer_if [lax]:
  "laxer m1' m1 \<Longrightarrow> laxer m2' m2 \<Longrightarrow> laxer (if b then m1' else m2') (if b then m1 else m2)"
  by simp

lemma laxer_list [lax]:
  "laxer n' n \<Longrightarrow> (\<And>x xs. laxer (c' x xs) (c x xs)) \<Longrightarrow>
   laxer (case st of [] \<Rightarrow> n' | x # xs \<Rightarrow> c' x xs) (case st of [] \<Rightarrow> n | x # xs \<Rightarrow> c x xs)"
  by (cases st) simp_all

lemma laxer_prod [lax]: "(\<And>x y. laxer (c' x y) (c x y)) \<Longrightarrow> laxer (case p of (x, y) \<Rightarrow> c' x y) (case p of (x, y) \<Rightarrow> c x y)"
  by (cases p) simp

lemma laxer_on_stack [lax]: "(\<And>st. laxer (g st) (f st)) \<Longrightarrow> laxer (on_stack g s) (on_stack f s)"
  unfolding on_stack_def by (intro lax)

lemma script_num_lax [lax]: "fewer_flags f' f \<Longrightarrow> laxer (script_num f' n v) (script_num f n v)"
  using flag_set_mono by (auto simp: laxer_def script_num_def CScriptNum_vch_def split: if_splits)

lemma CheckSignatureEncoding_lax [lax]:
  assumes le: "fewer_flags f' f"
  shows "laxer (CheckSignatureEncoding cr v f') (CheckSignatureEncoding cr v f)"
  using flag_set_mono [OF le, of "SCRIPT_VERIFY_DERSIG OR SCRIPT_VERIFY_LOW_S OR SCRIPT_VERIFY_STRICTENC"]
    flag_set_mono [OF le, of SCRIPT_VERIFY_LOW_S] flag_set_mono [OF le, of SCRIPT_VERIFY_STRICTENC]
  unfolding CheckSignatureEncoding_def by (auto simp: laxer_def split: if_splits sum.splits)

lemma CheckPubKeyEncoding_lax [lax]:
  "fewer_flags f' f \<Longrightarrow> laxer (CheckPubKeyEncoding v f' sv) (CheckPubKeyEncoding v f sv)"
  using flag_set_mono by (auto simp: laxer_def CheckPubKeyEncoding_def split: if_splits)

lemma upgradable_nop_lax [lax]: "fewer_flags f' f \<Longrightarrow> laxer (op_upgradable_nop f' s) (op_upgradable_nop f s)"
  using flag_set_mono by (auto simp: laxer_def op_upgradable_nop_def split: if_splits)

lemma upgradable_nop_id: "op_upgradable_nop f s = Inr s' \<Longrightarrow> s' = s"
  by (simp add: op_upgradable_nop_def split: if_splits)

lemma cltv_id: "op_checklocktimeverify ck f s = Inr s' \<Longrightarrow> s' = s"
  by (auto simp: op_checklocktimeverify_def bindR_Inr_iff dest: upgradable_nop_id split: if_splits list.splits)

lemma csv_id: "op_checksequenceverify ck f s = Inr s' \<Longrightarrow> s' = s"
  by (auto simp: op_checksequenceverify_def bindR_Inr_iff dest: upgradable_nop_id split: if_splits list.splits)

lemma cltv_lax [lax]:
  assumes le: "fewer_flags f' f"
  shows "laxer (op_checklocktimeverify ck f' s) (op_checklocktimeverify ck f s)"
proof (cases "flag_set f SCRIPT_VERIFY_CHECKLOCKTIMEVERIFY \<and> \<not> flag_set f' SCRIPT_VERIFY_CHECKLOCKTIMEVERIFY")
  case True
  then have "\<not> flag_set f' SCRIPT_VERIFY_DISCOURAGE_UPGRADABLE_NOPS" using le by (auto simp: fewer_flags_def)
  then show ?thesis using True cltv_id [of ck f s]
    by (auto simp: laxer_def op_checklocktimeverify_def [of ck f'] op_upgradable_nop_def)
next
  case False
  then have "flag_set f' SCRIPT_VERIFY_CHECKLOCKTIMEVERIFY = flag_set f SCRIPT_VERIFY_CHECKLOCKTIMEVERIFY"
    using flag_set_mono [OF le] by blast
  then show ?thesis unfolding op_checklocktimeverify_def by (auto intro!: lax le)
qed

lemma csv_lax [lax]:
  assumes le: "fewer_flags f' f"
  shows "laxer (op_checksequenceverify ck f' s) (op_checksequenceverify ck f s)"
proof (cases "flag_set f SCRIPT_VERIFY_CHECKSEQUENCEVERIFY \<and> \<not> flag_set f' SCRIPT_VERIFY_CHECKSEQUENCEVERIFY")
  case True
  then have "\<not> flag_set f' SCRIPT_VERIFY_DISCOURAGE_UPGRADABLE_NOPS" using le by (auto simp: fewer_flags_def)
  then show ?thesis using True csv_id [of ck f s]
    by (auto simp: laxer_def op_checksequenceverify_def [of ck f'] op_upgradable_nop_def)
next
  case False
  then have "flag_set f' SCRIPT_VERIFY_CHECKSEQUENCEVERIFY = flag_set f SCRIPT_VERIFY_CHECKSEQUENCEVERIFY"
    using flag_set_mono [OF le] by blast
  then show ?thesis unfolding op_checksequenceverify_def by (auto intro!: lax le)
qed

lemma op_if_lax [lax]: "fewer_flags f' f \<Longrightarrow> laxer (op_if opcode f' sv fExec s) (op_if opcode f sv fExec s)"
  unfolding op_if_def using flag_set_mono [of f' f SCRIPT_VERIFY_MINIMALIF] by (intro lax) auto

lemma pick_roll_lax [lax]: "fewer_flags f' f \<Longrightarrow> laxer (op_pick_roll opcode f' st) (op_pick_roll opcode f st)"
  unfolding op_pick_roll_def by (intro lax)

lemma unary_lax [lax]: "fewer_flags f' f \<Longrightarrow> laxer (op_unary opcode f' st) (op_unary opcode f st)"
  unfolding op_unary_def by (intro lax)

lemma binary_lax [lax]: "fewer_flags f' f \<Longrightarrow> laxer (op_binary opcode f' st) (op_binary opcode f st)"
  unfolding op_binary_def by (intro lax)

lemma within_lax [lax]: "fewer_flags f' f \<Longrightarrow> laxer (op_within f' st) (op_within f st)"
  unfolding op_within_def by (intro lax)

lemma checksig_lax [lax]:
  "fewer_flags f' f \<Longrightarrow> laxer (op_checksig cr ck opcode f' sv code st) (op_checksig cr ck opcode f sv code st)"
  unfolding op_checksig_def Let_def using flag_set_mono [of f' f SCRIPT_VERIFY_NULLFAIL] by (intro lax) auto

lemma multisig_loop_lax [lax]:
  assumes le: "fewer_flags f' f"
  shows "laxer (multisig_loop cr ck f' sv code sigs keys) (multisig_loop cr ck f sv code sigs keys)"
proof (induction keys arbitrary: sigs)
  case Nil
  show ?case by (cases sigs) (simp_all add: lax)
next
  case (Cons key keys)
  show ?case
  proof (cases sigs)
    case (Cons sig sigs')
    then show ?thesis unfolding Cons multisig_loop.simps Let_def by (intro lax le Cons.IH)
  qed (simp add: lax)
qed

lemma multisig_cleanup_lax [lax]:
  assumes le: "fewer_flags f' f"
  shows "laxer (multisig_cleanup f' b i k st) (multisig_cleanup f b i k st)"
proof (induction i arbitrary: k st)
  case (Suc i)
  show ?case unfolding multisig_cleanup.simps
    using flag_set_mono [OF le, of SCRIPT_VERIFY_NULLFAIL] by (intro lax Suc.IH) auto
qed (simp add: lax)

lemma multisig_finish_lax [lax]:
  "fewer_flags f' f \<Longrightarrow> laxer (multisig_finish opcode f' b st) (multisig_finish opcode f b st)"
  unfolding multisig_finish_def using flag_set_mono [of f' f SCRIPT_VERIFY_NULLDUMMY] by (intro lax) auto

lemma checkmultisig_lax [lax]:
  "fewer_flags f' f \<Longrightarrow> laxer (op_checkmultisig cr ck opcode f' sv s) (op_checkmultisig cr ck opcode f sv s)"
  unfolding op_checkmultisig_def Let_def by (intro lax)

lemma exec_control_lax [lax]:
  "fewer_flags f' f \<Longrightarrow> laxer (exec_control ck opcode f' sv fExec s) (exec_control ck opcode f sv fExec s)"
  unfolding exec_control_def by (intro lax)

lemma exec_stack_lax [lax]: "fewer_flags f' f \<Longrightarrow> laxer (exec_stack opcode f' s) (exec_stack opcode f s)"
  unfolding exec_stack_def by (auto intro!: lax)

lemma exec_numeric_lax [lax]: "fewer_flags f' f \<Longrightarrow> laxer (exec_numeric opcode f' s) (exec_numeric opcode f s)"
  unfolding exec_numeric_def by (auto intro!: lax)

lemma exec_crypto_lax [lax]:
  "fewer_flags f' f \<Longrightarrow> laxer (exec_crypto cr ck opcode f' sv pc s) (exec_crypto cr ck opcode f sv pc s)"
  unfolding exec_crypto_def by (intro lax)

lemma exec_op_lax [lax]:
  "fewer_flags f' f \<Longrightarrow> laxer (exec_op cr ck opcode f' sv fExec pc s) (exec_op cr ck opcode f sv fExec pc s)"
  unfolding exec_op_def by (intro lax)

lemma eval_instr_lax [lax]:
  "fewer_flags f' f \<Longrightarrow> laxer (eval_instr cr ck f' sv pc s) (eval_instr cr ck f sv pc s)"
  unfolding eval_instr_def Let_def using flag_set_mono [of f' f SCRIPT_VERIFY_MINIMALDATA] by (intro lax) auto

lemma eval_loop_lax:
  assumes le: "fewer_flags f' f"
  shows "laxer (eval_loop cr ck f' sv pc s) (eval_loop cr ck f sv pc s)"
proof (induction "length pc" arbitrary: pc s rule: less_induct)
  case less
  have "eval_loop cr ck f' sv pc s = Inr x" if r: "eval_loop cr ck f sv pc s = Inr x" for x
  proof (cases "pc = []")
    case True
    then show ?thesis using r by (simp add: eval_loop.simps)
  next
    case False
    then obtain pc1 s1 where e: "eval_instr cr ck f sv pc s = Inr (pc1, s1)" "eval_loop cr ck f sv pc1 s1 = Inr x"
      using r by (auto simp: eval_loop.simps [of _ _ _ _ pc] bindR_Inr_iff)
    have "eval_instr cr ck f' sv pc s = Inr (pc1, s1)" by (rule laxerD [OF eval_instr_lax [OF le] e(1)])
    moreover have "eval_loop cr ck f' sv pc1 s1 = Inr x"
      by (rule laxerD [OF less.hyps [OF eval_instr_shorter [OF e(1)]] e(2)])
    ultimately show ?thesis using False by (simp add: eval_loop.simps [of _ _ _ _ pc])
  qed
  then show ?case by (simp add: laxer_def)
qed

lemma EvalScript_fewer:
  assumes "fewer_flags f' f" and "EvalScript cr ck st script f sv = Inr (Inr st')"
  shows "EvalScript cr ck st script f' sv = Inr (Inr st')"
proof -
  obtain s where "eval_loop cr ck f sv script (exec_init st script) = Inr s" "vfExec s = []" "st' = stk s"
    and l: "\<not> MAX_SCRIPT_SIZE < length script"
    using assms(2) by (auto simp: EvalScript_def split: if_splits sum.splits script_stop.splits cpp_fault.splits)
  then show ?thesis using laxerD [OF eval_loop_lax [OF assms(1)]] by (simp add: EvalScript_def)
qed


subsubsection \<open>Verification\<close>

definition sensible_flags :: "u32 \<Rightarrow> bool" where
  "sensible_flags f \<longleftrightarrow> (flag_set f SCRIPT_VERIFY_CLEANSTACK \<longrightarrow> flag_set f SCRIPT_VERIFY_WITNESS) \<and>
     (flag_set f SCRIPT_VERIFY_WITNESS \<longrightarrow> flag_set f SCRIPT_VERIFY_P2SH)"

lemma and_then_ok: "and_then m k = Inr (Inr y) \<longleftrightarrow> (\<exists>x. m = Inr (Inr x) \<and> k x = Inr (Inr y))"
  by (auto simp: and_then_def split: sum.splits)

lemma VerifyWitnessProgram_fewer:
  assumes "fewer_flags f' f" and "VerifyWitnessProgram cr ck witness version program f = Inr (Inr ())"
  shows "VerifyWitnessProgram cr ck witness version program f' = Inr (Inr ())"
  using assms(2) EvalScript_fewer [OF assms(1)]
    flag_set_mono [OF assms(1), of SCRIPT_VERIFY_DISCOURAGE_UPGRADABLE_WITNESS_PROGRAM]
  by (auto simp: VerifyWitnessProgram_def and_then_ok split: sum.splits if_splits)

lemma verify_witness_fewer:
  assumes "fewer_flags f' f" and "verify_witness cr ck witness f script mal err st = Inr (Inr (had, st'))"
  shows "flag_set f' SCRIPT_VERIFY_WITNESS \<Longrightarrow> verify_witness cr ck witness f' script mal err st = Inr (Inr (had, st'))"
    and "\<not> flag_set f' SCRIPT_VERIFY_WITNESS \<Longrightarrow> verify_witness cr ck witness f' script mal err st = Inr (Inr (False, st))"
  using assms(2) flag_set_mono [OF assms(1), of SCRIPT_VERIFY_WITNESS] VerifyWitnessProgram_fewer [OF assms(1)]
  by (auto simp: verify_witness_def and_then_ok split: sum.splits option.splits if_splits)

lemma verify_p2sh_fewer:
  assumes "fewer_flags f' f" and "verify_p2sh cr ck witness f ssig spub copy had st = Inr (Inr (had1, st1))"
  shows "flag_set f' SCRIPT_VERIFY_WITNESS \<Longrightarrow> flag_set f' SCRIPT_VERIFY_P2SH \<Longrightarrow>
      verify_p2sh cr ck witness f' ssig spub copy had st = Inr (Inr (had1, st1))"
    and "\<not> flag_set f' SCRIPT_VERIFY_WITNESS \<Longrightarrow> \<exists>r. verify_p2sh cr ck witness f' ssig spub copy had' st' = Inr (Inr r)"
proof -
  have p: "flag_set f' SCRIPT_VERIFY_P2SH \<Longrightarrow> flag_set f SCRIPT_VERIFY_P2SH" by (rule flag_set_mono [OF assms(1)])
  show "verify_p2sh cr ck witness f' ssig spub copy had st = Inr (Inr (had1, st1))"
    if "flag_set f' SCRIPT_VERIFY_WITNESS" "flag_set f' SCRIPT_VERIFY_P2SH"
    using assms(2) p that EvalScript_fewer [OF assms(1)] verify_witness_fewer(1) [OF assms(1) _ that(1)]
    by (fastforce simp: verify_p2sh_def and_then_ok split: if_splits list.splits)
  show "\<exists>r. verify_p2sh cr ck witness f' ssig spub copy had' st' = Inr (Inr r)" if "\<not> flag_set f' SCRIPT_VERIFY_WITNESS"
    using assms(2) p EvalScript_fewer [OF assms(1)] verify_witness_fewer(2) [OF assms(1) _ that]
    by (fastforce simp: verify_p2sh_def and_then_ok split: if_splits list.splits)
qed

text \<open>C6. Turning verification flags off, within two conditions, does not make a valid input invalid: when
  \<open>VerifyScript\<close> accepts with some flags it accepts with any subset of them, provided that the lock-time
  flags are not turned off while \<open>DISCOURAGE_UPGRADABLE_NOPS\<close> stays on (\<open>fewer_flags\<close>), and that the subset
  has \<open>WITNESS\<close> where it has \<open>CLEANSTACK\<close> and \<open>P2SH\<close> where it has \<open>WITNESS\<close>, as the code asserts
  (\<open>sensible_flags\<close>). Without the first the opcode becomes a discouraged one and the input is rejected;
  without the second an assertion fails.\<close>

theorem VerifyScript_soft_fork:
  assumes "fewer_flags f' f" and "sensible_flags f'"
    and "VerifyScript cr checker scriptSig scriptPubKey witness f = Inr (Inr ())"
  shows "VerifyScript cr checker scriptSig scriptPubKey witness f' = Inr (Inr ())"
proof -
  define w where "w = (case witness of None \<Rightarrow> [] | Some w \<Rightarrow> w)"
  note m = flag_set_mono [OF assms(1)]
  obtain copy st had1 st1 had2 st2 where
    po: "\<not> (flag_set f SCRIPT_VERIFY_SIGPUSHONLY \<and> \<not> IsPushOnly scriptSig)"
    and e1: "EvalScript cr checker [] scriptSig f SIGVERSION_BASE = Inr (Inr copy)"
    and e2: "EvalScript cr checker copy scriptPubKey f SIGVERSION_BASE = Inr (Inr st)" and t: "check_true st = Inr (Inr ())"
    and vw: "verify_witness cr checker w f scriptPubKey (scriptSig \<noteq> []) SCRIPT_ERR_WITNESS_MALLEATED st = Inr (Inr (had1, st1))"
    and vp: "verify_p2sh cr checker w f scriptSig scriptPubKey copy had1 st1 = Inr (Inr (had2, st2))"
    and vf: "verify_final w f had2 st2 = Inr (Inr ())"
    using assms(3) unfolding VerifyScript_def w_def [symmetric] Let_def by (auto simp: and_then_ok split: if_splits)
  have po': "\<not> (flag_set f' SCRIPT_VERIFY_SIGPUSHONLY \<and> \<not> IsPushOnly scriptSig)" using po m by blast
  note e = EvalScript_fewer [OF assms(1) e1] EvalScript_fewer [OF assms(1) e2]
  show ?thesis
  proof (cases "flag_set f' SCRIPT_VERIFY_WITNESS")
    case True
    then have p: "flag_set f' SCRIPT_VERIFY_P2SH" using assms(2) by (simp add: sensible_flags_def)
    have "verify_final w f' had2 st2 = Inr (Inr ())"
      using vf True p m [of SCRIPT_VERIFY_CLEANSTACK] m [OF True] m [OF p] by (auto simp: verify_final_def split: if_splits)
    then show ?thesis
      using po' e t verify_witness_fewer(1) [OF assms(1) vw True] verify_p2sh_fewer(1) [OF assms(1) vp True p]
      unfolding VerifyScript_def w_def [symmetric] Let_def by (simp add: and_then_def)
  next
    case False
    then have "\<not> flag_set f' SCRIPT_VERIFY_CLEANSTACK" using assms(2) by (auto simp: sensible_flags_def)
    then have fin: "verify_final w f' h x = Inr (Inr ())" for h x using False by (simp add: verify_final_def)
    obtain h x where "verify_p2sh cr checker w f' scriptSig scriptPubKey copy False st = Inr (Inr (h, x))"
      using verify_p2sh_fewer(2) [OF assms(1) vp False, of False st] by auto
    then show ?thesis using po' e t fin verify_witness_fewer(2) [OF assms(1) vw False]
      unfolding VerifyScript_def w_def [symmetric] Let_def by (simp add: and_then_def)
  qed
qed


definition plain_crypto :: crypto where
  "plain_crypto = \<lparr>RIPEMD160 = take 20, SHA1 = take 20, SHA256 = take 32, CheckLowS = \<lambda>_. True\<rparr>"

theorem VerifyScript_soft_fork_witness:
  "fewer_flags 0x1 0x41 \<and> VerifyScript plain_crypto BaseSignatureChecker [OP_1] [OP_DUP, OP_DROP] None 0x41 = Inr (Inr ()) \<and>
   VerifyScript plain_crypto BaseSignatureChecker [OP_1] [OP_DUP, OP_DROP] None 0x1 = Inr (Inr ())"
proof -
  have a: "fewer_flags 0x1 0x41" "sensible_flags 0x1" by code_simp+
  have b: "VerifyScript plain_crypto BaseSignatureChecker [OP_1] [OP_DUP, OP_DROP] None 0x41 = Inr (Inr ())" by code_simp
  from VerifyScript_soft_fork [OF a b] a(1) b show ?thesis by blast
qed

subsection \<open>Evaluation is safe\<close>

text \<open>
  What the interpreter promises about its state: elements of at most 520 bytes. A computation is safe for a
  property of its results when it ends with such a result, with a script error or with an exception that
  \<open>EvalScript\<close> catches.
\<close>

definition small :: "valtype list \<Rightarrow> bool" where
  "small st \<longleftrightarrow> (\<forall>v\<in>set st. length v \<le> MAX_SCRIPT_ELEMENT_SIZE)"

definition safe :: "('a \<Rightarrow> bool) \<Rightarrow> 'a script_result \<Rightarrow> bool" where
  "safe P m = (case m of Inr x \<Rightarrow> P x | Inl (Error _) \<Rightarrow> True | Inl (Abort (Thrown _)) \<Rightarrow> True | _ \<Rightarrow> False)"

definition hash_sizes :: "crypto \<Rightarrow> bool" where
  "hash_sizes cr \<longleftrightarrow> (\<forall>v. length (RIPEMD160 cr v) \<le> 32 \<and> length (SHA1 cr v) \<le> 32 \<and> length (SHA256 cr v) \<le> 32)"

definition total_checker :: "SignatureChecker \<Rightarrow> bool" where
  "total_checker ck \<longleftrightarrow> (\<forall>sig key code sv. \<exists>b. CheckSig ck sig key code sv = Inr b) \<and>
     (\<forall>n. \<exists>b. CheckLockTime ck n = Inr b) \<and> (\<forall>n. \<exists>b. CheckSequence ck n = Inr b)"

named_theorems safe_rules \<open>rules for safe computations\<close>

lemma small_simps [simp]: "small []" "small (v # st) \<longleftrightarrow> length v \<le> MAX_SCRIPT_ELEMENT_SIZE \<and> small st"
  "small (xs @ ys) \<longleftrightarrow> small xs \<and> small ys"
  by (auto simp: small_def)

lemma small_take_drop [simp]: "small st \<Longrightarrow> small (take n st)" "small st \<Longrightarrow> small (drop n st)"
  by (auto simp: small_def dest: in_set_takeD in_set_dropD)

lemma small_nth: "small st \<Longrightarrow> n < length st \<Longrightarrow> length (st ! n) \<le> MAX_SCRIPT_ELEMENT_SIZE"
  by (simp add: small_def)

lemma safe_simps [simp]: "safe P (Inr x) \<longleftrightarrow> P x" "safe P (Inl (Error e))" "safe P (Inl (Abort (Thrown s)))"
  by (simp_all add: safe_def)

lemma safe_Inl: "safe P (Inl e) = safe Q (Inl e)"
  by (simp add: safe_def)

lemma safe_bind: "safe Q m \<Longrightarrow> (\<And>x. Q x \<Longrightarrow> safe P (k x)) \<Longrightarrow> safe P (bindR m k)"
  by (cases m) (simp_all add: safe_Inl [of P _ Q])

lemma safe_mono: "safe Q m \<Longrightarrow> (\<And>x. Q x \<Longrightarrow> P x) \<Longrightarrow> safe P m"
  by (cases m) (simp_all add: safe_Inl [of P _ Q])

lemma safe_list: "(st = [] \<Longrightarrow> safe P n) \<Longrightarrow> (\<And>x xs. st = x # xs \<Longrightarrow> safe P (c x xs)) \<Longrightarrow>
    safe P (case st of [] \<Rightarrow> n | x # xs \<Rightarrow> c x xs)"
  by (cases st) simp_all

lemma safe_if: "(b \<Longrightarrow> safe P m) \<Longrightarrow> (\<not> b \<Longrightarrow> safe P n) \<Longrightarrow> safe P (if b then m else n)"
  by simp

lemma safe_total: "\<exists>x. m = Inr x \<Longrightarrow> safe (\<lambda>_. True) (liftS m)"
  by auto

lemma safe_script_num:
  assumes "0 < n" and "n \<le> 8"
  shows "safe (\<lambda>x. \<bar>x\<bar> < 2 ^ (8 * n - 1)) (script_num flags n v)"
proof (cases "CScriptNum_vch v (flag_set flags SCRIPT_VERIFY_MINIMALDATA) n")
  case (Inr x)
  then have "length v \<le> n" "x = num_val v" by (auto simp: CScriptNum_vch_eq [OF assms(2)])
  then show ?thesis using Inr num_val_bound [OF _ assms(1)] by (simp add: script_num_def)
next
  case (Inl e)
  then have "\<exists>m. e = Thrown m"
    using assms(2) set_vch_val [of v] by (auto simp: CScriptNum_vch_def split: if_splits)
  then show ?thesis using Inl by (auto simp: script_num_def)
qed

lemma safe_num4: "safe (\<lambda>x. \<bar>x\<bar> < 2147483648) (script_num flags nDefaultMaxNumSize v)"
  using safe_script_num [of 4 flags v] by (simp add: nDefaultMaxNumSize_def)

lemma safe_num5: "safe (\<lambda>x. \<bar>x\<bar> < 549755813888) (script_num flags 5 v)"
  using safe_script_num [of 5 flags v] by simp

lemma safe_getvch: "\<bar>x\<bar> < 9223372036854775808 \<Longrightarrow> safe (\<lambda>v. length v \<le> MAX_SCRIPT_ELEMENT_SIZE) (liftS (getvch x))"
proof -
  assume "\<bar>x\<bar> < 9223372036854775808"
  then have "in_int64 x" "x \<noteq> - 9223372036854775808" by (auto simp: range_simps)
  from serialize_minimal [OF this] show ?thesis by (auto simp: getvch_def MAX_SCRIPT_ELEMENT_SIZE_def)
qed

lemma length_vchBool [simp]: "length (vchBool b) \<le> MAX_SCRIPT_ELEMENT_SIZE"
  by (simp add: vchBool_def vchTrue_def vchFalse_def MAX_SCRIPT_ELEMENT_SIZE_def)

subsubsection \<open>Operations on the stack\<close>

lemmas stack_op_defs = op_verify_def op_2drop_def op_2dup_def op_3dup_def op_2over_def op_2rot_def op_2swap_def
  op_ifdup_def op_drop_def op_dup_def op_nip_def op_over_def op_rot_def op_swap_def op_tuck_def op_equal_def

lemma safe_stack_ops:
  assumes "small st"
  shows "safe small (op_verify st)" "safe small (op_2drop st)" "safe small (op_2dup st)" "safe small (op_3dup st)"
    "safe small (op_2over st)" "safe small (op_2rot st)" "safe small (op_2swap st)" "safe small (op_ifdup st)"
    "safe small (op_drop st)" "safe small (op_dup st)" "safe small (op_nip st)" "safe small (op_over st)"
    "safe small (op_rot st)" "safe small (op_swap st)" "safe small (op_tuck st)" "safe small (op_equal opcode st)"
  using assms unfolding stack_op_defs Let_def by (auto intro!: safe_list safe_if)

lemma safe_push_num: "\<bar>x\<bar> < 9223372036854775808 \<Longrightarrow> small st \<Longrightarrow> safe small (liftS (bindR (getvch x) (\<lambda>v. Inr (v # st))))"
  using safe_getvch [of x] by (cases "getvch x") (auto simp: safe_def split: cpp_fault.splits)

lemma safe_push_small: "opcode \<le> OP_16 \<Longrightarrow> small st \<Longrightarrow> safe small (op_push_small opcode st)"
  unfolding op_push_small_def by (rule safe_push_num) auto

lemma safe_depth: "length st \<le> MAX_STACK_SIZE \<Longrightarrow> small st \<Longrightarrow> safe small (op_depth st)"
  unfolding op_depth_def by (rule safe_push_num) (auto simp: MAX_STACK_SIZE_def)

lemma safe_size: "small st \<Longrightarrow> safe small (op_size st)"
  unfolding op_size_def by (rule safe_list; simp?; rule safe_push_num) (auto simp: MAX_SCRIPT_ELEMENT_SIZE_def)

lemma safe_pick_roll:
  assumes "small st"
  shows "safe small (op_pick_roll opcode flags st)"
proof -
  have "small (tl st)" using assms by (cases st) simp_all
  then show ?thesis unfolding op_pick_roll_def Let_def
    by (intro safe_if safe_bind [OF safe_num4]) (auto simp: small_nth nat_less_iff)
qed

lemma safe_num_unary:
  assumes "\<bar>bn\<bar> < 2147483648"
    and "opcode = OP_1ADD \<or> opcode = OP_1SUB \<or> opcode = OP_NEGATE \<or> opcode = OP_ABS \<or> opcode = OP_NOT \<or> opcode = OP_0NOTEQUAL"
  shows "safe (\<lambda>x. \<bar>x\<bar> < 9223372036854775808) (liftS (num_unary opcode bn))"
  using assms by (auto simp: num_unary_def num_add_assign_def num_sub_assign_def num_neg_def range_simps i64_def)

lemma safe_unary:
  assumes "small st"
    and "opcode = OP_1ADD \<or> opcode = OP_1SUB \<or> opcode = OP_NEGATE \<or> opcode = OP_ABS \<or> opcode = OP_NOT \<or> opcode = OP_0NOTEQUAL"
  shows "safe small (op_unary opcode flags st)"
  unfolding op_unary_def
  by (rule safe_list; simp?; intro safe_bind [OF safe_num4] safe_bind [OF safe_num_unary] safe_bind [OF safe_getvch])
     (use assms in auto)

lemma safe_num_binary:
  assumes "\<bar>bn1\<bar> < 2147483648" and "\<bar>bn2\<bar> < 2147483648"
    and "opcode = OP_ADD \<or> opcode = OP_SUB \<or> (OP_BOOLAND \<le> opcode \<and> opcode \<le> OP_MAX)"
  shows "safe (\<lambda>x. \<bar>x\<bar> < 9223372036854775808) (liftS (num_binary opcode bn1 bn2))"
proof -
  have "opcode \<in> {OP_BOOLAND, OP_BOOLOR, OP_NUMEQUAL, OP_NUMEQUALVERIFY, OP_NUMNOTEQUAL, OP_LESSTHAN}"
    if "OP_BOOLAND \<le> opcode" "opcode \<le> OP_LESSTHAN" using that by auto
  moreover have "opcode \<in> {OP_GREATERTHAN, OP_LESSTHANOREQUAL, OP_GREATERTHANOREQUAL, OP_MIN, OP_MAX}"
    if "\<not> opcode \<le> OP_LESSTHAN" "opcode \<le> OP_MAX" using that by auto
  ultimately have "opcode \<in> {OP_ADD, OP_SUB, OP_BOOLAND, OP_BOOLOR, OP_NUMEQUAL, OP_NUMEQUALVERIFY, OP_NUMNOTEQUAL, OP_LESSTHAN,
      OP_GREATERTHAN, OP_LESSTHANOREQUAL, OP_GREATERTHANOREQUAL, OP_MIN, OP_MAX}" using assms(3) by blast
  then consider "opcode = OP_ADD" | "opcode = OP_SUB" | "opcode \<noteq> OP_ADD" "opcode \<noteq> OP_SUB"
      "\<exists>x. num_binary opcode bn1 bn2 = Inr x \<and> (x = bn1 \<or> x = bn2 \<or> x = 0 \<or> x = 1)"
    by (auto simp: num_binary_def)
  then show ?thesis using assms(1,2)
    by cases (auto simp: num_binary_def num_add_def num_sub_def range_simps i64_def)
qed

lemma safe_binary:
  assumes "small st" and "opcode = OP_ADD \<or> opcode = OP_SUB \<or> (OP_BOOLAND \<le> opcode \<and> opcode \<le> OP_MAX)"
  shows "safe small (op_binary opcode flags st)"
  unfolding op_binary_def
  by (intro safe_list safe_bind [OF safe_num4] safe_bind [OF safe_num_binary] safe_bind [OF safe_getvch] safe_if)
     (use assms in auto)

lemma safe_within: "small st \<Longrightarrow> safe small (op_within flags st)"
  unfolding op_within_def by (intro safe_list safe_bind [OF safe_num4]) auto

lemma safe_hash: "hash_sizes cr \<Longrightarrow> small st \<Longrightarrow> safe small (op_hash cr opcode st)"
  unfolding op_hash_def
  by (intro safe_list) (auto simp: hash_sizes_def CHash160_def CHash256_def MAX_SCRIPT_ELEMENT_SIZE_def intro: order_trans)

lemma safe_sig_encoding: "safe (\<lambda>_. True) (CheckSignatureEncoding cr v flags)"
  by (auto simp: CheckSignatureEncoding_def IsLowDERSignature_def)

lemma safe_key_encoding: "safe (\<lambda>_. True) (CheckPubKeyEncoding v flags sv)"
  by (auto simp: CheckPubKeyEncoding_def)

lemma safe_CheckSig: "total_checker ck \<Longrightarrow> safe (\<lambda>_. True) (liftS (CheckSig ck sig key code sv))"
  by (rule safe_total) (simp add: total_checker_def)

lemma safe_checksig:
  assumes "total_checker ck" and "small st"
  shows "safe small (op_checksig cr ck opcode flags sv code st)"
  unfolding op_checksig_def Let_def
  by (intro safe_list safe_bind [OF safe_sig_encoding] safe_bind [OF safe_key_encoding] safe_bind [OF safe_CheckSig] safe_if)
     (use assms in auto)

lemma safe_multisig_loop:
  assumes "total_checker ck"
  shows "safe (\<lambda>_. True) (multisig_loop cr ck flags sv code sigs keys)"
proof (induction keys arbitrary: sigs)
  case Nil
  then show ?case by (cases sigs) simp_all
next
  case (Cons key keys)
  show ?case
  proof (cases sigs)
    case (Cons sig sigs')
    show ?thesis unfolding Cons multisig_loop.simps Let_def
      by (intro safe_bind [OF safe_sig_encoding] safe_bind [OF safe_key_encoding] safe_bind [OF safe_CheckSig [OF assms]] safe_if)
         (simp_all add: Cons.IH)
  qed simp
qed

lemma safe_multisig_cleanup: "small st \<Longrightarrow> safe small (multisig_cleanup flags b i k st)"
proof (induction i arbitrary: k st)
  case (Suc i)
  then show ?case unfolding multisig_cleanup.simps by (intro safe_list safe_if Suc.IH) auto
qed simp

lemma safe_multisig_finish: "small st \<Longrightarrow> safe small (multisig_finish opcode flags b st)"
  unfolding multisig_finish_def by (intro safe_list safe_if) auto


subsubsection \<open>The state\<close>

definition exec_ok :: "exec \<Rightarrow> bool" where
  "exec_ok s \<longleftrightarrow> small (stk s) \<and> small (altstk s) \<and> length (stk s) + length (altstk s) \<le> MAX_STACK_SIZE \<and>
     0 \<le> nOpCount s \<and> nOpCount s \<le> MAX_OPS_PER_SCRIPT"

text \<open>The state between an operation and the check of the sizes.\<close>

definition exec_pre :: "exec \<Rightarrow> bool" where
  "exec_pre s \<longleftrightarrow> small (stk s) \<and> small (altstk s) \<and> 0 \<le> nOpCount s \<and> nOpCount s \<le> MAX_OPS_PER_SCRIPT"

lemma safe_on_stack: "exec_ok s \<Longrightarrow> safe small (f (stk s)) \<Longrightarrow> safe exec_pre (on_stack f s)"
  unfolding on_stack_def by (rule safe_bind) (simp_all add: exec_ok_def exec_pre_def)

lemma exec_ok_pre: "exec_ok s \<Longrightarrow> exec_pre s"
  by (simp add: exec_ok_def exec_pre_def)

lemma exec_ok_stack: "exec_ok s \<Longrightarrow> small (stk s)" "exec_ok s \<Longrightarrow> length (stk s) \<le> MAX_STACK_SIZE"
  by (simp_all add: exec_ok_def)

lemma safe_checkmultisig:
  assumes "total_checker ck" and "exec_ok s"
  shows "safe exec_pre (op_checkmultisig cr ck opcode flags sv s)"
  unfolding op_checkmultisig_def Let_def
  by (intro safe_if safe_bind [OF safe_num4] safe_bind [OF safe_multisig_loop [OF assms(1)]]
        safe_bind [OF safe_multisig_cleanup] safe_bind [OF safe_multisig_finish])
     (use assms(2) in \<open>auto simp: exec_ok_def exec_pre_def\<close>)

lemma safe_nop: "exec_ok s \<Longrightarrow> safe exec_pre (op_upgradable_nop flags s)"
  by (simp add: op_upgradable_nop_def exec_ok_pre)

lemma safe_cltv: "total_checker ck \<Longrightarrow> exec_ok s \<Longrightarrow> safe exec_pre (op_checklocktimeverify ck flags s)"
  unfolding op_checklocktimeverify_def
  by (intro safe_if safe_nop safe_list safe_bind [OF safe_num5] safe_bind [OF safe_total])
     (auto simp: exec_ok_pre total_checker_def)

lemma safe_csv: "total_checker ck \<Longrightarrow> exec_ok s \<Longrightarrow> safe exec_pre (op_checksequenceverify ck flags s)"
  unfolding op_checksequenceverify_def
  by (intro safe_if safe_nop safe_list safe_bind [OF safe_num5] safe_bind [OF safe_total])
     (auto simp: exec_ok_pre total_checker_def)

lemma safe_conditionals:
  assumes "exec_ok s"
  shows "safe exec_pre (op_if opcode flags sv fExec s)" "safe exec_pre (op_else s)" "safe exec_pre (op_endif s)"
    "safe exec_pre (op_toaltstack s)" "safe exec_pre (op_fromaltstack s)"
  using assms unfolding op_if_def op_else_def op_endif_def op_toaltstack_def op_fromaltstack_def Let_def
  by (auto simp: exec_ok_def exec_pre_def intro!: safe_list safe_if)

lemma safe_exec_control:
  assumes "total_checker ck" and "exec_ok s"
  shows "safe exec_pre (exec_control ck opcode flags sv fExec s)"
  unfolding exec_control_def
  by (intro safe_if safe_cltv safe_csv safe_nop safe_conditionals safe_on_stack safe_stack_ops assms exec_ok_stack)
     (simp_all add: exec_ok_pre [OF assms(2)])

lemma safe_exec_stack:
  assumes "exec_ok s"
  shows "safe exec_pre (exec_stack opcode flags s)"
proof -
  note sm = exec_ok_stack(1) [OF assms]
  have "safe small ((if opcode = OP_2DROP then op_2drop else if opcode = OP_2DUP then op_2dup
         else if opcode = OP_3DUP then op_3dup else if opcode = OP_2OVER then op_2over
         else if opcode = OP_2ROT then op_2rot else if opcode = OP_2SWAP then op_2swap
         else if opcode = OP_IFDUP then op_ifdup else if opcode = OP_DEPTH then op_depth
         else if opcode = OP_DROP then op_drop else if opcode = OP_DUP then op_dup
         else if opcode = OP_NIP then op_nip else if opcode = OP_OVER then op_over
         else if opcode = OP_PICK \<or> opcode = OP_ROLL then op_pick_roll opcode flags
         else if opcode = OP_ROT then op_rot else if opcode = OP_SWAP then op_swap
         else if opcode = OP_TUCK then op_tuck else if opcode = OP_SIZE then op_size
         else (\<lambda>_. Inl (Error SCRIPT_ERR_BAD_OPCODE))) (stk s))"
    using safe_stack_ops [OF sm] safe_depth [OF exec_ok_stack(2) [OF assms] sm] safe_pick_roll [OF sm] safe_size [OF sm] by simp
  then show ?thesis unfolding exec_stack_def
    by (intro safe_if safe_conditionals safe_on_stack assms)
qed

lemma safe_exec_numeric:
  assumes "exec_ok s"
  shows "safe exec_pre (exec_numeric opcode flags s)"
  unfolding exec_numeric_def
  by (rule safe_on_stack [OF assms])
     (use exec_ok_stack(1) [OF assms] safe_unary safe_binary safe_within safe_stack_ops(16) in auto)

lemma safe_exec_crypto:
  assumes "hash_sizes cr" and "total_checker ck" and "exec_ok s"
  shows "safe exec_pre (exec_crypto cr ck opcode flags sv pc s)"
  unfolding exec_crypto_def
  by (intro safe_if safe_on_stack safe_hash safe_checksig safe_checkmultisig assms exec_ok_stack)
     (use assms(3) in \<open>simp_all add: exec_ok_def exec_pre_def\<close>)

lemma safe_exec_op:
  assumes "hash_sizes cr" and "total_checker ck" and "exec_ok s"
  shows "safe exec_pre (exec_op cr ck opcode flags sv fExec pc s)"
  unfolding exec_op_def
  by (intro safe_if safe_exec_control safe_exec_stack safe_exec_numeric safe_exec_crypto safe_on_stack safe_push_small
        assms exec_ok_stack) auto

lemma safe_eval_instr:
  assumes "hash_sizes cr" and "total_checker ck" and "exec_ok s"
  shows "safe (\<lambda>(pc', s'). exec_ok s') (eval_instr cr ck flags sv pc s)"
proof -
  obtain ok opcode v pc' where g: "GetOp2 pc = (ok, opcode, v, pc')" by (metis prod.exhaust)
  have fin: "safe (\<lambda>(pc', s'). exec_ok s')
      (if MAX_STACK_SIZE < length (stk s2) + length (altstk s2) then Inl (Error SCRIPT_ERR_STACK_SIZE) else Inr (pc', s2))"
    if "exec_pre s2" for s2 using that by (simp add: exec_ok_def exec_pre_def)
  show ?thesis unfolding eval_instr_def Let_def g prod.case
  proof (intro safe_if safe_bind [where Q = exec_pre] safe_exec_op fin assms)
    fix b :: bool
    let ?s1 = "if OP_16 < opcode then s\<lparr>nOpCount := nOpCount s + 1\<rparr> else s"
    assume c: "\<not> (OP_16 < opcode \<and> MAX_OPS_PER_SCRIPT < nOpCount ?s1)" and l: "\<not> MAX_SCRIPT_ELEMENT_SIZE < length v"
    have s1: "exec_ok ?s1" using c assms(3) by (auto simp: exec_ok_def)
    show "exec_ok ?s1" by (rule s1)
    show "safe exec_pre (Inr ?s1)" using exec_ok_pre [OF s1] by simp
    show "safe exec_pre (Inr (?s1\<lparr>stk := v # stk ?s1\<rparr>))" using s1 l by (simp add: exec_ok_def exec_pre_def)
  qed (simp_all add: exec_ok_def exec_pre_def)
qed

lemma safe_eval_loop:
  assumes "hash_sizes cr" and "total_checker ck"
  shows "exec_ok s \<Longrightarrow> safe exec_ok (eval_loop cr ck flags sv pc s)"
proof (induction "length pc" arbitrary: pc s rule: less_induct)
  case less
  show ?case
  proof (cases "pc = []")
    case True
    then show ?thesis using less.prems by (simp add: eval_loop.simps)
  next
    case False
    note i = safe_eval_instr [OF assms less.prems, of flags sv pc]
    show ?thesis
    proof (cases "eval_instr cr ck flags sv pc s")
      case (Inl e)
      then show ?thesis using False i safe_Inl [of _ e] by (subst eval_loop.simps) auto
    next
      case (Inr p)
      obtain pc' s' where p: "p = (pc', s')" by (cases p)
      then have "exec_ok s'" "length pc' < length pc" using Inr i eval_instr_shorter by auto
      then show ?thesis using less.hyps False Inr p by (subst eval_loop.simps) simp
    qed
  qed
qed

text \<open>C13. Evaluation of a script never trips an assertion and never overflows: for every script and flags, hash
  functions with results of at most 32 bytes, a checker that answers, and a stack within the limits,
  \<open>EvalScript\<close> returns, and when it succeeds the resulting stack is within the limits again: at most 1000
  elements of at most 520 bytes.\<close>

theorem EvalScript_returns_within_limits:
  assumes "hash_sizes cr" and "total_checker checker" and "small stack" and "length stack \<le> MAX_STACK_SIZE"
  shows "\<exists>r. EvalScript cr checker stack script flags sigversion = Inr r \<and>
    (\<forall>stack'. r = Inr stack' \<longrightarrow> small stack' \<and> length stack' \<le> MAX_STACK_SIZE)"
proof -
  have "exec_ok (exec_init stack script)" using assms(3,4) by (simp add: exec_ok_def exec_init_def MAX_OPS_PER_SCRIPT_def)
  note sl = safe_eval_loop [OF assms(1,2) this, of flags sigversion script]
  show ?thesis
  proof (cases "eval_loop cr checker flags sigversion script (exec_init stack script)")
    case (Inl e)
    then have "\<exists>err. e = Error err \<or> (\<exists>m. e = Abort (Thrown m))"
      using sl by (auto simp: safe_def split: script_stop.splits cpp_fault.splits)
    then show ?thesis using Inl by (auto simp: EvalScript_def)
  next
    case (Inr s)
    then show ?thesis using sl by (auto simp: EvalScript_def exec_ok_def)
  qed
qed


theorem EvalScript_returns_within_limits_witness:
  "\<exists>r. EvalScript plain_crypto BaseSignatureChecker [[7]] [OP_SHA256, OP_SIZE] 0 SIGVERSION_BASE = Inr r \<and>
    (\<forall>stack'. r = Inr stack' \<longrightarrow> small stack' \<and> length stack' \<le> MAX_STACK_SIZE)"
  by (rule EvalScript_returns_within_limits)
     (auto simp: hash_sizes_def plain_crypto_def total_checker_def BaseSignatureChecker_def
        MAX_SCRIPT_ELEMENT_SIZE_def MAX_STACK_SIZE_def)

subsection \<open>Multisignatures\<close>

text \<open>
  The specification of a successful multisignature check: the signatures are valid, in order, for some of
  the keys, in order.
\<close>

definition sigs_match :: "(valtype \<Rightarrow> valtype \<Rightarrow> bool) \<Rightarrow> valtype list \<Rightarrow> valtype list \<Rightarrow> bool" where
  "sigs_match valid sigs keys \<longleftrightarrow> (\<exists>ks. subseq ks keys \<and> list_all2 valid sigs ks)"

lemma sigs_match_Nil [simp]: "sigs_match valid [] keys"
  by (auto simp: sigs_match_def)

lemma sigs_match_length: "sigs_match valid sigs keys \<Longrightarrow> length sigs \<le> length keys"
  by (auto simp: sigs_match_def dest!: list_all2_lengthD list_emb_length)

lemma sigs_match_drop_key: "sigs_match valid sigs keys \<Longrightarrow> sigs_match valid sigs (k # keys)"
  by (auto simp: sigs_match_def)

lemma sigs_match_Cons:
  "sigs_match valid (s # sigs) (k # keys) \<longleftrightarrow>
     (if valid s k then sigs_match valid sigs keys else sigs_match valid (s # sigs) keys)"
proof
  assume "sigs_match valid (s # sigs) (k # keys)"
  then obtain k1 ks where ks: "subseq (k1 # ks) (k # keys)" "valid s k1" "list_all2 valid sigs ks"
    by (auto simp: sigs_match_def list_all2_Cons1)
  show "if valid s k then sigs_match valid sigs keys else sigs_match valid (s # sigs) keys"
  proof (cases "k1 = k")
    case True
    then have "subseq ks keys" using ks(1) by (auto simp: subseq_Cons2_iff)
    then show ?thesis using True ks(2,3) by (auto simp: sigs_match_def)
  next
    case False
    then have sub: "subseq (k1 # ks) keys" using ks(1) by (auto simp: subseq_Cons2_iff)
    then have "subseq ks keys" by (rule subseq_Cons')
    then show ?thesis using sub ks(2,3) by (auto simp: sigs_match_def)
  qed
next
  assume "if valid s k then sigs_match valid sigs keys else sigs_match valid (s # sigs) keys"
  then consider "valid s k" "sigs_match valid sigs keys" | "sigs_match valid (s # sigs) keys" by (auto split: if_splits)
  then show "sigs_match valid (s # sigs) (k # keys)"
  proof cases
    case 1
    then obtain ks where "subseq ks keys" "list_all2 valid sigs ks" by (auto simp: sigs_match_def)
    then have "subseq (k # ks) (k # keys)" "list_all2 valid (s # sigs) (k # ks)" using 1(1) by simp_all
    then show ?thesis unfolding sigs_match_def by blast
  qed (rule sigs_match_drop_key)
qed

text \<open>C9. \<open>OP_CHECKMULTISIG\<close> gives up early and never returns to a key, yet it decides the specification: for
  encodings the flags admit, its loop succeeds exactly when the signatures are valid in order for a
  subsequence of the keys.\<close>

theorem multisig_loop_matches:
  assumes "\<And>sig key. CheckSig checker sig key scriptCode sigversion = Inr (valid sig key)"
    and "\<forall>sig\<in>set sigs. CheckSignatureEncoding cr sig flags = Inr ()"
    and "\<forall>key\<in>set keys. CheckPubKeyEncoding key flags sigversion = Inr ()"
  shows "multisig_loop cr checker flags sigversion scriptCode sigs keys = Inr (sigs_match valid sigs keys)"
  using assms(2,3)
proof (induction keys arbitrary: sigs)
  case Nil
  then show ?case using sigs_match_length [of valid sigs "[]"] by (cases sigs) auto
next
  case (Cons key keys)
  show ?case
  proof (cases sigs)
    case (Cons sig sigs')
    let ?next = "if valid sig key then sigs' else sigs"
    have "sigs_match valid sigs (key # keys) = sigs_match valid ?next keys" using Cons by (simp add: sigs_match_Cons)
    moreover have "multisig_loop cr checker flags sigversion scriptCode ?next keys = Inr (sigs_match valid ?next keys)"
      using Cons Cons.prems by (intro Cons.IH) auto
    moreover have "length keys < length ?next \<Longrightarrow> \<not> sigs_match valid ?next keys"
      using sigs_match_length [of valid ?next keys] by auto
    ultimately show ?thesis using Cons Cons.prems assms(1) by (auto simp: Let_def)
  qed simp
qed

theorem multisig_loop_matches_witness:
  "multisig_loop plain_crypto (BaseSignatureChecker\<lparr>CheckSig := \<lambda>sig key _ _. Inr (sig = key)\<rparr>) 0 SIGVERSION_BASE []
     [[1], [3]] [[1], [2], [3]] = Inr (sigs_match (=) [[1], [3]] [[1], [2], [3]])"
  by (rule multisig_loop_matches)
     (simp_all add: CheckSignatureEncoding_def CheckPubKeyEncoding_def flag_set_def)

subsection \<open>Paying to a public key hash and to a script hash\<close>

definition p2pkh_script :: "valtype \<Rightarrow> CScript" where
  "p2pkh_script h = [OP_DUP, OP_HASH160] @ push_data [] h @ [OP_EQUALVERIFY, OP_CHECKSIG]"

lemma p2pkh_script_template: "length h = 20 \<Longrightarrow> IsPayToPublicKeyHash (p2pkh_script h)"
  by (simp add: IsPayToPublicKeyHash_def p2pkh_script_def push_data_def nth_append)

lemma eval_loop_step:
  "pc \<noteq> [] \<Longrightarrow> eval_loop cr ck flags sv pc s =
     bindR (eval_instr cr ck flags sv pc s) (\<lambda>(pc', s'). eval_loop cr ck flags sv pc' s')"
  by (subst eval_loop.simps) simp

lemma eval_loop_Nil [simp]: "eval_loop cr ck flags sv [] s = Inr s"
  by (simp add: eval_loop.simps)

text \<open>Running one operation, or one push of up to 75 bytes, outside of conditionals.\<close>

definition within_limits :: "exec \<Rightarrow> exec script_result" where
  "within_limits s = (if MAX_STACK_SIZE < length (stk s) + length (altstk s) then Inl (Error SCRIPT_ERR_STACK_SIZE) else Inr s)"

lemma run_op:
  assumes "vfExec s = []" and "OP_16 < unat b" and "unat b \<noteq> OP_RVH_ASSET" and "\<not> disabled_opcode (unat b)"
    and "nOpCount s < MAX_OPS_PER_SCRIPT"
  shows "eval_loop cr ck flags sv (b # pc) s =
    bindR (bindR (exec_op cr ck (unat b) flags sv True pc (s\<lparr>nOpCount := nOpCount s + 1\<rparr>)) within_limits)
      (eval_loop cr ck flags sv pc)"
proof -
  have "GetOp2 (b # pc) = (True, unat b, [], pc)" using assms by (intro GetOp2_op) simp_all
  then have "eval_instr cr ck flags sv (b # pc) s =
      bindR (bindR (exec_op cr ck (unat b) flags sv True pc (s\<lparr>nOpCount := nOpCount s + 1\<rparr>)) within_limits) (\<lambda>s2. Inr (pc, s2))"
    using assms unfolding eval_instr_def within_limits_def
    by (cases "exec_op cr ck (unat b) flags sv True pc (s\<lparr>nOpCount := nOpCount s + 1\<rparr>)") (simp_all add: Let_def)
  then show ?thesis by (subst eval_loop_step) (simp_all add: bindR_assoc)
qed

lemma run_push:
  assumes "vfExec s = []" and "length d < OP_PUSHDATA1"
    and "flag_set flags SCRIPT_VERIFY_MINIMALDATA \<Longrightarrow> CheckMinimalPush d (length d)"
  shows "eval_loop cr ck flags sv (push_data [] d @ pc) s =
    bindR (within_limits (s\<lparr>stk := d # stk s\<rparr>)) (eval_loop cr ck flags sv pc)"
proof -
  have p: "push_data [] d @ pc = of_nat (length d) # d @ pc" using assms(2) by (simp add: push_data_def)
  have "eval_instr cr ck flags sv (of_nat (length d) # d @ pc) s =
      bindR (within_limits (s\<lparr>stk := d # stk s\<rparr>)) (\<lambda>s2. Inr (pc, s2))"
    using assms GetOp2_small [of d pc] unfolding eval_instr_def within_limits_def
    by (auto simp: Let_def disabled_opcode_def MAX_SCRIPT_ELEMENT_SIZE_def)
  then show ?thesis unfolding p by (subst eval_loop_step) (simp_all add: bindR_assoc)
qed

lemma minimal_push_ok: "2 \<le> length d \<Longrightarrow> length d < OP_PUSHDATA1 \<Longrightarrow> CheckMinimalPush d (length d)"
  by (simp add: CheckMinimalPush_def)

lemma checksig_result:
  "op_checksig cr ck OP_CHECKSIG flags sv code (pubkey # sig # st) = Inr st' \<Longrightarrow> \<exists>b. st' = vchBool b # st"
  by (auto simp: op_checksig_def bindR_Inr_iff Let_def split: if_splits)

lemma eval_p2pkh:
  assumes "length h = 20" and "length st \<le> 900"
  shows "EvalScript cr ck (pubkey # sig # st) (p2pkh_script h) flags sv =
    (if CHash160 cr pubkey \<noteq> h then Inr (Inl SCRIPT_ERR_EQUALVERIFY)
     else case op_checksig cr ck OP_CHECKSIG flags sv (p2pkh_script h) (pubkey # sig # st) of
       Inl (Error e) \<Rightarrow> Inr (Inl e)
     | Inl (Abort (Thrown _)) \<Rightarrow> Inr (Inl SCRIPT_ERR_UNKNOWN_ERROR)
     | Inl (Abort e) \<Rightarrow> Inl e
     | Inr st' \<Rightarrow> Inr (Inr st'))"
proof -
  have m: "CheckMinimalPush h (length h)" using assms(1) by (intro minimal_push_ok) simp_all
  let ?run = "eval_loop cr ck flags sv"
  let ?s = "\<lambda>st n. \<lparr>stk = st, altstk = [], vfExec = [], nOpCount = n, codehash = p2pkh_script h\<rparr>"
  have "?run (p2pkh_script h) (?s (pubkey # sig # st) 0) =
      ?run (OP_HASH160 # push_data [] h @ [OP_EQUALVERIFY, OP_CHECKSIG]) (?s (pubkey # pubkey # sig # st) 1)"
    using assms(2) by (simp add: p2pkh_script_def [of h] run_op disabled_opcode_def MAX_OPS_PER_SCRIPT_def exec_op_def exec_stack_def
        on_stack_def op_dup_def within_limits_def MAX_STACK_SIZE_def)
  also have "\<dots> = ?run (push_data [] h @ [OP_EQUALVERIFY, OP_CHECKSIG]) (?s (CHash160 cr pubkey # pubkey # sig # st) 2)"
    using assms(2) by (simp add: run_op disabled_opcode_def MAX_OPS_PER_SCRIPT_def exec_op_def exec_crypto_def
        on_stack_def op_hash_def within_limits_def MAX_STACK_SIZE_def)
  also have "\<dots> = ?run [OP_EQUALVERIFY, OP_CHECKSIG] (?s (h # CHash160 cr pubkey # pubkey # sig # st) 2)"
    using assms m by (simp add: run_push within_limits_def MAX_STACK_SIZE_def)
  also have "\<dots> = (if CHash160 cr pubkey \<noteq> h then Inl (Error SCRIPT_ERR_EQUALVERIFY)
      else ?run [OP_CHECKSIG] (?s (pubkey # sig # st) 3))"
    using assms(2) by (simp add: run_op disabled_opcode_def MAX_OPS_PER_SCRIPT_def exec_op_def exec_numeric_def
        on_stack_def op_equal_def within_limits_def MAX_STACK_SIZE_def)
  also have "?run [OP_CHECKSIG] (?s (pubkey # sig # st) 3) =
      bindR (op_checksig cr ck OP_CHECKSIG flags sv (p2pkh_script h) (pubkey # sig # st)) (\<lambda>st'. within_limits (?s st' 4))"
    by (simp add: run_op disabled_opcode_def MAX_OPS_PER_SCRIPT_def exec_op_def exec_crypto_def on_stack_def bindR_assoc)
       (simp add: bindR_def split: sum.split)
  finally have run: "?run (p2pkh_script h) (exec_init (pubkey # sig # st) (p2pkh_script h)) =
      (if CHash160 cr pubkey \<noteq> h then Inl (Error SCRIPT_ERR_EQUALVERIFY)
       else bindR (op_checksig cr ck OP_CHECKSIG flags sv (p2pkh_script h) (pubkey # sig # st)) (\<lambda>st'. within_limits (?s st' 4)))"
    by (simp add: exec_init_def)
  have l: "\<not> MAX_SCRIPT_SIZE < length (p2pkh_script h)"
    using assms(1) by (simp add: p2pkh_script_def push_data_def MAX_SCRIPT_SIZE_def)
  have "length st' \<le> 901" if "op_checksig cr ck OP_CHECKSIG flags sv (p2pkh_script h) (pubkey # sig # st) = Inr st'" for st'
    using checksig_result [OF that] assms(2) by auto
  then show ?thesis unfolding EvalScript_def run using l
    by (cases "op_checksig cr ck OP_CHECKSIG flags sv (p2pkh_script h) (pubkey # sig # st)")
       (auto simp: within_limits_def MAX_STACK_SIZE_def)
qed

lemma eval_two_pushes:
  assumes "2 \<le> length a" "length a < OP_PUSHDATA1" "2 \<le> length b" "length b < OP_PUSHDATA1"
  shows "EvalScript cr ck [] (push_data (push_data [] a) b) flags sv = Inr (Inr [b, a])"
    and "IsPushOnly (push_data (push_data [] a) b)"
proof -
  have p: "push_data (push_data [] a) b = push_data [] a @ push_data [] b" by (rule push_data_append)
  have m: "CheckMinimalPush a (length a)" "CheckMinimalPush b (length b)" using assms by (auto intro!: minimal_push_ok)
  have "\<not> MAX_SCRIPT_SIZE < length (push_data [] a @ push_data [] b)"
    using assms by (simp add: push_data_def MAX_SCRIPT_SIZE_def)
  then show "EvalScript cr ck [] (push_data (push_data [] a) b) flags sv = Inr (Inr [b, a])"
    unfolding EvalScript_def p using assms m run_push [of _ b flags cr ck sv "[]"]
    by (simp add: run_push exec_init_def within_limits_def MAX_STACK_SIZE_def)
  have "push_data [] a @ push_data [] b = of_nat (length a) # a @ of_nat (length b) # b @ []"
    using assms by (simp add: push_data_def)
  then show "IsPushOnly (push_data (push_data [] a) b)"
    unfolding p using assms GetOp2_small [of a] GetOp2_small [of b "[]"]
    by (simp add: IsPushOnly.simps)
qed

lemma checksig_true:
  "op_checksig cr ck OP_CHECKSIG flags sv code (pubkey # sig # st) = Inr (vchTrue # st) \<longleftrightarrow>
     CheckSignatureEncoding cr sig flags = Inr () \<and> CheckPubKeyEncoding pubkey flags sv = Inr () \<and>
     CheckSig ck sig pubkey (drop_sig sv sig code) sv = Inr True"
  by (auto simp: op_checksig_def bindR_Inr_iff Let_def vchBool_def vchTrue_def vchFalse_def split: if_splits)

lemma CastToBool_vchBool [simp]: "CastToBool (vchBool b) = b"
  by (simp add: vchBool_def vchTrue_def vchFalse_def)

lemma check_true_iff: "check_true st = Inr (Inr ()) \<longleftrightarrow> st \<noteq> [] \<and> CastToBool (hd st)"
  by (cases st) (auto simp: check_true_def)

lemma p2pkh_not_special:
  assumes "length h = 20"
  shows "IsWitnessProgram (p2pkh_script h) = Inr None" and "\<not> IsPayToScriptHash (p2pkh_script h)"
proof -
  have "length (p2pkh_script h) = 25" "p2pkh_script h ! 0 = OP_DUP" using assms by (simp_all add: p2pkh_script_def push_data_def)
  then show "IsWitnessProgram (p2pkh_script h) = Inr None" "\<not> IsPayToScriptHash (p2pkh_script h)"
    by (simp_all add: IsWitnessProgram_def IsPayToScriptHash_def)
qed

text \<open>C14. Spending an output that pays to a public key hash: with an input script that pushes a signature and
  a public key, \<open>VerifyScript\<close> accepts exactly when the key hashes to the value in the output, the flags
  admit the encodings of signature and key, and the signature is valid for the key.\<close>

theorem VerifyScript_p2pkh:
  assumes "length h = 20" and "2 \<le> length sig" and "length sig < 76" and "2 \<le> length pubkey" and "length pubkey < 76"
    and "sensible_flags flags"
  shows "VerifyScript cr checker (push_data (push_data [] sig) pubkey) (p2pkh_script h) None flags = Inr (Inr ()) \<longleftrightarrow>
    CHash160 cr pubkey = h \<and> CheckSignatureEncoding cr sig flags = Inr () \<and>
    CheckPubKeyEncoding pubkey flags SIGVERSION_BASE = Inr () \<and>
    CheckSig checker sig pubkey (drop_sig SIGVERSION_BASE sig (p2pkh_script h)) SIGVERSION_BASE = Inr True"
proof -
  let ?cs = "op_checksig cr checker OP_CHECKSIG flags SIGVERSION_BASE (p2pkh_script h) [pubkey, sig]"
  note two = eval_two_pushes [OF assms(2) _ assms(4)] and ns = p2pkh_not_special [OF assms(1)]
  have "VerifyScript cr checker (push_data (push_data [] sig) pubkey) (p2pkh_script h) None flags = Inr (Inr ()) \<longleftrightarrow>
      (\<exists>st. EvalScript cr checker [pubkey, sig] (p2pkh_script h) flags SIGVERSION_BASE = Inr (Inr st) \<and>
        check_true st = Inr (Inr ()) \<and> verify_final [] flags False st = Inr (Inr ()))"
    unfolding VerifyScript_def Let_def using two assms(3,5) ns
    by (auto simp: and_then_ok verify_witness_def verify_p2sh_def)
  also have "\<dots> \<longleftrightarrow> CHash160 cr pubkey = h \<and> (\<exists>st. ?cs = Inr st \<and> check_true st = Inr (Inr ()) \<and>
      verify_final [] flags False st = Inr (Inr ()))"
    using eval_p2pkh [OF assms(1), of "[]" cr checker pubkey sig flags SIGVERSION_BASE]
    by (auto split: sum.splits script_stop.splits cpp_fault.splits)
  also have "\<dots> \<longleftrightarrow> CHash160 cr pubkey = h \<and> ?cs = Inr [vchTrue]"
  proof -
    have "check_true st = Inr (Inr ()) \<and> verify_final [] flags False st = Inr (Inr ()) \<longleftrightarrow> st = [vchTrue]" if cs: "?cs = Inr st" for st
    proof -
      obtain b where "st = [vchBool b]" using checksig_result [OF cs] by auto
      then show ?thesis using assms(6)
        by (cases b) (auto simp: check_true_def verify_final_def sensible_flags_def vchBool_def vchTrue_def vchFalse_def)
    qed
    then show ?thesis by auto
  qed
  finally show ?thesis by (simp only: checksig_true)
qed

theorem VerifyScript_p2pkh_witness:
  "VerifyScript plain_crypto BaseSignatureChecker (push_data (push_data [] (replicate 9 1)) (replicate 33 2))
      (p2pkh_script (replicate 20 2)) None 0x1 = Inr (Inr ()) \<longleftrightarrow>
    CHash160 plain_crypto (replicate 33 2) = replicate 20 2 \<and> CheckSignatureEncoding plain_crypto (replicate 9 1) 0x1 = Inr () \<and>
    CheckPubKeyEncoding (replicate 33 2) 0x1 SIGVERSION_BASE = Inr () \<and>
    CheckSig BaseSignatureChecker (replicate 9 1) (replicate 33 2)
      (drop_sig SIGVERSION_BASE (replicate 9 1) (p2pkh_script (replicate 20 2))) SIGVERSION_BASE = Inr True"
  by (rule VerifyScript_p2pkh) (simp_all, code_simp)

definition p2sh_script :: "valtype \<Rightarrow> CScript" where
  "p2sh_script h = [OP_HASH160] @ push_data [] h @ [OP_EQUAL]"

lemma p2sh_script_iff: "IsPayToScriptHash s \<longleftrightarrow> (\<exists>h. length h = 20 \<and> s = p2sh_script h)"
  by (auto simp: IsPayToScriptHash_iff p2sh_script_def push_data_def)

lemma eval_p2sh:
  assumes "length h = 20" and "EvalScript cr ck st (p2sh_script h) flags sv = Inr (Inr st')" and "st' \<noteq> []" and "CastToBool (hd st')"
  shows "\<exists>r rest. st = r # rest \<and> CHash160 cr r = h"
proof -
  have m: "CheckMinimalPush h (length h)" using assms(1) by (intro minimal_push_ok) simp_all
  have l: "\<not> MAX_SCRIPT_SIZE < length (p2sh_script h)"
    using assms(1) by (simp add: p2sh_script_def push_data_def MAX_SCRIPT_SIZE_def)
  obtain s' where r: "eval_loop cr ck flags sv (p2sh_script h) (exec_init st (p2sh_script h)) = Inr s'" "st' = stk s'"
    using assms(2) l by (auto simp: EvalScript_def split: sum.splits script_stop.splits cpp_fault.splits if_splits)
  show ?thesis
  proof (cases st)
    case Nil
    then show ?thesis using r(1) by (simp add: p2sh_script_def run_op exec_init_def disabled_opcode_def MAX_OPS_PER_SCRIPT_def
          exec_op_def exec_crypto_def on_stack_def op_hash_def)
  next
    case (Cons v rest)
    have "stk s' = vchBool (CHash160 cr v = h) # rest"
      using r(1) Cons assms(1) m by (auto simp: p2sh_script_def run_op run_push exec_init_def disabled_opcode_def MAX_OPS_PER_SCRIPT_def
          exec_op_def exec_crypto_def exec_numeric_def on_stack_def op_hash_def op_equal_def within_limits_def bindR_Inr_iff split: if_splits)
    then show ?thesis using Cons r(2) assms(4) by auto
  qed
qed

text \<open>C15. Spending an output that pays to a script hash needs the script: when \<open>VerifyScript\<close> with the P2SH flag
  accepts an input for such an output, the input script only pushes data, the last element it pushes hashes
  to the value in the output, and that element, evaluated as a script on the elements below it, ends with
  true on top of the stack.\<close>

theorem VerifyScript_p2sh:
  assumes "IsPayToScriptHash scriptPubKey" and "flag_set flags SCRIPT_VERIFY_P2SH"
    and "VerifyScript cr checker scriptSig scriptPubKey witness flags = Inr (Inr ())"
  shows "IsPushOnly scriptSig \<and> (\<exists>redeem rest stack'.
    EvalScript cr checker [] scriptSig flags SIGVERSION_BASE = Inr (Inr (redeem # rest)) \<and>
    scriptPubKey = p2sh_script (CHash160 cr redeem) \<and>
    EvalScript cr checker rest redeem flags SIGVERSION_BASE = Inr (Inr stack') \<and> stack' \<noteq> [] \<and> CastToBool (hd stack'))"
proof -
  obtain h where h: "length h = 20" "scriptPubKey = p2sh_script h" using assms(1) p2sh_script_iff by blast
  obtain copy st w had1 st1 had2 st2 where
    e: "EvalScript cr checker [] scriptSig flags SIGVERSION_BASE = Inr (Inr copy)"
      "EvalScript cr checker copy scriptPubKey flags SIGVERSION_BASE = Inr (Inr st)" "check_true st = Inr (Inr ())"
    and vp: "verify_p2sh cr checker w flags scriptSig scriptPubKey copy had1 st1 = Inr (Inr (had2, st2))"
    using assms(3) unfolding VerifyScript_def Let_def by (auto simp: and_then_ok split: if_splits)
  obtain redeem rest where r: "copy = redeem # rest" "CHash160 cr redeem = h"
    using eval_p2sh [OF h(1) e(2) [unfolded h(2)]] e(3) check_true_iff by blast
  then obtain st3 where "IsPushOnly scriptSig" "EvalScript cr checker rest redeem flags SIGVERSION_BASE = Inr (Inr st3)"
    "check_true st3 = Inr (Inr ())"
    using vp assms(1,2) by (auto simp: verify_p2sh_def and_then_ok split: if_splits)
  then show ?thesis using e(1) r h(2) by (auto simp: check_true_iff)
qed

theorem VerifyScript_p2sh_witness:
  "VerifyScript plain_crypto BaseSignatureChecker (push_data [] (replicate 20 OP_1)) (p2sh_script (replicate 20 OP_1)) None 0x1 = Inr (Inr ()) \<and>
   IsPushOnly (push_data [] (replicate 20 OP_1)) \<and> (\<exists>redeem rest stack'.
    EvalScript plain_crypto BaseSignatureChecker [] (push_data [] (replicate 20 OP_1)) 0x1 SIGVERSION_BASE = Inr (Inr (redeem # rest)) \<and>
    p2sh_script (replicate 20 OP_1) = p2sh_script (CHash160 plain_crypto redeem) \<and>
    EvalScript plain_crypto BaseSignatureChecker rest redeem 0x1 SIGVERSION_BASE = Inr (Inr stack') \<and> stack' \<noteq> [] \<and> CastToBool (hd stack'))"
proof -
  have a: "IsPayToScriptHash (p2sh_script (replicate 20 OP_1))" "flag_set 0x1 SCRIPT_VERIFY_P2SH" by code_simp+
  have b: "VerifyScript plain_crypto BaseSignatureChecker (push_data [] (replicate 20 OP_1)) (p2sh_script (replicate 20 OP_1)) None 0x1 =
      Inr (Inr ())" by code_simp
  from VerifyScript_p2sh [OF a b] b show ?thesis by blast
qed

end
