(* ===== verification/Transaction.thy ===== *)
theory Transaction
  imports Amount Interpreter
begin

text \<open>
  Transactions: \<open>src/src/primitives/transaction.{h,cpp}\<close>. Outpoints, inputs, outputs and transactions
  as records, their serialisation with and without witness data, the hash that identifies a
  transaction and the sum of its outputs. The formats of the parts are instances of the \<open>codec\<close>
  contract of Serialize; the whole transaction is read back as it was written whenever its
  version is not negative.
\<close>

subsection \<open>Signed fields\<close>

text \<open>A signed integer of \<open>k\<close> bytes is written as its residue modulo \<open>2 ^ (8 k)\<close>.\<close>

definition in_signed :: "nat \<Rightarrow> int \<Rightarrow> bool" where
  "in_signed w x \<longleftrightarrow> - (2 ^ (w - 1)) \<le> x \<and> x < 2 ^ (w - 1)"

definition signed_of :: "nat \<Rightarrow> int \<Rightarrow> int" where
  "signed_of w x = (let r = x mod 2 ^ w in if r < 2 ^ (w - 1) then r else r - 2 ^ w)"

definition Serialize_signed :: "nat \<Rightarrow> int \<Rightarrow> bytes" where
  "Serialize_signed k x = ser_writedata k (nat (x mod 2 ^ (8 * k)))"

definition Unserialize_signed :: "nat \<Rightarrow> int reader" where
  "Unserialize_signed k s =
     bindR (ser_readdata k s) (\<lambda>(x, s). Inr (signed_of (8 * k) (int x), s))"

definition Serialize_u32 :: "u32 \<Rightarrow> bytes" where
  "Serialize_u32 x = ser_writedata 4 (unat x)"

definition Unserialize_u32 :: "u32 reader" where
  "Unserialize_u32 s = bindR (ser_readdata 4 s) (\<lambda>(x, s). Inr (of_nat x, s))"

subsection \<open>Records\<close>

record COutPoint =
  prev_hash :: uint256
  prev_n :: u32

record CTxIn =
  prevout :: COutPoint
  scriptSig :: CScript
  nSequence :: u32
  scriptWitness :: CScriptWitness

record CTxOut =
  nValue :: CAmount
  scriptPubKey :: CScript
  nRounds :: int

record CTransaction =
  tx_nVersion :: int
  nType :: int
  vin :: "CTxIn list"
  vout :: "CTxOut list"
  nLockTime :: u32
  vExtraPayload :: bytes

definition SEQUENCE_FINAL :: u32 where "SEQUENCE_FINAL = 0xffffffff"
definition SEQUENCE_LOCKTIME_DISABLE_FLAG :: u32 where "SEQUENCE_LOCKTIME_DISABLE_FLAG = push_bit 31 1"
definition SEQUENCE_LOCKTIME_TYPE_FLAG :: u32 where "SEQUENCE_LOCKTIME_TYPE_FLAG = push_bit 22 1"
definition SEQUENCE_LOCKTIME_MASK :: u32 where "SEQUENCE_LOCKTIME_MASK = 0x0000ffff"
definition SEQUENCE_LOCKTIME_GRANULARITY :: nat where "SEQUENCE_LOCKTIME_GRANULARITY = 9"
definition SERIALIZE_TRANSACTION_NO_WITNESS :: int where "SERIALIZE_TRANSACTION_NO_WITNESS = 0x40000000"
definition TRANSACTION_NORMAL :: int where "TRANSACTION_NORMAL = 0"
definition TRANSACTION_QUORUM_COMMITMENT :: int where "TRANSACTION_QUORUM_COMMITMENT = 6"

definition COutPoint_null :: COutPoint where
  "COutPoint_null = \<lparr>prev_hash = uint256_null, prev_n = - 1\<rparr>"

definition COutPoint_IsNull :: "COutPoint \<Rightarrow> bool" where
  "COutPoint_IsNull out \<longleftrightarrow> prev_hash out = uint256_null \<and> prev_n out = - 1"

definition CTxOut_null :: CTxOut where
  "CTxOut_null = \<lparr>nValue = - 1, scriptPubKey = [], nRounds = - 10\<rparr>"

definition CTxOut_IsNull :: "CTxOut \<Rightarrow> bool" where
  "CTxOut_IsNull out \<longleftrightarrow> nValue out = - 1"

definition CMutableTransaction_new :: CTransaction where
  "CMutableTransaction_new =
     \<lparr>tx_nVersion = 2, nType = TRANSACTION_NORMAL, vin = [], vout = [], nLockTime = 0, vExtraPayload = []\<rparr>"

definition CTransaction_IsNull :: "CTransaction \<Rightarrow> bool" where
  "CTransaction_IsNull tx \<longleftrightarrow> vin tx = [] \<and> vout tx = []"

definition IsCoinBase :: "CTransaction \<Rightarrow> bool" where
  "IsCoinBase tx \<longleftrightarrow> length (vin tx) = 1 \<and> COutPoint_IsNull (prevout (vin tx ! 0))"

definition HasWitness :: "CTransaction \<Rightarrow> bool" where
  "HasWitness tx \<longleftrightarrow> list_ex (\<lambda>txin. scriptWitness txin \<noteq> []) (vin tx)"

subsection \<open>Serialisation\<close>

definition Serialize_COutPoint :: "COutPoint \<Rightarrow> bytes" where
  "Serialize_COutPoint out = prev_hash out @ Serialize_u32 (prev_n out)"

definition Unserialize_COutPoint :: "COutPoint reader" where
  "Unserialize_COutPoint s =
     bindR (ser_read 32 s) (\<lambda>(h, s). bindR (Unserialize_u32 s) (\<lambda>(i, s).
       Inr (\<lparr>prev_hash = h, prev_n = i\<rparr>, s)))"

definition Serialize_CTxIn :: "CTxIn \<Rightarrow> bytes" where
  "Serialize_CTxIn txin =
     Serialize_COutPoint (prevout txin) @ Serialize_blob (scriptSig txin) @ Serialize_u32 (nSequence txin)"

definition Unserialize_CTxIn :: "CTxIn reader" where
  "Unserialize_CTxIn s =
     bindR (Unserialize_COutPoint s) (\<lambda>(out, s). bindR (Unserialize_blob s) (\<lambda>(script, s).
     bindR (Unserialize_u32 s) (\<lambda>(sequence, s).
       Inr (\<lparr>prevout = out, scriptSig = script, nSequence = sequence, scriptWitness = []\<rparr>, s))))"

definition Serialize_CTxOut :: "CTxOut \<Rightarrow> bytes" where
  "Serialize_CTxOut txout = Serialize_signed 8 (nValue txout) @ Serialize_blob (scriptPubKey txout)"

definition Unserialize_CTxOut :: "CTxOut reader" where
  "Unserialize_CTxOut s =
     bindR (Unserialize_signed 8 s) (\<lambda>(v, s). bindR (Unserialize_blob s) (\<lambda>(script, s).
       Inr (CTxOut_null\<lparr>nValue := v, scriptPubKey := script\<rparr>, s)))"

definition fAllowWitness :: "int \<Rightarrow> bool" where
  "fAllowWitness nVer \<longleftrightarrow> nVer AND SERIALIZE_TRANSACTION_NO_WITNESS = 0"

definition n32bitVersion :: "CTransaction \<Rightarrow> int" where
  "n32bitVersion tx = tx_nVersion tx OR push_bit 16 (nType tx)"

definition SerializeTransaction :: "int \<Rightarrow> CTransaction \<Rightarrow> bytes" where
  "SerializeTransaction nVer tx =
     (let flags = (if fAllowWitness nVer \<and> HasWitness tx then 1 else 0 :: byte) in
      Serialize_signed 4 (n32bitVersion tx) @
      (if flags \<noteq> 0 then Serialize_vec Serialize_CTxIn [] @ [flags] else []) @
      Serialize_vec Serialize_CTxIn (vin tx) @
      Serialize_vec Serialize_CTxOut (vout tx) @
      (if flags AND 1 \<noteq> 0
       then concat (map (\<lambda>txin. Serialize_vec Serialize_blob (scriptWitness txin)) (vin tx)) else []) @
      Serialize_u32 (nLockTime tx) @
      (if tx_nVersion tx = 3 \<and> nType tx \<noteq> TRANSACTION_NORMAL then Serialize_blob (vExtraPayload tx) else []))"

fun read_witnesses :: "CTxIn list \<Rightarrow> CTxIn list reader" where
  "read_witnesses [] s = Inr ([], s)"
| "read_witnesses (txin # txins) s =
     bindR (Unserialize_vec Unserialize_blob s) (\<lambda>(w, s). bindR (read_witnesses txins s) (\<lambda>(r, s).
       Inr (txin\<lparr>scriptWitness := w\<rparr> # r, s)))"

definition read_ins_outs :: "bool \<Rightarrow> (byte \<times> CTxIn list \<times> CTxOut list) reader" where
  "read_ins_outs fAllow s =
     bindR (Unserialize_vec Unserialize_CTxIn s) (\<lambda>(ins, s).
     if ins = [] \<and> fAllow then
       bindR (ser_read 1 s) (\<lambda>(b, s).
         let flags = hd b in
         if flags \<noteq> 0 then
           bindR (Unserialize_vec Unserialize_CTxIn s) (\<lambda>(ins, s).
           bindR (Unserialize_vec Unserialize_CTxOut s) (\<lambda>(outs, s). Inr ((flags, ins, outs), s)))
         else Inr ((flags, [], []), s))
     else bindR (Unserialize_vec Unserialize_CTxOut s) (\<lambda>(outs, s). Inr ((0, ins, outs), s)))"

text \<open>\<open>tx\<close> is the object that is read into; \<open>vExtraPayload\<close> keeps its old value when the
  transaction read is not a special one.\<close>

definition UnserializeTransaction :: "int \<Rightarrow> CTransaction \<Rightarrow> CTransaction reader" where
  "UnserializeTransaction nVer tx s =
     bindR (Unserialize_signed 4 s) (\<lambda>(n32, s).
     let nVersion = signed_of 16 (n32 AND 0xffff);
         nType = signed_of 16 (drop_bit 16 n32 AND 0xffff) in
     bindR (read_ins_outs (fAllowWitness nVer) s) (\<lambda>((flags, ins, outs), s).
     bindR (if flags AND 1 \<noteq> 0 \<and> fAllowWitness nVer
            then bindR (read_witnesses ins s) (\<lambda>(ins, s). Inr (flags XOR 1, ins, s))
            else Inr (flags, ins, s)) (\<lambda>(flags, ins, s).
     if flags \<noteq> 0 then Inl (Thrown ''Unknown transaction optional data'')
     else bindR (Unserialize_u32 s) (\<lambda>(locktime, s).
       let tx = tx\<lparr>tx_nVersion := nVersion, nType := nType, vin := ins, vout := outs, nLockTime := locktime\<rparr> in
       if nVersion = 3 \<and> nType \<noteq> TRANSACTION_NORMAL
       then bindR (Unserialize_blob s) (\<lambda>(payload, s). Inr (tx\<lparr>vExtraPayload := payload\<rparr>, s))
       else Inr (tx, s)))))"

definition GetHash :: "crypto \<Rightarrow> CTransaction \<Rightarrow> uint256" where
  "GetHash cr tx = CHash256 cr (SerializeTransaction SERIALIZE_TRANSACTION_NO_WITNESS tx)"

definition GetWitnessHash :: "crypto \<Rightarrow> CTransaction \<Rightarrow> uint256" where
  "GetWitnessHash cr tx = (if \<not> HasWitness tx then GetHash cr tx else CHash256 cr (SerializeTransaction 0 tx))"

fun sum_values :: "CTxOut list \<Rightarrow> CAmount \<Rightarrow> CAmount result" where
  "sum_values [] nValueOut = Inr nValueOut"
| "sum_values (txout # outs) nValueOut =
     bindR (i64 (nValueOut + nValue txout)) (\<lambda>nValueOut.
       if \<not> MoneyRange (nValue txout) \<or> \<not> MoneyRange nValueOut
       then Inl (Thrown ''GetValueOut: value out of range'')
       else sum_values outs nValueOut)"

definition GetValueOut :: "CTransaction \<Rightarrow> CAmount result" where
  "GetValueOut tx = sum_values (vout tx) 0"

text \<open>The order of inputs and outputs that BIP 69 asks for; hashes are compared from their last byte.\<close>

definition CompareInputBIP69 :: "CTxIn \<Rightarrow> CTxIn \<Rightarrow> bool" where
  "CompareInputBIP69 a b =
     (let pa = prevout a; pb = prevout b in
      if prev_hash pa = prev_hash pb then prev_n pa < prev_n pb
      else ord_class.lexordp (rev (prev_hash pa)) (rev (prev_hash pb)))"

fun prevector_loop :: "bytes \<Rightarrow> bytes \<Rightarrow> bool" where
  "prevector_loop (x # b1) (y # b2) = (if x < y then True else if y < x then False else prevector_loop b1 b2)"
| "prevector_loop _ _ = False"

definition prevector_less :: "bytes \<Rightarrow> bytes \<Rightarrow> bool" where
  "prevector_less a b =
     (if length a < length b then True else if length a > length b then False else prevector_loop a b)"

definition CompareOutputBIP69 :: "CTxOut \<Rightarrow> CTxOut \<Rightarrow> bool" where
  "CompareOutputBIP69 a b \<longleftrightarrow>
     nValue a < nValue b \<or> (nValue a = nValue b \<and> prevector_less (scriptPubKey a) (scriptPubKey b))"

subsection \<open>The formats of the parts\<close>

lemma signed_of_range: "0 < w \<Longrightarrow> in_signed w (signed_of w x)"
proof -
  assume "0 < w"
  then have p: "(2 :: int) ^ w = 2 * 2 ^ (w - 1)" by (cases w) simp_all
  define r where "r = x mod 2 ^ w"
  have "0 \<le> r" "r < 2 ^ w" "(0 :: int) < 2 ^ (w - 1)" by (simp_all add: r_def)
  then show ?thesis unfolding in_signed_def signed_of_def Let_def r_def [symmetric] using p by auto
qed

lemma signed_of_mod: "signed_of w (x mod 2 ^ w) = signed_of w x"
  by (simp add: signed_of_def)

lemma signed_of_id: "in_signed w x \<Longrightarrow> 0 < w \<Longrightarrow> signed_of w x = x"
proof -
  assume r: "in_signed w x" and "0 < w"
  then have p: "(2 :: int) ^ w = 2 * 2 ^ (w - 1)" by (cases w) simp_all
  show ?thesis
  proof (cases "x < 0")
    case True
    then have "x mod 2 ^ w = x + 2 ^ w"
      using r p mod_pos_pos_trivial [of "x + 2 ^ w" "2 ^ w"] unfolding in_signed_def by simp
    then show ?thesis using r p True unfolding in_signed_def signed_of_def Let_def by auto
  next
    case False
    then have "x mod 2 ^ w = x" using r p unfolding in_signed_def by (intro mod_pos_pos_trivial) auto
    then show ?thesis using r unfolding in_signed_def signed_of_def Let_def by auto
  qed
qed

lemma signed_of_residue: "signed_of w x mod 2 ^ w = x mod 2 ^ w"
  by (simp add: signed_of_def Let_def mod_diff_left_eq)

lemma pow_bytes: "(2 :: nat) ^ (8 * k) = 256 ^ k"
  by (simp add: power_mult)

lemma ser_readdata_iff:
  "ser_readdata k s = Inr (x, t) \<longleftrightarrow> x < 256 ^ k \<and> s = ser_writedata k x @ t"
proof
  assume "ser_readdata k s = Inr (x, t)"
  then obtain b where "length b = k" "s = b @ t" "x = le_val b"
    by (auto simp: ser_readdata_def bindR_Inr_iff ser_read_iff)
  then show "x < 256 ^ k \<and> s = ser_writedata k x @ t"
    using le_val_less [of b] le_bytes_val [of b] by (simp add: ser_writedata_def)
next
  assume "x < 256 ^ k \<and> s = ser_writedata k x @ t"
  then show "ser_readdata k s = Inr (x, t)"
    by (simp add: ser_readdata_def ser_writedata_def le_val_bytes)
qed

lemma signed_codec:
  assumes "0 < k"
  shows "canonical_codec (Serialize_signed k) (Unserialize_signed k) (in_signed (8 * k))"
proof
  have p: "int (256 ^ k) = 2 ^ (8 * k)" by (simp add: power_mult)
  have nn: "int (nat (x mod 2 ^ (8 * k))) = x mod 2 ^ (8 * k)" for x :: int by simp
  show "Unserialize_signed k (Serialize_signed k x @ s) = Inr (x, s)" if "in_signed (8 * k) x" for x s
  proof -
    have "nat (x mod 2 ^ (8 * k)) < 256 ^ k"
      using p pos_mod_bound [of "2 ^ (8 * k)" x] by (simp add: nat_less_iff)
    then have "ser_readdata k (Serialize_signed k x @ s) = Inr (nat (x mod 2 ^ (8 * k)), s)"
      by (simp add: ser_readdata_iff Serialize_signed_def)
    with that assms show ?thesis
      by (simp add: Unserialize_signed_def nn signed_of_mod signed_of_id)
  qed
  show "in_signed (8 * k) x \<and> s = Serialize_signed k x @ t"
    if "Unserialize_signed k s = Inr (x, t)" for s x t
  proof -
    from that obtain u where u: "ser_readdata k s = Inr (u, t)" "x = signed_of (8 * k) (int u)"
      by (auto simp: Unserialize_signed_def bindR_Inr_iff)
    then have "u < 256 ^ k" "s = ser_writedata k u @ t" by (simp_all add: ser_readdata_iff)
    moreover from this have "int u mod 2 ^ (8 * k) = int u" using p by (intro mod_pos_pos_trivial) linarith+
    ultimately show ?thesis using u(2) assms
      by (simp add: signed_of_range Serialize_signed_def signed_of_residue)
  qed
qed

interpretation int32: canonical_codec "Serialize_signed 4" "Unserialize_signed 4" "in_signed 32"
  using signed_codec [of 4] by simp

interpretation int64: canonical_codec "Serialize_signed 8" "Unserialize_signed 8" "in_signed 64"
  using signed_codec [of 8] by simp

interpretation uint32: canonical_codec Serialize_u32 Unserialize_u32 "\<lambda>_. True"
proof
  have u: "unat (of_nat n :: u32) = n" if "n < 4294967296" for n
    using that by (simp add: unat_of_nat)
  show "Unserialize_u32 (Serialize_u32 x @ s) = Inr (x, s)" if True for x s
  proof -
    have "unat x < 256 ^ 4" using unsigned_less [of x] by simp
    then have "ser_readdata 4 (Serialize_u32 x @ s) = Inr (unat x, s)"
      by (simp only: ser_readdata_iff Serialize_u32_def)
    then show ?thesis by (simp add: Unserialize_u32_def)
  qed
  show "True \<and> s = Serialize_u32 x @ t" if "Unserialize_u32 s = Inr (x, t)" for s x t
    using that by (auto simp: Unserialize_u32_def bindR_Inr_iff ser_readdata_iff Serialize_u32_def u)
qed

definition wf_outpoint :: "COutPoint \<Rightarrow> bool" where
  "wf_outpoint out \<longleftrightarrow> length (prev_hash out) = 32"

definition wf_txin :: "CTxIn \<Rightarrow> bool" where
  "wf_txin txin \<longleftrightarrow> wf_outpoint (prevout txin) \<and> length (scriptSig txin) \<le> MAX_SIZE"

definition wf_txout :: "CTxOut \<Rightarrow> bool" where
  "wf_txout txout \<longleftrightarrow>
     in_signed 64 (nValue txout) \<and> length (scriptPubKey txout) \<le> MAX_SIZE \<and> nRounds txout = - 10"

interpretation outpoint: canonical_codec Serialize_COutPoint Unserialize_COutPoint wf_outpoint
proof
  show "Unserialize_COutPoint (Serialize_COutPoint x @ s) = Inr (x, s)" if "wf_outpoint x" for x s
    using that by (simp add: Unserialize_COutPoint_def Serialize_COutPoint_def wf_outpoint_def uint32.dec_enc)
  show "wf_outpoint x \<and> s = Serialize_COutPoint x @ t" if "Unserialize_COutPoint s = Inr (x, t)" for s x t
    using that by (auto simp: Unserialize_COutPoint_def Serialize_COutPoint_def wf_outpoint_def
        uint32.dec_iff ser_read_iff bindR_Inr_iff)
qed

interpretation txin: canonical_codec Serialize_CTxIn Unserialize_CTxIn "\<lambda>x. wf_txin x \<and> scriptWitness x = []"
proof
  show "Unserialize_CTxIn (Serialize_CTxIn x @ s) = Inr (x, s)" if "wf_txin x \<and> scriptWitness x = []" for x s
    using that by (simp add: Unserialize_CTxIn_def Serialize_CTxIn_def wf_txin_def uint32.dec_enc
        outpoint.dec_enc blob.dec_enc)
  show "(wf_txin x \<and> scriptWitness x = []) \<and> s = Serialize_CTxIn x @ t" if "Unserialize_CTxIn s = Inr (x, t)" for s x t
    using that by (auto simp: Unserialize_CTxIn_def Serialize_CTxIn_def wf_txin_def
        uint32.dec_iff outpoint.dec_iff blob.dec_iff bindR_Inr_iff)
qed

interpretation txout: canonical_codec Serialize_CTxOut Unserialize_CTxOut wf_txout
proof
  show "Unserialize_CTxOut (Serialize_CTxOut x @ s) = Inr (x, s)" if "wf_txout x" for x s
    using that by (simp add: Unserialize_CTxOut_def Serialize_CTxOut_def wf_txout_def int64.dec_enc
        blob.dec_enc CTxOut_null_def)
  show "wf_txout x \<and> s = Serialize_CTxOut x @ t" if "Unserialize_CTxOut s = Inr (x, t)" for s x t
    using that by (auto simp: Unserialize_CTxOut_def Serialize_CTxOut_def wf_txout_def
        int64.dec_iff blob.dec_iff bindR_Inr_iff CTxOut_null_def)
qed

interpretation txins: canonical_codec "Serialize_vec Serialize_CTxIn" "Unserialize_vec Unserialize_CTxIn"
  "\<lambda>v. length v \<le> MAX_SIZE \<and> (\<forall>x \<in> set v. wf_txin x \<and> scriptWitness x = [])"
  by (rule txin.vec_canonical)

interpretation txouts: canonical_codec "Serialize_vec Serialize_CTxOut" "Unserialize_vec Unserialize_CTxOut"
  "\<lambda>v. length v \<le> MAX_SIZE \<and> (\<forall>x \<in> set v. wf_txout x)"
  by (rule txout.vec_canonical)

interpretation blobs: canonical_codec "Serialize_vec Serialize_blob" "Unserialize_vec Unserialize_blob"
  "\<lambda>v. length v \<le> MAX_SIZE \<and> (\<forall>x \<in> set v. length x \<le> MAX_SIZE)"
  by (rule blob.vec_canonical)

subsection \<open>Whole transactions\<close>

definition special_tx :: "CTransaction \<Rightarrow> bool" where
  "special_tx tx \<longleftrightarrow> tx_nVersion tx = 3 \<and> nType tx \<noteq> TRANSACTION_NORMAL"

definition wf_tx :: "CTransaction \<Rightarrow> bool" where
  "wf_tx tx \<longleftrightarrow> in_signed 16 (tx_nVersion tx) \<and> in_signed 16 (nType tx) \<and>
     length (vin tx) \<le> MAX_SIZE \<and> (\<forall>x \<in> set (vin tx). wf_txin x \<and>
       length (scriptWitness x) \<le> MAX_SIZE \<and> (\<forall>w \<in> set (scriptWitness x). length w \<le> MAX_SIZE)) \<and>
     length (vout tx) \<le> MAX_SIZE \<and> (\<forall>x \<in> set (vout tx). wf_txout x) \<and>
     length (vExtraPayload tx) \<le> MAX_SIZE"

definition strip_witness :: "CTxIn \<Rightarrow> CTxIn" where
  "strip_witness txin = txin\<lparr>scriptWitness := []\<rparr>"

definition as_stored :: "int \<Rightarrow> CTransaction \<Rightarrow> CTransaction \<Rightarrow> CTransaction" where
  "as_stored nVer old tx = tx\<lparr>
     vin := if fAllowWitness nVer then vin tx else map strip_witness (vin tx),
     vExtraPayload := if special_tx tx then vExtraPayload tx else vExtraPayload old\<rparr>"

lemma n32_parts:
  assumes "in_signed 16 v" and "in_signed 16 t" and "0 \<le> v"
  shows "in_signed 32 (v OR push_bit 16 t)"
    and "signed_of 16 ((v OR push_bit 16 t) AND 0xffff) = v"
    and "signed_of 16 (drop_bit 16 (v OR push_bit 16 t) AND 0xffff) = t"
proof -
  have m: "(0xffff :: int) = mask 16" by (simp add: mask_eq_exp_minus_1)
  have v: "0 \<le> v" "v < 2 ^ 15" using assms by (simp_all add: in_signed_def)
  have disj: "v AND push_bit 16 t = 0"
  proof (rule bit_eqI)
    fix n
    have "\<not> bit v n" if "16 \<le> n"
    proof -
      have "take_bit 16 v = v" using v by (simp add: take_bit_int_eq_self)
      then show ?thesis using that by (metis bit_take_bit_iff not_le)
    qed
    then show "bit (v AND push_bit 16 t) n = bit 0 n" by (auto simp: bit_and_iff bit_push_bit_iff)
  qed
  have sum: "v OR push_bit 16 t = v + 2 ^ 16 * t"
    using disjunctive_add [of v "push_bit 16 t"] disj by (simp add: push_bit_eq_mult bit_eq_iff bit_and_iff ac_simps)
  show "in_signed 32 (v OR push_bit 16 t)"
    using assms unfolding sum by (simp add: in_signed_def)
  have "(v + 2 ^ 16 * t) mod 2 ^ 16 = v" using v by simp
  then show "signed_of 16 ((v OR push_bit 16 t) AND 0xffff) = v"
    using assms(1) signed_of_id [of 16 v] unfolding sum m by (simp add: take_bit_eq_mask [symmetric] take_bit_eq_mod)
  have "(v + 2 ^ 16 * t) div 2 ^ 16 = t" using v by simp
  then show "signed_of 16 (drop_bit 16 (v OR push_bit 16 t) AND 0xffff) = t"
    using assms(2) signed_of_id [of 16 t] signed_of_mod [of 16 t]
    unfolding sum m by (simp add: take_bit_eq_mask [symmetric] take_bit_eq_mod drop_bit_eq_div)
qed

lemma n32_negative:
  assumes "in_signed 16 v" and "v < 0"
  shows "v OR push_bit 16 t = v"
proof (rule bit_eqI)
  fix n
  have "bit v n" if "16 \<le> n"
  proof -
    have "v div 2 ^ n = - 1"
    proof (rule int_div_pos_eq [of _ _ _ "v + 2 ^ n"])
      have "(2 :: int) ^ 15 \<le> 2 ^ n" using that by (intro power_increasing) simp_all
      then show "v = 2 ^ n * - 1 + (v + 2 ^ n)" "0 \<le> v + 2 ^ n" "v + 2 ^ n < 2 ^ n"
        using assms by (simp_all add: in_signed_def)
    qed
    then show ?thesis by (simp add: bit_iff_odd)
  qed
  then show "bit (v OR push_bit 16 t) n = bit v n" by (auto simp: bit_or_iff bit_push_bit_iff)
qed

lemma strip_simps [simp]:
  "Serialize_CTxIn (strip_witness x) = Serialize_CTxIn x"
  "wf_txin (strip_witness x) = wf_txin x"
  "scriptWitness (strip_witness x) = []"
  "(strip_witness x)\<lparr>scriptWitness := w\<rparr> = x\<lparr>scriptWitness := w\<rparr>"
  by (simp_all add: strip_witness_def Serialize_CTxIn_def wf_txin_def)

lemma strip_unwitnessed: "scriptWitness x = [] \<Longrightarrow> strip_witness x = x"
  by (simp add: strip_witness_def)

lemma Serialize_vec_strip [simp]:
  "Serialize_vec Serialize_CTxIn (map strip_witness v) = Serialize_vec Serialize_CTxIn v"
  by (simp add: Serialize_vec_def comp_def)

lemma read_witnesses_write:
  assumes "\<forall>x \<in> set v. length (scriptWitness x) \<le> MAX_SIZE \<and> (\<forall>w \<in> set (scriptWitness x). length w \<le> MAX_SIZE)"
  shows "read_witnesses (map strip_witness v)
           (concat (map (\<lambda>x. Serialize_vec Serialize_blob (scriptWitness x)) v) @ s) = Inr (v, s)"
  using assms by (induction v) (simp_all add: blobs.dec_enc)

lemma txins_read:
  assumes "length v \<le> MAX_SIZE" and "\<forall>x \<in> set v. wf_txin x"
  shows "Unserialize_vec Unserialize_CTxIn (Serialize_vec Serialize_CTxIn v @ s) = Inr (map strip_witness v, s)"
  using txins.dec_enc [of "map strip_witness v" s] assms by simp

lemma not_HasWitness: "\<not> HasWitness tx \<Longrightarrow> map strip_witness (vin tx) = vin tx"
  by (auto simp: HasWitness_def list_ex_iff strip_unwitnessed intro!: map_idI)

definition tx_tail :: "CTransaction \<Rightarrow> bytes" where
  "tx_tail tx = Serialize_u32 (nLockTime tx) @ (if special_tx tx then Serialize_blob (vExtraPayload tx) else [])"

lemma SerializeTransaction_plain:
  assumes "\<not> (fAllowWitness nVer \<and> HasWitness tx)"
  shows "SerializeTransaction nVer tx =
    Serialize_signed 4 (n32bitVersion tx) @ Serialize_vec Serialize_CTxIn (vin tx) @
    Serialize_vec Serialize_CTxOut (vout tx) @ tx_tail tx"
  using assms by (auto simp: SerializeTransaction_def tx_tail_def special_tx_def)

lemma SerializeTransaction_extended:
  assumes "fAllowWitness nVer" and "HasWitness tx"
  shows "SerializeTransaction nVer tx =
    Serialize_signed 4 (n32bitVersion tx) @ Serialize_vec Serialize_CTxIn [] @ [1] @
    Serialize_vec Serialize_CTxIn (vin tx) @ Serialize_vec Serialize_CTxOut (vout tx) @
    concat (map (\<lambda>txin. Serialize_vec Serialize_blob (scriptWitness txin)) (vin tx)) @ tx_tail tx"
  using assms by (simp add: SerializeTransaction_def tx_tail_def special_tx_def)

lemma read_ins_outs_plain:
  assumes "wf_tx tx" and "fAllow \<Longrightarrow> vin tx \<noteq> []"
  shows "read_ins_outs fAllow (Serialize_vec Serialize_CTxIn (vin tx) @ Serialize_vec Serialize_CTxOut (vout tx) @ s) =
    Inr ((0, map strip_witness (vin tx), vout tx), s)"
  using assms by (cases fAllow) (simp_all add: read_ins_outs_def wf_tx_def txins_read txouts.dec_enc)

lemma read_ins_outs_extended:
  assumes "wf_tx tx"
  shows "read_ins_outs True (Serialize_vec Serialize_CTxIn [] @ [1] @ Serialize_vec Serialize_CTxIn (vin tx) @
      Serialize_vec Serialize_CTxOut (vout tx) @ s) =
    Inr ((1, map strip_witness (vin tx), vout tx), s)"
proof -
  have "ser_read 1 ([1] @ s) = Inr ([1], s)" for s by (rule ser_read_append) simp
  then show ?thesis using assms
    by (simp add: read_ins_outs_def wf_tx_def txins_read [of "[]"] txins_read [of "vin tx"] txouts.dec_enc del: append_Cons)
qed

lemma tx_restored:
  "(old :: CTransaction)\<lparr>tx_nVersion := tx_nVersion tx, nType := nType tx, vin := v, vout := vout tx, nLockTime := nLockTime tx\<rparr> =
   tx\<lparr>vin := v, vExtraPayload := vExtraPayload old\<rparr>"
  by (cases tx, cases old) simp

lemma transaction_read_back:
  assumes wf: "wf_tx tx" and pos: "0 \<le> tx_nVersion tx" and ins: "fAllowWitness nVer \<Longrightarrow> vin tx \<noteq> []"
  shows "UnserializeTransaction nVer old (SerializeTransaction nVer tx @ s) = Inr (as_stored nVer old tx, s)"
proof -
  note n32 = n32_parts [of "tx_nVersion tx" "nType tx", folded n32bitVersion_def]
  have n: "in_signed 32 (n32bitVersion tx)" "signed_of 16 (n32bitVersion tx AND 0xffff) = tx_nVersion tx"
    "signed_of 16 (drop_bit 16 (n32bitVersion tx) AND 0xffff) = nType tx"
    using wf pos n32 by (simp_all add: wf_tx_def)
  have payload: "length (vExtraPayload tx) \<le> MAX_SIZE" using wf by (simp add: wf_tx_def)
  show ?thesis
  proof (cases "fAllowWitness nVer \<and> HasWitness tx")
    case True
    have w: "read_witnesses (map strip_witness (vin tx))
        (concat (map (\<lambda>x. Serialize_vec Serialize_blob (scriptWitness x)) (vin tx)) @ s') = Inr (vin tx, s')" for s'
      using wf by (intro read_witnesses_write) (simp add: wf_tx_def)
    show ?thesis
      using True payload
      by (simp add: UnserializeTransaction_def SerializeTransaction_extended int32.dec_enc n
          read_ins_outs_extended [OF wf, simplified] w tx_tail_def uint32.dec_enc blob.dec_enc as_stored_def special_tx_def Let_def tx_restored)
  next
    case False
    then have "map strip_witness (vin tx) = (if fAllowWitness nVer then vin tx else map strip_witness (vin tx))"
      using not_HasWitness by auto
    then show ?thesis
      using payload
      by (simp add: UnserializeTransaction_def SerializeTransaction_plain [OF False] int32.dec_enc n
          read_ins_outs_plain [OF wf ins] tx_tail_def uint32.dec_enc blob.dec_enc as_stored_def special_tx_def Let_def tx_restored)
  qed
qed

text \<open>C11. Every transaction with a non-negative version, and with inputs when the stream carries
  witness data, is read back from its serialisation exactly as stored: without the witnesses on a
  stream that does not carry them, and with the extra payload only when it is a special one.\<close>

theorem transaction_roundtrip:
  assumes wf: "wf_tx tx" and pos: "0 \<le> tx_nVersion tx" and ins: "fAllowWitness nVer \<Longrightarrow> vin tx \<noteq> []"
  shows "UnserializeTransaction nVer old (SerializeTransaction nVer tx @ s) = Inr (as_stored nVer old tx, s)"
  using assms by (rule transaction_read_back)

definition sample_tx :: CTransaction where
  "sample_tx = \<lparr>tx_nVersion = 3, nType = 1,
     vin = [\<lparr>prevout = \<lparr>prev_hash = replicate 32 7, prev_n = 1\<rparr>, scriptSig = [], nSequence = 5,
             scriptWitness = [[1, 2]]\<rparr>],
     vout = [\<lparr>nValue = 1000, scriptPubKey = [OP_1], nRounds = - 10\<rparr>], nLockTime = 9, vExtraPayload = [4]\<rparr>"

lemma sample_tx_wf: "wf_tx sample_tx"
  by (simp add: sample_tx_def wf_tx_def in_signed_def MAX_SIZE_def wf_txin_def wf_outpoint_def wf_txout_def)

theorem transaction_roundtrip_witness:
  "UnserializeTransaction 0 CMutableTransaction_new (SerializeTransaction 0 sample_tx @ [8]) = Inr (sample_tx, [8])"
proof -
  have "as_stored 0 CMutableTransaction_new sample_tx = sample_tx"
    by (simp add: as_stored_def sample_tx_def special_tx_def fAllowWitness_def TRANSACTION_NORMAL_def)
  then show ?thesis
    using transaction_roundtrip [OF sample_tx_wf, of 0 CMutableTransaction_new "[8]"] by (simp add: sample_tx_def)
qed

subsection \<open>What the hash of a transaction commits to\<close>

lemma no_witness_stream: "\<not> fAllowWitness SERIALIZE_TRANSACTION_NO_WITNESS"
  by (simp add: fAllowWitness_def SERIALIZE_TRANSACTION_NO_WITNESS_def)

lemma as_stored_fields:
  "tx_nVersion (as_stored v old tx) = tx_nVersion tx" "nType (as_stored v old tx) = nType tx"
  "vout (as_stored v old tx) = vout tx" "nLockTime (as_stored v old tx) = nLockTime tx"
  "vin (as_stored v old tx) = (if fAllowWitness v then vin tx else map strip_witness (vin tx))"
  by (simp_all add: as_stored_def)

text \<open>C26. Two well-formed transactions with non-negative versions whose serialisations without
  witness data do not collide under the double hash have the same identifier only if they agree on
  everything but the witnesses and, for ordinary transactions, the unused payload.\<close>

theorem txid_commits:
  assumes "wf_tx a" and "wf_tx b" and "0 \<le> tx_nVersion a" and "0 \<le> tx_nVersion b"
    and "GetHash cr a = GetHash cr b"
    and "CHash256 cr (SerializeTransaction SERIALIZE_TRANSACTION_NO_WITNESS a) =
         CHash256 cr (SerializeTransaction SERIALIZE_TRANSACTION_NO_WITNESS b) \<Longrightarrow>
         SerializeTransaction SERIALIZE_TRANSACTION_NO_WITNESS a = SerializeTransaction SERIALIZE_TRANSACTION_NO_WITNESS b"
  shows "tx_nVersion a = tx_nVersion b \<and> nType a = nType b \<and> map strip_witness (vin a) = map strip_witness (vin b) \<and>
    vout a = vout b \<and> nLockTime a = nLockTime b \<and> (special_tx a \<longrightarrow> vExtraPayload a = vExtraPayload b)"
proof -
  let ?N = SERIALIZE_TRANSACTION_NO_WITNESS
  have "SerializeTransaction ?N a = SerializeTransaction ?N b"
    using assms(5,6) by (simp add: GetHash_def)
  moreover have "UnserializeTransaction ?N a (SerializeTransaction ?N a @ []) = Inr (as_stored ?N a a, [])"
    "UnserializeTransaction ?N a (SerializeTransaction ?N b @ []) = Inr (as_stored ?N a b, [])"
    by (rule transaction_read_back; simp add: assms no_witness_stream)+
  ultimately have eq: "as_stored ?N a a = as_stored ?N a b" by simp
  have f: "f (as_stored ?N a a) = f (as_stored ?N a b)" for f :: "CTransaction \<Rightarrow> 'z" using eq by simp
  show ?thesis
    using f [of tx_nVersion] f [of nType] f [of vin] f [of vout] f [of nLockTime] f [of vExtraPayload]
    by (simp add: as_stored_fields no_witness_stream) (auto simp: as_stored_def special_tx_def split: if_splits)
qed

theorem txid_commits_witness:
  "let b = sample_tx\<lparr>vin := map (\<lambda>x. x\<lparr>scriptWitness := []\<rparr>) (vin sample_tx)\<rparr> in
   GetHash plain_crypto sample_tx = GetHash plain_crypto b \<and>
   map strip_witness (vin sample_tx) = map strip_witness (vin b) \<and> sample_tx \<noteq> b"
proof -
  let ?b = "sample_tx\<lparr>vin := map (\<lambda>x. x\<lparr>scriptWitness := []\<rparr>) (vin sample_tx)\<rparr>"
  have wf: "wf_tx ?b"
    by (simp add: sample_tx_def wf_tx_def in_signed_def MAX_SIZE_def wf_txin_def wf_outpoint_def wf_txout_def)
  have s: "SerializeTransaction SERIALIZE_TRANSACTION_NO_WITNESS sample_tx = SerializeTransaction SERIALIZE_TRANSACTION_NO_WITNESS ?b"
    by (simp add: SerializeTransaction_plain no_witness_stream sample_tx_def n32bitVersion_def tx_tail_def
        special_tx_def Serialize_vec_def Serialize_CTxIn_def)
  then have "GetHash plain_crypto sample_tx = GetHash plain_crypto ?b" by (simp add: GetHash_def)
  with txid_commits [OF sample_tx_wf wf _ _ this] s show ?thesis
    by (simp add: Let_def) (simp add: sample_tx_def)
qed

text \<open>C27. A negative version is sign-extended over the type when the two are packed, so the
  serialisation, and with it the identifier, of a transaction with a negative version does not
  depend on its type.\<close>

theorem negative_version_hides_type:
  assumes "in_signed 16 (tx_nVersion tx)" and "tx_nVersion tx < 0"
  shows "SerializeTransaction nVer (tx\<lparr>nType := t\<rparr>) = SerializeTransaction nVer tx \<and>
    GetHash cr (tx\<lparr>nType := t\<rparr>) = GetHash cr tx"
proof -
  have "n32bitVersion (tx\<lparr>nType := u\<rparr>) = tx_nVersion tx" for u
    using n32_negative [OF assms] by (simp add: n32bitVersion_def)
  from this [of t] this [of "nType tx"]
  have "SerializeTransaction nVer (tx\<lparr>nType := t\<rparr>) = SerializeTransaction nVer tx" for nVer
    using assms(2) by (simp add: SerializeTransaction_def HasWitness_def)
  then show ?thesis by (simp add: GetHash_def)
qed

theorem negative_version_hides_type_witness:
  "let tx = sample_tx\<lparr>tx_nVersion := - 1\<rparr> in
   SerializeTransaction 0 (tx\<lparr>nType := 2\<rparr>) = SerializeTransaction 0 tx \<and> tx\<lparr>nType := 2\<rparr> \<noteq> tx"
  using negative_version_hides_type [of "sample_tx\<lparr>tx_nVersion := - 1\<rparr>" 0 2 plain_crypto]
  by (simp add: in_signed_def Let_def) (simp add: sample_tx_def)

subsection \<open>The sum of the outputs\<close>

lemma sum_values_iff:
  assumes "MoneyRange acc"
  shows "sum_values outs acc = Inr v \<longleftrightarrow>
    (\<forall>x \<in> set outs. MoneyRange (nValue x)) \<and> v = acc + sum_list (map nValue outs) \<and> MoneyRange v"
  using assms
proof (induction outs arbitrary: acc)
  case (Cons x outs)
  have r: "in_int64 (acc + nValue x)" if "MoneyRange acc" "MoneyRange (nValue x)"
    using that by (simp add: MoneyRange_def MAX_MONEY_def COIN_def range_simps)
  have nn: "0 \<le> sum_list (map nValue outs)" if "\<forall>x \<in> set outs. MoneyRange (nValue x)"
    using that by (intro sum_list_nonneg) (auto simp: MoneyRange_def)
  show ?case
  proof (cases "MoneyRange (nValue x) \<and> MoneyRange (acc + nValue x)")
    case True
    then show ?thesis using Cons r by (simp add: add.assoc)
  next
    case False
    then have "sum_values (x # outs) acc \<noteq> Inr v"
      by (auto simp: bindR_Inr_iff split: if_splits)
    moreover have "\<not> MoneyRange v" if "MoneyRange (nValue x)" "\<forall>x \<in> set outs. MoneyRange (nValue x)"
      "v = acc + (nValue x + sum_list (map nValue outs))"
      using that False nn Cons.prems by (auto simp: MoneyRange_def)
    ultimately show ?thesis by auto
  qed
qed auto

text \<open>\<open>GetValueOut\<close> returns exactly when every output and the total are amounts of money, and
  then it returns the sum of the outputs; in every other case it ends in an error.\<close>

theorem GetValueOut_iff:
  "GetValueOut tx = Inr v \<longleftrightarrow>
     (\<forall>x \<in> set (vout tx). MoneyRange (nValue x)) \<and> v = sum_list (map nValue (vout tx)) \<and> MoneyRange v"
  using sum_values_iff [of 0] by (simp add: GetValueOut_def MoneyRange_def MAX_MONEY_def COIN_def)

theorem GetValueOut_iff_witness: "GetValueOut sample_tx = Inr 1000 \<and> GetValueOut (sample_tx\<lparr>vout := [CTxOut_null]\<rparr>) \<noteq> Inr (- 1)"
  using GetValueOut_iff [of sample_tx 1000] GetValueOut_iff [of "sample_tx\<lparr>vout := [CTxOut_null]\<rparr>" "- 1"]
  by (simp add: sample_tx_def MoneyRange_def MAX_MONEY_def COIN_def CTxOut_null_def)

subsection \<open>What a reader gets\<close>

definition wf_witnesses :: "CTxIn list \<Rightarrow> bool" where
  "wf_witnesses ins \<longleftrightarrow> (\<forall>x \<in> set ins. wf_txin x \<and>
     length (scriptWitness x) \<le> MAX_SIZE \<and> (\<forall>w \<in> set (scriptWitness x). length w \<le> MAX_SIZE))"

lemma read_witnesses_wf:
  "read_witnesses ins s = Inr (ins', t) \<Longrightarrow> \<forall>x \<in> set ins. wf_txin x \<Longrightarrow> length ins' = length ins \<and> wf_witnesses ins'"
  by (induction ins arbitrary: s ins') (fastforce simp: wf_witnesses_def bindR_Inr_iff blobs.dec_iff wf_txin_def)+

lemma read_ins_outs_wf:
  assumes "read_ins_outs a s = Inr ((flags, ins, outs), t)"
  shows "length ins \<le> MAX_SIZE \<and> (\<forall>x \<in> set ins. wf_txin x \<and> scriptWitness x = []) \<and>
    length outs \<le> MAX_SIZE \<and> (\<forall>x \<in> set outs. wf_txout x) \<and> (\<not> a \<longrightarrow> flags = 0)"
  using assms by (auto simp: read_ins_outs_def bindR_Inr_iff txins.dec_iff txouts.dec_iff Let_def split: if_splits)

lemma read_transaction_wf:
  assumes "UnserializeTransaction nVer old s = Inr (tx, t)" "length (vExtraPayload old) \<le> MAX_SIZE"
  shows "wf_tx tx \<and> as_stored nVer old tx = tx"
proof -
  let ?a = "fAllowWitness nVer"
  obtain n32 s1 flags ins outs s2 flags' ins' s3 where
    io: "read_ins_outs ?a s1 = Inr ((flags, ins, outs), s2)"
    and w: "(if flags AND 1 \<noteq> 0 \<and> ?a then bindR (read_witnesses ins s2) (\<lambda>(ins, s). Inr (flags XOR 1, ins, s))
            else Inr (flags, ins, s2)) = Inr (flags', ins', s3)"
    and rest: "(if flags' \<noteq> 0 then Inl (Thrown ''Unknown transaction optional data'')
     else bindR (Unserialize_u32 s3) (\<lambda>(locktime, s).
       if signed_of 16 (n32 AND 0xffff) = 3 \<and> signed_of 16 (drop_bit 16 n32 AND 0xffff) \<noteq> TRANSACTION_NORMAL
       then bindR (Unserialize_blob s) (\<lambda>(payload, s). Inr (old\<lparr>tx_nVersion := signed_of 16 (n32 AND 0xffff),
         nType := signed_of 16 (drop_bit 16 n32 AND 0xffff), vin := ins', vout := outs, nLockTime := locktime, vExtraPayload := payload\<rparr>, s))
       else Inr (old\<lparr>tx_nVersion := signed_of 16 (n32 AND 0xffff), nType := signed_of 16 (drop_bit 16 n32 AND 0xffff),
          vin := ins', vout := outs, nLockTime := locktime\<rparr>, s))) = Inr (tx, t)"
    using assms(1) unfolding UnserializeTransaction_def bindR_Inr_iff split_paired_Ex Let_def prod.case by blast
  from rest obtain locktime s4 where
    tx: "(if signed_of 16 (n32 AND 0xffff) = 3 \<and> signed_of 16 (drop_bit 16 n32 AND 0xffff) \<noteq> TRANSACTION_NORMAL
       then bindR (Unserialize_blob s4) (\<lambda>(payload, s). Inr (old\<lparr>tx_nVersion := signed_of 16 (n32 AND 0xffff),
         nType := signed_of 16 (drop_bit 16 n32 AND 0xffff), vin := ins', vout := outs, nLockTime := locktime, vExtraPayload := payload\<rparr>, s))
       else Inr (old\<lparr>tx_nVersion := signed_of 16 (n32 AND 0xffff), nType := signed_of 16 (drop_bit 16 n32 AND 0xffff),
          vin := ins', vout := outs, nLockTime := locktime\<rparr>, s4)) = Inr (tx, t)"
    by (cases "Unserialize_u32 s3") (simp_all split: if_splits prod.splits)
  note io = read_ins_outs_wf [OF io]
  have "wf_witnesses ins" using io by (simp add: wf_witnesses_def)
  then have ins: "length ins' \<le> MAX_SIZE" "wf_witnesses ins'" "\<not> fAllowWitness nVer \<Longrightarrow> \<forall>x \<in> set ins'. scriptWitness x = []"
    using w io read_witnesses_wf [of ins s2] by (auto simp: bindR_Inr_iff split: if_splits)
  have r: "in_signed 16 (signed_of 16 x)" for x by (rule signed_of_range) simp
  have strip: "\<forall>x \<in> set ins'. scriptWitness x = [] \<Longrightarrow> map strip_witness ins' = ins'"
    by (rule map_idI) (simp add: strip_witness_def)
  have f: "in_signed 16 (tx_nVersion tx)" "in_signed 16 (nType tx)" "vin tx = ins'" "vout tx = outs"
    "length (vExtraPayload tx) \<le> MAX_SIZE" "\<not> special_tx tx \<Longrightarrow> vExtraPayload tx = vExtraPayload old"
    using tx assms(2) by (auto simp: r in_signed_def [of _ 3] in_signed_def [of _ 0] TRANSACTION_NORMAL_def special_tx_def bindR_Inr_iff blob.dec_iff split: if_splits)
  have "wf_tx tx" using f io ins unfolding wf_tx_def wf_witnesses_def by blast
  moreover have "as_stored nVer old tx = tx" using f(3,6) strip ins(3) unfolding as_stored_def by simp
  ultimately show ?thesis by blast
qed

text \<open>C37. Whatever bytes are read as a transaction, the object that comes out is well formed: hashes of 32
  bytes, signed fields within their widths, no list or script longer than \<open>MAX_SIZE\<close>. When its version is
  not negative and, on a stream that carries witness data, it has inputs, serializing it and reading that
  again gives the same object; a negative version hides the type, so it is excepted.\<close>

theorem read_transaction_typed:
  assumes "UnserializeTransaction nVer old s = Inr (tx, t)" and "length (vExtraPayload old) \<le> MAX_SIZE"
  shows "wf_tx tx \<and> (0 \<le> tx_nVersion tx \<and> (fAllowWitness nVer \<longrightarrow> vin tx \<noteq> []) \<longrightarrow>
    UnserializeTransaction nVer old (SerializeTransaction nVer tx @ s') = Inr (tx, s'))"
  using read_transaction_wf [OF assms] transaction_read_back [of tx nVer old s'] by auto

theorem read_transaction_typed_witness:
  "\<exists>tx. UnserializeTransaction 0 sample_tx (SerializeTransaction 0 sample_tx @ [1]) = Inr (tx, [1]) \<and> wf_tx tx \<and>
    UnserializeTransaction 0 sample_tx (SerializeTransaction 0 tx @ [2]) = Inr (tx, [2])"
proof -
  have r: "UnserializeTransaction 0 sample_tx (SerializeTransaction 0 sample_tx @ [1]) = Inr (as_stored 0 sample_tx sample_tx, [1])"
    by (rule transaction_read_back) (simp_all add: sample_tx_wf, simp_all add: sample_tx_def)
  have "length (vExtraPayload sample_tx) \<le> MAX_SIZE" "0 \<le> tx_nVersion (as_stored 0 sample_tx sample_tx)" "vin (as_stored 0 sample_tx sample_tx) \<noteq> []"
    by (simp_all add: sample_tx_def MAX_SIZE_def as_stored_def)
  then show ?thesis using read_transaction_typed [OF r, of "[2]"] r by blast
qed

subsection \<open>The order of outputs\<close>

lemma prevector_loop_lex: "length a = length b \<Longrightarrow> prevector_loop a b \<longleftrightarrow> ord_class.lexordp a b"
  by (induction a b rule: list_induct2) auto

text \<open>Scripts are compared by length first, so the order is not the lexicographic one BIP 69 prescribes.\<close>

lemma CompareOutputBIP69_not_lexicographic:
  "CompareOutputBIP69 \<lparr>nValue = 1, scriptPubKey = [9], nRounds = - 10\<rparr> \<lparr>nValue = 1, scriptPubKey = [1, 1], nRounds = - 10\<rparr> \<and>
   \<not> ord_class.lexordp [9 :: byte] [1, 1]"
  by (simp add: CompareOutputBIP69_def prevector_less_def)

end
