(* ===== verification/Sighash.thy ===== *)
theory Sighash
  imports Transaction
begin

text \<open>
  Signature hashes and the checker of a transaction's input: \<open>CTransactionSignatureSerializer\<close>,
  \<open>SignatureHash\<close> and \<open>TransactionSignatureChecker\<close> of \<open>src/src/script/interpreter.cpp\<close>, with the old
  \<open>SignatureHashOld\<close> that \<open>src/src/test/sighash_tests.cpp\<close> keeps as their reference.
  The curve operations behind \<open>CPubKey::Verify\<close> are the parameter \<open>Verify\<close>.
\<close>

subsection \<open>The legacy format\<close>

record sighash_mode =
  fAnyoneCanPay :: bool
  fHashSingle :: bool
  fHashNone :: bool

definition hash_mode :: "int \<Rightarrow> sighash_mode" where
  "hash_mode nHashType = \<lparr>fAnyoneCanPay = nHashType AND SIGHASH_ANYONECANPAY \<noteq> 0,
     fHashSingle = (nHashType AND 0x1f = SIGHASH_SINGLE), fHashNone = (nHashType AND 0x1f = SIGHASH_NONE)\<rparr>"

function code_loop :: "CScript \<Rightarrow> CScript \<Rightarrow> bytes \<Rightarrow> CScript \<times> CScript \<times> bytes" where
  "code_loop it itBegin s =
     (case GetOp2 it of (ok, opcode, _, it') \<Rightarrow>
        if ok then
          (if opcode = OP_CODESEPARATOR
           then code_loop it' it' (s @ take (length itBegin - length it' - 1) itBegin)
           else code_loop it' itBegin s)
        else (it', itBegin, s))"
  by pat_completeness auto
termination by (relation "measure (\<lambda>(it, itBegin, s). length it)") (auto dest!: GetOp2_shorter [OF sym])

declare code_loop.simps [simp del]

definition SerializeScriptCode :: "CScript \<Rightarrow> bytes" where
  "SerializeScriptCode scriptCode =
     (let nCodeSeparators = Find scriptCode OP_CODESEPARATOR in
      WriteCompactSize (length scriptCode - nCodeSeparators) @
      (case code_loop scriptCode scriptCode [] of (it, itBegin, s) \<Rightarrow>
         s @ (if itBegin \<noteq> [] then take (length itBegin - length it) itBegin else [])))"

definition SerializeInput :: "sighash_mode \<Rightarrow> CTransaction \<Rightarrow> CScript \<Rightarrow> nat \<Rightarrow> nat \<Rightarrow> bytes" where
  "SerializeInput m txTo scriptCode nIn nInput =
     (let nInput = (if fAnyoneCanPay m then nIn else nInput) in
      Serialize_COutPoint (prevout (vin txTo ! nInput)) @
      (if nInput \<noteq> nIn then Serialize_blob [] else SerializeScriptCode scriptCode) @
      (if nInput \<noteq> nIn \<and> (fHashSingle m \<or> fHashNone m) then Serialize_signed 4 0
       else Serialize_u32 (nSequence (vin txTo ! nInput))))"

definition SerializeOutput :: "sighash_mode \<Rightarrow> CTransaction \<Rightarrow> nat \<Rightarrow> nat \<Rightarrow> bytes" where
  "SerializeOutput m txTo nIn nOutput =
     (if fHashSingle m \<and> nOutput \<noteq> nIn then Serialize_CTxOut CTxOut_null else Serialize_CTxOut (vout txTo ! nOutput))"

definition SignatureSerializer :: "sighash_mode \<Rightarrow> CTransaction \<Rightarrow> CScript \<Rightarrow> nat \<Rightarrow> bytes" where
  "SignatureSerializer m txTo scriptCode nIn =
     (let nInputs = (if fAnyoneCanPay m then 1 else length (vin txTo));
          nOutputs = (if fHashNone m then 0 else if fHashSingle m then nIn + 1 else length (vout txTo)) in
      Serialize_signed 4 (n32bitVersion txTo) @
      WriteCompactSize nInputs @ concat (map (SerializeInput m txTo scriptCode nIn) [0..<nInputs]) @
      WriteCompactSize nOutputs @ concat (map (SerializeOutput m txTo nIn) [0..<nOutputs]) @
      Serialize_u32 (nLockTime txTo) @
      (if tx_nVersion txTo = 3 \<and> nType txTo \<noteq> TRANSACTION_NORMAL then Serialize_blob (vExtraPayload txTo) else []))"

subsection \<open>The witness format\<close>

definition GetPrevoutHash :: "crypto \<Rightarrow> CTransaction \<Rightarrow> uint256" where
  "GetPrevoutHash cr txTo = CHash256 cr (concat (map (\<lambda>txin. Serialize_COutPoint (prevout txin)) (vin txTo)))"

definition GetSequenceHash :: "crypto \<Rightarrow> CTransaction \<Rightarrow> uint256" where
  "GetSequenceHash cr txTo = CHash256 cr (concat (map (\<lambda>txin. Serialize_u32 (nSequence txin)) (vin txTo)))"

definition GetOutputsHash :: "crypto \<Rightarrow> CTransaction \<Rightarrow> uint256" where
  "GetOutputsHash cr txTo = CHash256 cr (concat (map Serialize_CTxOut (vout txTo)))"

record PrecomputedTransactionData =
  hashPrevouts :: uint256
  hashSequence :: uint256
  hashOutputs :: uint256
  ready :: bool

definition PrecomputedTransactionData_of :: "crypto \<Rightarrow> CTransaction \<Rightarrow> PrecomputedTransactionData" where
  "PrecomputedTransactionData_of cr txTo =
     (if HasWitness txTo
      then \<lparr>hashPrevouts = GetPrevoutHash cr txTo, hashSequence = GetSequenceHash cr txTo,
            hashOutputs = GetOutputsHash cr txTo, ready = True\<rparr>
      else \<lparr>hashPrevouts = uint256_null, hashSequence = uint256_null, hashOutputs = uint256_null, ready = False\<rparr>)"

definition witness_preimage ::
  "crypto \<Rightarrow> CScript \<Rightarrow> CTransaction \<Rightarrow> nat \<Rightarrow> int \<Rightarrow> CAmount \<Rightarrow> PrecomputedTransactionData option \<Rightarrow> bytes" where
  "witness_preimage cr scriptCode txTo nIn nHashType amount cache =
     (let m = hash_mode nHashType;
          cached = (\<lambda>field fresh. case cache of Some c \<Rightarrow> if ready c then field c else fresh | None \<Rightarrow> fresh);
          hPrevouts = (if \<not> fAnyoneCanPay m then cached hashPrevouts (GetPrevoutHash cr txTo) else uint256_null);
          hSequence = (if \<not> fAnyoneCanPay m \<and> \<not> fHashSingle m \<and> \<not> fHashNone m
                       then cached hashSequence (GetSequenceHash cr txTo) else uint256_null);
          hOutputs = (if \<not> fHashSingle m \<and> \<not> fHashNone m then cached hashOutputs (GetOutputsHash cr txTo)
                      else if fHashSingle m \<and> nIn < length (vout txTo)
                      then CHash256 cr (Serialize_CTxOut (vout txTo ! nIn)) else uint256_null) in
      Serialize_signed 2 (tx_nVersion txTo) @ hPrevouts @ hSequence @
      Serialize_COutPoint (prevout (vin txTo ! nIn)) @ Serialize_blob scriptCode @ Serialize_signed 8 amount @
      Serialize_u32 (nSequence (vin txTo ! nIn)) @ hOutputs @ Serialize_u32 (nLockTime txTo) @
      Serialize_signed 4 nHashType)"

definition uint256_one :: uint256 where
  "uint256_one = 1 # replicate 31 0"

definition SignatureHash ::
  "crypto \<Rightarrow> CScript \<Rightarrow> CTransaction \<Rightarrow> nat \<Rightarrow> int \<Rightarrow> CAmount \<Rightarrow> SigVersion \<Rightarrow> PrecomputedTransactionData option \<Rightarrow>
   uint256 result" where
  "SignatureHash cr scriptCode txTo nIn nHashType amount sigversion cache =
     bindR (assertR (nIn < length (vin txTo))) (\<lambda>_.
       if sigversion = SIGVERSION_WITNESS_V0
       then Inr (CHash256 cr (witness_preimage cr scriptCode txTo nIn nHashType amount cache))
       else if nIn \<ge> length (vin txTo) then Inr uint256_one
       else if fHashSingle (hash_mode nHashType) \<and> nIn \<ge> length (vout txTo) then Inr uint256_one
       else Inr (CHash256 cr (SignatureSerializer (hash_mode nHashType) txTo scriptCode nIn @
                              Serialize_signed 4 nHashType)))"

subsection \<open>The checker\<close>

definition CPubKey_GetLen :: "byte \<Rightarrow> nat" where
  "CPubKey_GetLen chHeader =
     (if chHeader = 2 \<or> chHeader = 3 then 33 else if chHeader = 4 \<or> chHeader = 6 \<or> chHeader = 7 then 65 else 0)"

definition CPubKey_Set :: "bytes \<Rightarrow> bytes option" where
  "CPubKey_Set vch =
     (let len = (if vch = [] then 0 else CPubKey_GetLen (hd vch)) in
      if len \<noteq> 0 \<and> len = length vch then Some vch else None)"

definition tx_CheckSig ::
  "crypto \<Rightarrow> (bytes \<Rightarrow> uint256 \<Rightarrow> bytes \<Rightarrow> bool) \<Rightarrow> CTransaction \<Rightarrow> nat \<Rightarrow> CAmount \<Rightarrow> PrecomputedTransactionData option \<Rightarrow>
   valtype \<Rightarrow> valtype \<Rightarrow> CScript \<Rightarrow> SigVersion \<Rightarrow> bool result" where
  "tx_CheckSig cr Verify txTo nIn amount txdata vchSigIn vchPubKey scriptCode sigversion =
     (case CPubKey_Set vchPubKey of
        None \<Rightarrow> Inr False
      | Some pubkey \<Rightarrow>
          if vchSigIn = [] then Inr False
          else let nHashType = int (unat (last vchSigIn)); vchSig = butlast vchSigIn in
            bindR (SignatureHash cr scriptCode txTo nIn nHashType amount sigversion txdata) (\<lambda>sighash.
              Inr (Verify pubkey sighash vchSig)))"

definition tx_CheckLockTime :: "CTransaction \<Rightarrow> nat \<Rightarrow> int \<Rightarrow> bool result" where
  "tx_CheckLockTime txTo nIn lockTime =
     (let txLock = int (unat (nLockTime txTo)) in
      if \<not> ((txLock < LOCKTIME_THRESHOLD \<and> lockTime < LOCKTIME_THRESHOLD) \<or>
             (txLock \<ge> LOCKTIME_THRESHOLD \<and> lockTime \<ge> LOCKTIME_THRESHOLD)) then Inr False
      else if lockTime > txLock then Inr False
      else if nIn \<ge> length (vin txTo) then Inl OutOfRange
      else if SEQUENCE_FINAL = nSequence (vin txTo ! nIn) then Inr False
      else Inr True)"

definition tx_CheckSequence :: "CTransaction \<Rightarrow> nat \<Rightarrow> int \<Rightarrow> bool result" where
  "tx_CheckSequence txTo nIn sequence =
     (if nIn \<ge> length (vin txTo) then Inl OutOfRange
      else let txToSequence = nSequence (vin txTo ! nIn) in
        if tx_nVersion txTo mod 2 ^ 32 < 2 then Inr False
        else if txToSequence AND SEQUENCE_LOCKTIME_DISABLE_FLAG \<noteq> 0 then Inr False
        else let nLockTimeMask = SEQUENCE_LOCKTIME_TYPE_FLAG OR SEQUENCE_LOCKTIME_MASK;
                 txToSequenceMasked = uint (txToSequence AND nLockTimeMask);
                 nSequenceMasked = sequence AND uint nLockTimeMask;
                 flag = uint SEQUENCE_LOCKTIME_TYPE_FLAG in
          if \<not> ((txToSequenceMasked < flag \<and> nSequenceMasked < flag) \<or>
                 (txToSequenceMasked \<ge> flag \<and> nSequenceMasked \<ge> flag)) then Inr False
          else if nSequenceMasked > txToSequenceMasked then Inr False
          else Inr True)"

definition TransactionSignatureChecker ::
  "crypto \<Rightarrow> (bytes \<Rightarrow> uint256 \<Rightarrow> bytes \<Rightarrow> bool) \<Rightarrow> CTransaction \<Rightarrow> nat \<Rightarrow> CAmount \<Rightarrow> PrecomputedTransactionData option \<Rightarrow>
   SignatureChecker" where
  "TransactionSignatureChecker cr Verify txTo nIn amount txdata =
     \<lparr>CheckSig = tx_CheckSig cr Verify txTo nIn amount txdata, CheckLockTime = tx_CheckLockTime txTo nIn,
      CheckSequence = tx_CheckSequence txTo nIn\<rparr>"

subsection \<open>The old signature hash\<close>

definition old_inputs :: "sighash_mode \<Rightarrow> CScript \<Rightarrow> CTransaction \<Rightarrow> nat \<Rightarrow> CTxIn list" where
  "old_inputs m scriptCode txTo nIn =
     (let ins = map (\<lambda>txin. txin\<lparr>scriptSig := []\<rparr>) (vin txTo);
          ins = ins[nIn := (ins ! nIn)\<lparr>scriptSig := scriptCode\<rparr>] in
      if fHashNone m \<or> fHashSingle m
      then map (\<lambda>i. if i \<noteq> nIn then (ins ! i)\<lparr>nSequence := 0\<rparr> else ins ! i) [0..<length ins]
      else ins)"

definition SignatureHashOld :: "crypto \<Rightarrow> CScript \<Rightarrow> CTransaction \<Rightarrow> nat \<Rightarrow> int \<Rightarrow> uint256" where
  "SignatureHashOld cr scriptCode txTo nIn nHashType =
     (if nIn \<ge> length (vin txTo) then uint256_one
      else
        let m = hash_mode nHashType;
            scriptCode = snd (FindAndDelete scriptCode [OP_CODESEPARATOR]);
            ins = old_inputs m scriptCode txTo nIn in
        if \<not> fHashNone m \<and> fHashSingle m \<and> nIn \<ge> length (vout txTo) then uint256_one
        else
          let outs = (if fHashNone m then []
                      else if fHashSingle m then replicate nIn CTxOut_null @ [vout txTo ! nIn] else vout txTo);
              ins = (if fAnyoneCanPay m then [ins ! nIn] else ins) in
          CHash256 cr (SerializeTransaction 0 (txTo\<lparr>vin := ins, vout := outs\<rparr>) @ Serialize_signed 4 nHashType))"

subsection \<open>Skipping the separators\<close>

function parses :: "CScript \<Rightarrow> bool" where
  "parses pc =
     (if pc = [] then True else case GetOp2 pc of (ok, _, _, pc') \<Rightarrow> if ok then parses pc' else False)"
  by pat_completeness auto
termination by (relation "measure length") (auto dest!: GetOp2_shorter [OF sym])

declare parses.simps [simp del]

function without_separators :: "CScript \<Rightarrow> CScript" where
  "without_separators pc =
     (case GetOp2 pc of (ok, opcode, _, pc') \<Rightarrow>
        if ok then (if opcode = OP_CODESEPARATOR then [] else take (length pc - length pc') pc) @ without_separators pc'
        else [])"
  by pat_completeness auto
termination by (relation "measure length") (auto dest!: GetOp2_shorter [OF sym])

declare without_separators.simps [simp del]

lemma GetOp2_Nil [simp]: "GetOp2 [] = (False, OP_INVALIDOPCODE, [], [])"
  by (simp add: GetOp2_def)

lemma GetOp2_separator [simp]: "GetOp2 (OP_CODESEPARATOR # pc) = (True, OP_CODESEPARATOR, [], pc)"
  by (simp add: GetOp2_def)

lemma separator_only:
  assumes "GetOp2 pc = (True, OP_CODESEPARATOR, vch, pc')"
  shows "pc = OP_CODESEPARATOR # pc'"
  using assms by (auto simp: GetOp2_def Let_def word_unat_eq_iff split: list.splits if_splits option.splits)

lemma Find_step:
  "GetOp2 pc = (True, opcode, vch, pc') \<Longrightarrow> Find pc op = (if opcode = op then 1 else 0) + Find pc' op"
  "GetOp2 pc = (False, opcode, vch, pc') \<Longrightarrow> Find pc op = 0"
  by (simp_all add: Find.simps [of pc])

lemma without_separators_step:
  "GetOp2 pc = (True, opcode, vch, pc') \<Longrightarrow> without_separators pc =
     (if opcode = OP_CODESEPARATOR then [] else take (length pc - length pc') pc) @ without_separators pc'"
  "GetOp2 pc = (False, opcode, vch, pc') \<Longrightarrow> without_separators pc = []"
  by (simp_all add: without_separators.simps [of pc])

lemma parses_cases:
  assumes "parses pc"
  obtains "pc = []" | opcode vch pc' where "GetOp2 pc = (True, opcode, vch, pc')" "parses pc'"
  using assms by (auto simp: parses.simps [of pc] split: if_splits prod.splits)

lemma parses_step: "GetOp2 pc = (True, opcode, vch, pc') \<Longrightarrow> parses pc' \<Longrightarrow> parses pc"
  by (simp add: parses.simps [of pc])

lemma parse_induct [consumes 1, case_names Nil Step]:
  assumes "parses pc" and "P []"
    and "\<And>pc opcode vch pc'. GetOp2 pc = (True, opcode, vch, pc') \<Longrightarrow> parses pc' \<Longrightarrow> P pc' \<Longrightarrow> P pc"
  shows "P pc"
  using assms(1)
proof (induction "length pc" arbitrary: pc rule: less_induct)
  case less
  from \<open>parses pc\<close> show ?case
  proof (cases rule: parses_cases)
    case (2 opcode vch pc')
    then show ?thesis using less.hyps [OF GetOp2_shorter] assms(3) by blast
  qed (simp add: assms(2))
qed

lemma skip_separators:
  "parses pc \<Longrightarrow> skip_copies [OP_CODESEPARATOR] pc = (k, pc') \<Longrightarrow>
     parses pc' \<and> Find pc OP_CODESEPARATOR = k + Find pc' OP_CODESEPARATOR \<and>
     without_separators pc = without_separators pc' \<and> length pc = k + length pc' \<and>
     (\<forall>q. pc' \<noteq> OP_CODESEPARATOR # q)"
proof (induction arbitrary: k rule: parse_induct)
  case (Step pc opcode vch q)
  show ?case
  proof (cases "prefix [OP_CODESEPARATOR] pc")
    case True
    then obtain r where r: "pc = OP_CODESEPARATOR # r" by (auto simp: prefix_def)
    then have "q = r" "opcode = OP_CODESEPARATOR" using Step.hyps by simp_all
    moreover obtain j where "skip_copies [OP_CODESEPARATOR] q = (j, pc')" "k = j + 1"
      using Step.prems \<open>q = r\<close> by (simp add: r skip_copies.simps [of _ "OP_CODESEPARATOR # r"] split: prod.splits)
    ultimately show ?thesis
      using Step.IH [of j] Step.hyps r by (simp add: Find_step without_separators_step)
  next
    case False
    then show ?thesis using Step.prems Step.hyps
      by (auto simp: skip_copies.simps [of _ pc] prefix_def intro: parses_step)
  qed
qed (simp add: skip_copies.simps parses.simps)

lemma find_loop_separators:
  assumes "parses pc" and "suffix pc pc2"
  shows "find_loop [OP_CODESEPARATOR] pc2 pc result n =
    (n + Find pc OP_CODESEPARATOR, result @ take (length pc2 - length pc) pc2 @ without_separators pc)"
  using assms
proof (induction "length pc" arbitrary: pc pc2 result n rule: less_induct)
  case less
  obtain k q where s: "skip_copies [OP_CODESEPARATOR] pc = (k, q)" by fastforce
  note q = skip_separators [OF \<open>parses pc\<close> s]
  from q have "parses q" by simp
  then show ?case
  proof (cases rule: parses_cases)
    case 1
    then show ?thesis using s q
      by (simp add: find_loop.simps [of _ pc2 pc] Find.simps [of "[]"] without_separators.simps [of "[]"])
  next
    case (2 opcode vch q')
    have "opcode \<noteq> OP_CODESEPARATOR" using separator_only q 2(1) by blast
    moreover have "suffix q' q" using GetOp2_suffix [OF 2(1)] .
    moreover have "length q' < length pc" using GetOp2_shorter [OF 2(1)] q by simp
    ultimately show ?thesis using s q 2 less.hyps [of q' q]
      by (simp add: find_loop.simps [of _ pc2 pc] Let_def Find_step without_separators_step)
  qed
qed

lemma FindAndDelete_separators:
  assumes "parses pc"
  shows "FindAndDelete pc [OP_CODESEPARATOR] = (Find pc OP_CODESEPARATOR, without_separators pc)"
proof -
  have f: "find_loop [OP_CODESEPARATOR] pc pc [] 0 = (Find pc OP_CODESEPARATOR, without_separators pc)"
    using find_loop_separators [OF assms, of pc "[]" 0] by simp
  have "without_separators pc = pc" if "Find pc OP_CODESEPARATOR = 0"
    using assms that
  proof (induction rule: parse_induct)
    case (Step pc opcode vch pc')
    have "suffix pc' pc" using GetOp2_suffix [OF Step.hyps(1)] .
    then have "take (length pc - length pc') pc @ pc' = pc" by (auto simp: suffix_def)
    moreover have "opcode \<noteq> OP_CODESEPARATOR" "Find pc' OP_CODESEPARATOR = 0"
      using Step.prems by (simp_all add: Find_step(1) [OF Step.hyps(1)] split: if_splits)
    ultimately show ?case using Step.IH by (simp add: without_separators_step(1) [OF Step.hyps(1)])
  qed (simp add: without_separators.simps [of "[]"])
  with f show ?thesis by (auto simp: FindAndDelete_def)
qed

lemma code_loop_separators:
  assumes "parses it" and "suffix it itBegin"
  shows "\<exists>itEnd out. code_loop it itBegin s = ([], itEnd, out) \<and>
    out @ itEnd = s @ take (length itBegin - length it) itBegin @ without_separators it"
  using assms
proof (induction arbitrary: itBegin s rule: parse_induct)
  case Nil
  then show ?case by (simp add: code_loop.simps without_separators.simps)
next
  case (Step pc opcode vch pc')
  have suf: "suffix pc' pc" by (rule GetOp2_suffix [OF Step.hyps(1)])
  show ?case
  proof (cases "opcode = OP_CODESEPARATOR")
    case True
    then have pc: "pc = OP_CODESEPARATOR # pc'" using separator_only Step.hyps(1) by blast
    have "length itBegin - length pc' - 1 = length itBegin - length pc" by (simp add: pc)
    then show ?thesis
      using Step.IH [of pc' "s @ take (length itBegin - length pc) itBegin"] Step.hyps(1) True
      by (simp add: code_loop.simps [of pc] without_separators_step)
  next
    case False
    obtain u v where uv: "itBegin = u @ pc" "pc = v @ pc'"
      using Step.prems suf by (auto simp: suffix_def)
    have "suffix pc' itBegin" using suf Step.prems by (rule suffix_order.trans)
    moreover have "code_loop pc itBegin s = code_loop pc' itBegin s"
      using Step.hyps(1) False by (simp add: code_loop.simps [of pc])
    moreover have "take (length itBegin - length pc') itBegin @ without_separators pc' =
        take (length itBegin - length pc) itBegin @ without_separators pc"
    proof -
      have "without_separators pc = v @ without_separators pc'"
        using False unfolding without_separators_step(1) [OF Step.hyps(1)] by (simp add: uv(2))
      moreover have "take (length itBegin - length pc') itBegin = u @ v" "take (length itBegin - length pc) itBegin = u"
        by (simp_all add: uv)
      ultimately show ?thesis by simp
    qed
    ultimately show ?thesis using Step.IH [of itBegin s] by simp
  qed
qed

lemma without_separators_length: "parses pc \<Longrightarrow> length (without_separators pc) = length pc - Find pc OP_CODESEPARATOR"
  using FindAndDelete_length(1) [OF FindAndDelete_separators, of pc] by simp

lemma SerializeScriptCode_eq:
  assumes "parses scriptCode"
  shows "SerializeScriptCode scriptCode = Serialize_blob (snd (FindAndDelete scriptCode [OP_CODESEPARATOR]))"
proof -
  obtain itEnd out where l: "code_loop scriptCode scriptCode [] = ([], itEnd, out)" "out @ itEnd = without_separators scriptCode"
    using code_loop_separators [OF assms, of scriptCode "[]"] by auto
  have "out @ (if itEnd \<noteq> [] then take (length itEnd - length []) itEnd else []) = without_separators scriptCode"
    using l(2) by auto
  then show ?thesis using l(1)
    by (simp add: SerializeScriptCode_def FindAndDelete_separators [OF assms] Serialize_blob_def
        without_separators_length [OF assms])
qed

subsection \<open>Agreement with the old signature hash\<close>

lemma concat_map_upt: "concat (map (\<lambda>i. f (xs ! i)) [0..<length xs]) = concat (map f xs)"
  by (metis map_map map_nth comp_apply map_cong)

lemma hash_mode_exclusive: "\<not> (fHashNone (hash_mode h) \<and> fHashSingle (hash_mode h))"
  by (simp add: hash_mode_def)

definition signed_input :: "sighash_mode \<Rightarrow> CTransaction \<Rightarrow> CScript \<Rightarrow> nat \<Rightarrow> nat \<Rightarrow> CTxIn" where
  "signed_input m tx code nIn i =
     (vin tx ! i)\<lparr>scriptSig := if i = nIn then code else [],
       nSequence := if i \<noteq> nIn \<and> (fHashSingle m \<or> fHashNone m) then 0 else nSequence (vin tx ! i)\<rparr>"

lemma zero_sequence: "Serialize_signed 4 0 = Serialize_u32 0"
  by (simp add: Serialize_signed_def Serialize_u32_def)

lemma SerializeInput_eq:
  assumes "parses scriptCode" and "\<not> fAnyoneCanPay m \<or> nInput = nIn"
  shows "SerializeInput m tx scriptCode nIn nInput =
    Serialize_CTxIn (signed_input m tx (snd (FindAndDelete scriptCode [OP_CODESEPARATOR])) nIn nInput)"
  using assms(2)
  by (auto simp: SerializeInput_def Serialize_CTxIn_def signed_input_def SerializeScriptCode_eq [OF assms(1)] zero_sequence Let_def)

definition signed_tx :: "sighash_mode \<Rightarrow> CTransaction \<Rightarrow> CScript \<Rightarrow> nat \<Rightarrow> CTransaction" where
  "signed_tx m tx code nIn = tx\<lparr>
     vin := if fAnyoneCanPay m then [signed_input m tx code nIn nIn]
            else map (signed_input m tx code nIn) [0..<length (vin tx)],
     vout := if fHashNone m then [] else if fHashSingle m then replicate nIn CTxOut_null @ [vout tx ! nIn]
             else vout tx\<rparr>"

lemma signed_tx_no_witness:
  assumes "\<not> HasWitness tx" and "nIn < length (vin tx)"
  shows "\<not> HasWitness (signed_tx m tx code nIn)"
proof -
  have "scriptWitness (signed_input m tx code nIn i) = []" if "i < length (vin tx)" for i
    using assms(1) that by (auto simp: HasWitness_def list_ex_iff signed_input_def)
  with assms(2) show ?thesis by (auto simp: HasWitness_def list_ex_iff signed_tx_def)
qed

lemma SerializeOutput_all:
  assumes "fHashSingle m \<Longrightarrow> \<not> fHashNone m \<and> nIn < length (vout tx)"
  shows "concat (map (SerializeOutput m tx nIn)
      [0..<(if fHashNone m then 0 else if fHashSingle m then nIn + 1 else length (vout tx))]) =
    concat (map Serialize_CTxOut (vout (signed_tx m tx code nIn)))"
proof (cases "fHashSingle m")
  case True
  have "map (SerializeOutput m tx nIn) [0..<nIn] = replicate nIn (Serialize_CTxOut CTxOut_null)"
    using True by (intro nth_equalityI) (auto simp: SerializeOutput_def)
  then show ?thesis using True assms by (simp add: signed_tx_def SerializeOutput_def)
next
  case False
  then have "SerializeOutput m tx nIn = (\<lambda>i. Serialize_CTxOut (vout tx ! i))"
    by (simp add: SerializeOutput_def fun_eq_iff)
  then show ?thesis using False by (simp add: signed_tx_def concat_map_upt)
qed

lemma SerializeInput_all:
  assumes "parses scriptCode"
  shows "concat (map (SerializeInput m tx scriptCode nIn) [0..<(if fAnyoneCanPay m then 1 else length (vin tx))]) =
    concat (map Serialize_CTxIn (vin (signed_tx m tx (snd (FindAndDelete scriptCode [OP_CODESEPARATOR])) nIn)))"
proof (cases "fAnyoneCanPay m")
  case True
  have "SerializeInput m tx scriptCode nIn 0 = SerializeInput m tx scriptCode nIn nIn"
    using True by (simp add: SerializeInput_def)
  then show ?thesis using True by (simp add: signed_tx_def SerializeInput_eq [OF assms])
next
  case False
  then have "SerializeInput m tx scriptCode nIn =
      (\<lambda>i. Serialize_CTxIn (signed_input m tx (snd (FindAndDelete scriptCode [OP_CODESEPARATOR])) nIn i))"
    by (simp add: fun_eq_iff SerializeInput_eq [OF assms])
  then show ?thesis using False by (simp add: signed_tx_def comp_def)
qed

lemma SignatureSerializer_eq:
  assumes "parses scriptCode" and "\<not> HasWitness tx" and "nIn < length (vin tx)"
    and "fHashSingle m \<Longrightarrow> \<not> fHashNone m \<and> nIn < length (vout tx)"
  shows "SignatureSerializer m tx scriptCode nIn =
    SerializeTransaction 0 (signed_tx m tx (snd (FindAndDelete scriptCode [OP_CODESEPARATOR])) nIn)"
proof -
  let ?t = "signed_tx m tx (snd (FindAndDelete scriptCode [OP_CODESEPARATOR])) nIn"
  have l: "length (vin ?t) = (if fAnyoneCanPay m then 1 else length (vin tx))"
    "length (vout ?t) = (if fHashNone m then 0 else if fHashSingle m then nIn + 1 else length (vout tx))"
    by (simp_all add: signed_tx_def)
  have f: "n32bitVersion ?t = n32bitVersion tx" "tx_tail ?t = tx_tail tx"
    by (simp_all add: signed_tx_def n32bitVersion_def tx_tail_def special_tx_def)
  have i: "concat (map (SerializeInput m tx scriptCode nIn) [0..<length (vin ?t)]) = concat (map Serialize_CTxIn (vin ?t))"
    using SerializeInput_all [OF assms(1), of m tx nIn] l(1) by simp
  have o: "concat (map (SerializeOutput m tx nIn) [0..<length (vout ?t)]) = concat (map Serialize_CTxOut (vout ?t))"
    using SerializeOutput_all [OF assms(4)] l(2) by simp
  have "SignatureSerializer m tx scriptCode nIn = Serialize_signed 4 (n32bitVersion tx) @
      WriteCompactSize (length (vin ?t)) @ concat (map (SerializeInput m tx scriptCode nIn) [0..<length (vin ?t)]) @
      WriteCompactSize (length (vout ?t)) @ concat (map (SerializeOutput m tx nIn) [0..<length (vout ?t)]) @ tx_tail tx"
    unfolding l by (simp add: SignatureSerializer_def tx_tail_def special_tx_def Let_def)
  then show ?thesis
    using signed_tx_no_witness [OF assms(2,3)] unfolding i o
    by (simp add: SerializeTransaction_plain f Serialize_vec_def)
qed

lemma old_inputs_eq:
  "nIn < length (vin tx) \<Longrightarrow> old_inputs m code tx nIn = map (signed_input m tx code nIn) [0..<length (vin tx)]"
  by (intro nth_equalityI) (auto simp: old_inputs_def signed_input_def nth_list_update Let_def)

lemma SignatureHashOld_eq:
  assumes "nIn < length (vin tx)" and "fHashSingle (hash_mode h) \<Longrightarrow> nIn < length (vout tx)"
  shows "SignatureHashOld cr scriptCode tx nIn h =
    CHash256 cr (SerializeTransaction 0 (signed_tx (hash_mode h) tx (snd (FindAndDelete scriptCode [OP_CODESEPARATOR])) nIn) @
                 Serialize_signed 4 h)"
  using assms hash_mode_exclusive [of h]
  by (simp add: SignatureHashOld_def old_inputs_eq signed_tx_def Let_def) auto

text \<open>C10. The signature serializer, which never copies the transaction, gives the hash of the old
  definition that copies it, blanks scripts, sequences and outputs and serialises the copy, for
  every hash type and every script code that can be parsed.\<close>

theorem SignatureHash_is_old:
  assumes "parses scriptCode" and "\<not> HasWitness tx" and "nIn < length (vin tx)"
  shows "SignatureHash cr scriptCode tx nIn nHashType amount SIGVERSION_BASE cache =
    Inr (SignatureHashOld cr scriptCode tx nIn nHashType)"
proof (cases "fHashSingle (hash_mode nHashType) \<and> nIn \<ge> length (vout tx)")
  case True
  then show ?thesis using assms(3) hash_mode_exclusive [of nHashType]
    by (simp add: SignatureHash_def SignatureHashOld_def Let_def)
next
  case False
  then have "SignatureSerializer (hash_mode nHashType) tx scriptCode nIn =
      SerializeTransaction 0 (signed_tx (hash_mode nHashType) tx (snd (FindAndDelete scriptCode [OP_CODESEPARATOR])) nIn)"
    using hash_mode_exclusive [of nHashType] by (intro SignatureSerializer_eq assms) auto
  moreover have "SignatureHashOld cr scriptCode tx nIn nHashType = CHash256 cr (SerializeTransaction 0
      (signed_tx (hash_mode nHashType) tx (snd (FindAndDelete scriptCode [OP_CODESEPARATOR])) nIn) @ Serialize_signed 4 nHashType)"
    using False by (intro SignatureHashOld_eq assms) auto
  ultimately show ?thesis using False assms(3) by (auto simp: SignatureHash_def)
qed

theorem SignatureHash_is_old_witness:
  "let tx = sample_tx\<lparr>vin := map strip_witness (vin sample_tx)\<rparr> in
   SignatureHash plain_crypto [OP_DUP, OP_CODESEPARATOR, OP_CHECKSIG] tx 0 0x83 0 SIGVERSION_BASE None =
   Inr (SignatureHashOld plain_crypto [OP_DUP, OP_CODESEPARATOR, OP_CHECKSIG] tx 0 0x83)"
proof -
  let ?tx = "sample_tx\<lparr>vin := map strip_witness (vin sample_tx)\<rparr>"
  have "parses [OP_DUP, OP_CODESEPARATOR, OP_CHECKSIG]" by code_simp
  moreover have "\<not> HasWitness ?tx" "0 < length (vin ?tx)" by (simp_all add: HasWitness_def sample_tx_def)
  ultimately show ?thesis
    using SignatureHash_is_old [of _ ?tx 0 plain_crypto "0x83" 0 None] by (simp add: Let_def)
qed

subsection \<open>The precomputed hashes\<close>

text \<open>Signature hashes computed with the precomputed data of the same transaction are the ones
  computed without it, and a hash is returned for every input of the transaction.\<close>

theorem SignatureHash_cached:
  "SignatureHash cr scriptCode tx nIn nHashType amount sigversion (Some (PrecomputedTransactionData_of cr tx)) =
   SignatureHash cr scriptCode tx nIn nHashType amount sigversion None \<and>
   ((\<exists>h. SignatureHash cr scriptCode tx nIn nHashType amount sigversion None = Inr h) = (nIn < length (vin tx)))"
proof
  have "witness_preimage cr scriptCode tx nIn nHashType amount (Some (PrecomputedTransactionData_of cr tx)) =
      witness_preimage cr scriptCode tx nIn nHashType amount None"
    by (simp add: witness_preimage_def PrecomputedTransactionData_of_def Let_def)
  then show "SignatureHash cr scriptCode tx nIn nHashType amount sigversion (Some (PrecomputedTransactionData_of cr tx)) =
      SignatureHash cr scriptCode tx nIn nHashType amount sigversion None"
    by (simp add: SignatureHash_def)
qed (auto simp: SignatureHash_def assertR_def)

text \<open>The witness signature hash covers neither the type nor the extra payload of a transaction.\<close>

theorem witness_sighash_ignores_payload:
  "SignatureHash cr scriptCode (tx\<lparr>nType := t, vExtraPayload := p\<rparr>) nIn nHashType amount SIGVERSION_WITNESS_V0 None =
   SignatureHash cr scriptCode tx nIn nHashType amount SIGVERSION_WITNESS_V0 None"
  by (simp add: SignatureHash_def witness_preimage_def GetPrevoutHash_def GetSequenceHash_def GetOutputsHash_def Let_def)

subsection \<open>The checker's totality\<close>

lemma checker_total:
  "nIn < length (vin tx) \<Longrightarrow> total_checker (TransactionSignatureChecker cr Verify tx nIn amount txdata)"
  by (auto simp: total_checker_def TransactionSignatureChecker_def tx_CheckSig_def tx_CheckLockTime_def
      tx_CheckSequence_def SignatureHash_def Let_def split: option.splits)

lemma tx_CheckLockTime_iff:
  assumes "nIn < length (vin tx)"
  shows "tx_CheckLockTime tx nIn n = Inr True \<longleftrightarrow>
    (uint (nLockTime tx) < LOCKTIME_THRESHOLD \<longleftrightarrow> n < LOCKTIME_THRESHOLD) \<and> n \<le> uint (nLockTime tx) \<and>
    nSequence (vin tx ! nIn) \<noteq> SEQUENCE_FINAL"
  using assms by (auto simp: tx_CheckLockTime_def Let_def)

lemma tx_CheckSequence_iff:
  assumes "nIn < length (vin tx)"
  shows "tx_CheckSequence tx nIn n = Inr True \<longleftrightarrow>
    2 \<le> tx_nVersion tx mod 2 ^ 32 \<and> nSequence (vin tx ! nIn) AND SEQUENCE_LOCKTIME_DISABLE_FLAG = 0 \<and>
    (let mask = SEQUENCE_LOCKTIME_TYPE_FLAG OR SEQUENCE_LOCKTIME_MASK; s = uint (nSequence (vin tx ! nIn) AND mask);
         r = n AND uint mask in
     (s < uint SEQUENCE_LOCKTIME_TYPE_FLAG \<longleftrightarrow> r < uint SEQUENCE_LOCKTIME_TYPE_FLAG) \<and> r \<le> s)"
  using assms by (auto simp: tx_CheckSequence_def Let_def)

end
