(* ===== verification/Regex.thy ===== *)
theory Regex
  imports Text_Prelude
begin

text \<open>
  The part of \<open>std::regex\<close> that \<open>src/src/assets/assets.cpp\<close> uses: character classes, their complements,
  alternatives, sequences and repetition, with \<open>std::regex_match\<close> asking for a match of the whole
  string. The matcher takes derivatives; \<open>regex_match_lang\<close> says that it decides the language of the
  expression, which is what a backtracking search for a full match decides too. The dot of the
  source matches every character but the line terminators.
\<close>

datatype rexp =
    Zero
  | One
  | Cls string
  | NCls string
  | Alt rexp rexp
  | Seq rexp rexp
  | Star rexp

subsection \<open>Languages\<close>

inductive_set star_lang :: "string set \<Rightarrow> string set" for A where
  star_Nil: "[] \<in> star_lang A"
| star_app: "u \<in> A \<Longrightarrow> v \<in> star_lang A \<Longrightarrow> u @ v \<in> star_lang A"

primrec lang :: "rexp \<Rightarrow> string set" where
  "lang Zero = {}"
| "lang One = {[]}"
| "lang (Cls cs) = {[c] | c. c \<in> set cs}"
| "lang (NCls cs) = {[c] | c. c \<notin> set cs}"
| "lang (Alt r s) = lang r \<union> lang s"
| "lang (Seq r s) = {u @ v | u v. u \<in> lang r \<and> v \<in> lang s}"
| "lang (Star r) = star_lang (lang r)"

subsection \<open>The matcher\<close>

primrec nullable :: "rexp \<Rightarrow> bool" where
  "nullable Zero = False"
| "nullable One = True"
| "nullable (Cls cs) = False"
| "nullable (NCls cs) = False"
| "nullable (Alt r s) = (nullable r \<or> nullable s)"
| "nullable (Seq r s) = (nullable r \<and> nullable s)"
| "nullable (Star r) = True"

definition alt :: "rexp \<Rightarrow> rexp \<Rightarrow> rexp" where
  "alt r s = (if r = Zero then s else if s = Zero \<or> r = s then r else Alt r s)"

definition sequ :: "rexp \<Rightarrow> rexp \<Rightarrow> rexp" where
  "sequ r s = (if r = Zero \<or> s = Zero then Zero else if r = One then s else if s = One then r else Seq r s)"

primrec deriv :: "char \<Rightarrow> rexp \<Rightarrow> rexp" where
  "deriv c Zero = Zero"
| "deriv c One = Zero"
| "deriv c (Cls cs) = (if c \<in> set cs then One else Zero)"
| "deriv c (NCls cs) = (if c \<in> set cs then Zero else One)"
| "deriv c (Alt r s) = alt (deriv c r) (deriv c s)"
| "deriv c (Seq r s) = (if nullable r then alt (sequ (deriv c r) s) (deriv c s) else sequ (deriv c r) s)"
| "deriv c (Star r) = sequ (deriv c r) (Star r)"

definition regex_match :: "string \<Rightarrow> rexp \<Rightarrow> bool" where
  "regex_match s r = nullable (fold deriv s r)"

text \<open>Repetition at least once and at least three times, and the dot.\<close>

definition plus :: "rexp \<Rightarrow> rexp" where
  "plus r = Seq r (Star r)"

definition atleast :: "nat \<Rightarrow> rexp \<Rightarrow> rexp" where
  "atleast n r = ((Seq r) ^^ n) (Star r)"

definition dot :: rexp where
  "dot = NCls [CHR 0x0A, CHR 0x0D]"

primrec lit :: "string \<Rightarrow> rexp" where
  "lit [] = One"
| "lit (c # s) = Seq (Cls [c]) (lit s)"

subsection \<open>The matcher decides the language\<close>

lemma nullable_lang: "nullable r \<longleftrightarrow> [] \<in> lang r"
  by (induction r) (auto intro: star_Nil)

lemma alt_lang [simp]: "lang (alt r s) = lang r \<union> lang s"
  by (auto simp: alt_def)

lemma sequ_lang [simp]: "lang (sequ r s) = lang (Seq r s)"
  by (auto simp: sequ_def)

lemma star_Cons: "c # w \<in> star_lang A \<longleftrightarrow> (\<exists>u v. w = u @ v \<and> c # u \<in> A \<and> v \<in> star_lang A)"
proof
  show "\<exists>u v. w = u @ v \<and> c # u \<in> A \<and> v \<in> star_lang A" if "c # w \<in> star_lang A"
    using that
  proof (induction "c # w" arbitrary: c w rule: star_lang.induct)
    case (star_app u v)
    then show ?case by (cases u) auto
  qed
next
  assume "\<exists>u v. w = u @ v \<and> c # u \<in> A \<and> v \<in> star_lang A"
  then obtain u v where "w = u @ v" "c # u \<in> A" "v \<in> star_lang A" by blast
  then show "c # w \<in> star_lang A" using star_app [of "c # u" A v] by simp
qed

lemma Seq_Cons:
  "c # w \<in> lang (Seq r s) \<longleftrightarrow>
     (\<exists>u v. w = u @ v \<and> c # u \<in> lang r \<and> v \<in> lang s) \<or> ([] \<in> lang r \<and> c # w \<in> lang s)"
  by (simp add: Cons_eq_append_conv) blast

lemma deriv_lang: "w \<in> lang (deriv c r) \<longleftrightarrow> c # w \<in> lang r"
proof (induction r arbitrary: w)
  case (Seq r s)
  then show ?case by (auto simp: Seq_Cons nullable_lang simp del: lang.simps(6)) (auto)
next
  case (Star r)
  then show ?case by (auto simp: star_Cons)
qed auto

lemma regex_match_lang: "regex_match s r \<longleftrightarrow> s \<in> lang r"
  unfolding regex_match_def
proof (induction s arbitrary: r)
  case (Cons c s)
  then show ?case by (simp add: deriv_lang)
qed (simp add: nullable_lang)

subsection \<open>Languages of the common shapes\<close>

lemma star_cls: "w \<in> star_lang {[c] | c. P c} \<longleftrightarrow> (\<forall>c \<in> set w. P c)"
  by (induction w) (auto simp: star_Cons intro: star_Nil)

lemma lang_star_cls [simp]:
  "w \<in> lang (Star (Cls cs)) \<longleftrightarrow> set w \<subseteq> set cs"
  "w \<in> lang (Star (NCls cs)) \<longleftrightarrow> set w \<inter> set cs = {}"
  by (auto simp: star_cls)

lemma lang_seq_cls [simp]:
  "c # w \<in> lang (Seq (Cls cs) r) \<longleftrightarrow> c \<in> set cs \<and> w \<in> lang r"
  "c # w \<in> lang (Seq (NCls cs) r) \<longleftrightarrow> c \<notin> set cs \<and> w \<in> lang r"
  "[] \<notin> lang (Seq (Cls cs) r)" "[] \<notin> lang (Seq (NCls cs) r)"
  by (simp_all only: Seq_Cons) auto

lemma lang_plus_cls:
  "w \<in> lang (plus (Cls cs)) \<longleftrightarrow> w \<noteq> [] \<and> set w \<subseteq> set cs"
  "w \<in> lang (plus (NCls cs)) \<longleftrightarrow> w \<noteq> [] \<and> set w \<inter> set cs = {}"
  unfolding plus_def by (cases w; simp del: lang.simps)+

lemma lang_atleast_cls: "w \<in> lang (atleast n (Cls cs)) \<longleftrightarrow> n \<le> length w \<and> set w \<subseteq> set cs"
  unfolding atleast_def
proof (induction n arbitrary: w)
  case (Suc n)
  then show ?case by (cases w) (auto simp del: lang.simps)
qed (simp del: lang.simps)

lemma lang_lit [simp]: "w \<in> lang (lit s) \<longleftrightarrow> w = s"
proof (induction s arbitrary: w)
  case (Cons c s)
  then show ?case by (cases w) (auto simp del: lang.simps)
qed simp

end
