(* ===== verification/Asset_Names.thy ===== *)
theory Asset_Names
  imports Regex
begin

text \<open>
  The names of assets: the first part of \<open>src/src/assets/assets.cpp\<close>, from the regular expressions to
  \<open>GetUniqueAssetName\<close>. \<open>boost::split\<close> is the parameter \<open>split\<close>, a function of the delimiter and the
  string; \<open>splits\<close> states its documented behaviour. The result of \<open>IsAssetNameValid\<close> is the message,
  where it returns false, or the type it stores, where it returns true.
\<close>

datatype AssetType =
    ROOT | SUB | UNIQUE | MSGCHANNEL | QUALIFIER | SUB_QUALIFIER | RESTRICTED | VOTE | REISSUE | OWNER
  | NULL_ADD_QUALIFIER | INVALID

type_synonym splitter = "char \<Rightarrow> string \<Rightarrow> string list"

subsection \<open>Patterns\<close>

definition UPPER :: string where "UPPER = ''ABCDEFGHIJKLMNOPQRSTUVWXYZ''"
definition LOWER :: string where "LOWER = ''abcdefghijklmnopqrstuvwxyz''"
definition DIGITS :: string where "DIGITS = ''0123456789''"
definition NAME_CHARS :: string where "NAME_CHARS = UPPER @ DIGITS @ ''._''"

definition MAX_NAME_LENGTH :: nat where "MAX_NAME_LENGTH = 31"
definition MAX_CHANNEL_NAME_LENGTH :: nat where "MAX_CHANNEL_NAME_LENGTH = 12"
definition MIN_ASSET_LENGTH :: nat where "MIN_ASSET_LENGTH = 3"

definition ROOT_NAME_CHARACTERS :: rexp where "ROOT_NAME_CHARACTERS = atleast 3 (Cls NAME_CHARS)"
definition SUB_NAME_CHARACTERS :: rexp where "SUB_NAME_CHARACTERS = plus (Cls NAME_CHARS)"
definition UNIQUE_TAG_CHARACTERS :: rexp where
  "UNIQUE_TAG_CHARACTERS = plus (Cls (''-'' @ UPPER @ LOWER @ DIGITS @ ''@$%&*()[]{}_.?:''))"
definition MSGCHANNEL_TAG_CHARACTERS :: rexp where
  "MSGCHANNEL_TAG_CHARACTERS = plus (Cls (UPPER @ LOWER @ DIGITS @ ''_''))"
definition VOTE_TAG_CHARACTERS :: rexp where "VOTE_TAG_CHARACTERS = plus (Cls NAME_CHARS)"
definition QUALIFIER_NAME_CHARACTERS :: rexp where
  "QUALIFIER_NAME_CHARACTERS = Seq (Cls ''#'') (atleast 3 (Cls NAME_CHARS))"
definition SUB_QUALIFIER_NAME_CHARACTERS :: rexp where
  "SUB_QUALIFIER_NAME_CHARACTERS = Seq (Cls ''#'') (plus (Cls NAME_CHARS))"
definition RESTRICTED_NAME_CHARACTERS :: rexp where
  "RESTRICTED_NAME_CHARACTERS = Seq (Cls ''$'') (atleast 3 (Cls NAME_CHARS))"
definition DOUBLE_PUNCTUATION :: rexp where
  "DOUBLE_PUNCTUATION = Seq (Star dot) (Seq (atleast 2 (Cls ''._'')) (Star dot))"
definition LEADING_PUNCTUATION :: rexp where "LEADING_PUNCTUATION = Seq (Cls ''._'') (Star dot)"
definition TRAILING_PUNCTUATION :: rexp where "TRAILING_PUNCTUATION = Seq (Star dot) (Cls ''._'')"
definition QUALIFIER_LEADING_PUNCTUATION :: rexp where
  "QUALIFIER_LEADING_PUNCTUATION = Seq (Cls ''#$'') (Seq (Cls ''._'') (Star dot))"
definition UNIQUE_INDICATOR :: rexp where
  "UNIQUE_INDICATOR = Seq (plus (NCls ''^~#!'')) (Seq (Cls ''#'') (plus (NCls ''~#!/'')))"
definition MSGCHANNEL_INDICATOR :: rexp where
  "MSGCHANNEL_INDICATOR = Seq (plus (NCls ''^~#!'')) (Seq (Cls ''~'') (plus (NCls ''~#!/'')))"
definition OWNER_INDICATOR :: rexp where
  "OWNER_INDICATOR = Seq (plus (NCls ''^~#!'')) (Cls ''!'')"
definition VOTE_INDICATOR :: rexp where
  "VOTE_INDICATOR = Seq (plus (NCls ''^~#!'')) (Seq (Cls ''^'') (plus (NCls ''~#!/'')))"
definition QUALIFIER_INDICATOR :: rexp where
  "QUALIFIER_INDICATOR = Seq (Cls ''#'') (atleast 3 (Cls NAME_CHARS))"
definition SUB_QUALIFIER_INDICATOR :: rexp where
  "SUB_QUALIFIER_INDICATOR =
     Seq (Cls ''#'') (Seq (plus (Cls NAME_CHARS)) (Seq (Cls ''/'') (Seq (Cls ''#'') (plus (Cls NAME_CHARS)))))"
definition RESTRICTED_INDICATOR :: rexp where
  "RESTRICTED_INDICATOR = Seq (Cls ''$'') (atleast 3 (Cls NAME_CHARS))"
definition RAVENCASH_NAMES :: rexp where
  "RAVENCASH_NAMES = foldr Alt (map lit [''RVN'', ''RAVEN'', ''RAVENCOIN'', ''#RVN'', ''#RAVEN'', ''#RAVENCOIN'',
     ''RVH'', ''RVH'', ''RAVENCASH'', ''RAVENCASHCOIN'', ''#RVH'', ''#RAVENCASH'', ''#RAVENCASHCOIN'']) Zero"

subsection \<open>Parts of names\<close>

definition IsRootNameValid :: "string \<Rightarrow> bool" where
  "IsRootNameValid name \<longleftrightarrow> regex_match name ROOT_NAME_CHARACTERS \<and> \<not> regex_match name DOUBLE_PUNCTUATION \<and>
     \<not> regex_match name LEADING_PUNCTUATION \<and> \<not> regex_match name TRAILING_PUNCTUATION \<and>
     \<not> regex_match name RAVENCASH_NAMES"

definition IsQualifierNameValid :: "string \<Rightarrow> bool" where
  "IsQualifierNameValid name \<longleftrightarrow> regex_match name QUALIFIER_NAME_CHARACTERS \<and> \<not> regex_match name DOUBLE_PUNCTUATION \<and>
     \<not> regex_match name QUALIFIER_LEADING_PUNCTUATION \<and> \<not> regex_match name TRAILING_PUNCTUATION \<and>
     \<not> regex_match name RAVENCASH_NAMES"

definition IsRestrictedNameValid :: "string \<Rightarrow> bool" where
  "IsRestrictedNameValid name \<longleftrightarrow> regex_match name RESTRICTED_NAME_CHARACTERS \<and> \<not> regex_match name DOUBLE_PUNCTUATION \<and>
     \<not> regex_match name LEADING_PUNCTUATION \<and> \<not> regex_match name TRAILING_PUNCTUATION \<and>
     \<not> regex_match name RAVENCASH_NAMES"

definition IsSubQualifierNameValid :: "string \<Rightarrow> bool" where
  "IsSubQualifierNameValid name \<longleftrightarrow> regex_match name SUB_QUALIFIER_NAME_CHARACTERS \<and>
     \<not> regex_match name DOUBLE_PUNCTUATION \<and> \<not> regex_match name LEADING_PUNCTUATION \<and>
     \<not> regex_match name TRAILING_PUNCTUATION"

definition IsSubNameValid :: "string \<Rightarrow> bool" where
  "IsSubNameValid name \<longleftrightarrow> regex_match name SUB_NAME_CHARACTERS \<and> \<not> regex_match name DOUBLE_PUNCTUATION \<and>
     \<not> regex_match name LEADING_PUNCTUATION \<and> \<not> regex_match name TRAILING_PUNCTUATION"

definition IsUniqueTagValid :: "string \<Rightarrow> bool" where
  "IsUniqueTagValid tag \<longleftrightarrow> regex_match tag UNIQUE_TAG_CHARACTERS"

definition IsVoteTagValid :: "string \<Rightarrow> bool" where
  "IsVoteTagValid tag \<longleftrightarrow> regex_match tag VOTE_TAG_CHARACTERS"

definition IsMsgChannelTagValid :: "string \<Rightarrow> bool" where
  "IsMsgChannelTagValid tag \<longleftrightarrow> regex_match tag MSGCHANNEL_TAG_CHARACTERS \<and> \<not> regex_match tag DOUBLE_PUNCTUATION \<and>
     \<not> regex_match tag LEADING_PUNCTUATION \<and> \<not> regex_match tag TRAILING_PUNCTUATION"

definition IsNameValidBeforeTag :: "splitter \<Rightarrow> string \<Rightarrow> bool" where
  "IsNameValidBeforeTag split name =
     (let parts = split CHR ''/'' name in
      if \<not> IsRootNameValid (hd parts) then False
      else if 1 < length parts then list_all IsSubNameValid (tl parts)
      else True)"

definition IsQualifierNameValidBeforeTag :: "splitter \<Rightarrow> string \<Rightarrow> bool" where
  "IsQualifierNameValidBeforeTag split name =
     (let parts = split CHR ''/'' name in
      if \<not> IsQualifierNameValid (hd parts) then False
      else if 2 < length parts then False
      else if 1 < length parts then list_all IsSubQualifierNameValid (tl parts)
      else True)"

definition IsAssetNameASubasset :: "splitter \<Rightarrow> string \<Rightarrow> bool" where
  "IsAssetNameASubasset split name =
     (let parts = split CHR ''/'' name in if \<not> IsRootNameValid (hd parts) then False else 1 < length parts)"

definition IsAssetNameASubQualifier :: "splitter \<Rightarrow> string \<Rightarrow> bool" where
  "IsAssetNameASubQualifier split name =
     (let parts = split CHR ''/'' name in if \<not> IsQualifierNameValid (hd parts) then False else 1 < length parts)"

subsection \<open>Whole names\<close>

definition too_long :: string where "too_long = ''Name is greater than max length of 31''"

definition IsTypeCheckNameValid :: "splitter \<Rightarrow> AssetType \<Rightarrow> string \<Rightarrow> string + unit" where
  "IsTypeCheckNameValid split type name =
     (if type = UNIQUE then
        (if length name > MAX_NAME_LENGTH then Inl too_long
         else let parts = split CHR ''#'' name in
           if \<not> (IsNameValidBeforeTag split (hd parts) \<and> IsUniqueTagValid (last parts))
           then Inl ''Unique name contains invalid characters (Valid characters are: A-Z a-z 0-9 @ $ % & * ( ) [ ] { } _ . ? : -)''
           else Inr ())
      else if type = MSGCHANNEL then
        (if length name > MAX_NAME_LENGTH then Inl too_long
         else let parts = split CHR ''~'' name;
                  valid = (IsNameValidBeforeTag split (hd parts) \<and> IsMsgChannelTagValid (last parts)) in
           if length (last parts) > MAX_CHANNEL_NAME_LENGTH then Inl ''Channel name is greater than max length of 12''
           else if \<not> valid then Inl ''Message Channel name contains invalid characters (Valid characters are: A-Z 0-9 _ .) (special characters can't be the first or last characters)''
           else Inr ())
      else if type = OWNER then
        (if length name > MAX_NAME_LENGTH then Inl too_long
         else if \<not> IsNameValidBeforeTag split (take (length name - 1) name)
         then Inl ''Owner name contains invalid characters (Valid characters are: A-Z 0-9 _ .) (special characters can't be the first or last characters)''
         else Inr ())
      else if type = VOTE then
        (if length name > MAX_NAME_LENGTH then Inl too_long
         else let parts = split CHR ''^'' name in
           if \<not> (IsNameValidBeforeTag split (hd parts) \<and> IsVoteTagValid (last parts))
           then Inl ''Vote name contains invalid characters (Valid characters are: A-Z 0-9 _ .) (special characters can't be the first or last characters)''
           else Inr ())
      else if type = QUALIFIER \<or> type = SUB_QUALIFIER then
        (if length name > MAX_NAME_LENGTH then Inl too_long
         else if \<not> IsQualifierNameValidBeforeTag split name
         then Inl ''Qualifier name contains invalid characters (Valid characters are: A-Z 0-9 _ .) (# must be the first character, _ . special characters can't be the first or last characters)''
         else Inr ())
      else if type = RESTRICTED then
        (if length name > MAX_NAME_LENGTH then Inl too_long
         else if \<not> IsRestrictedNameValid name
         then Inl ''Restricted name contains invalid characters (Valid characters are: A-Z 0-9 _ .) ($ must be the first character, _ . special characters can't be the first or last characters)''
         else Inr ())
      else
        (if length name > MAX_NAME_LENGTH - 1 then Inl ''Name is greater than max length of 30''
         else if \<not> IsAssetNameASubasset split name \<and> length name < MIN_ASSET_LENGTH
         then Inl ''Name must be contain 3 characters''
         else let valid = IsNameValidBeforeTag split name in
           if \<not> valid \<and> IsAssetNameASubasset split name \<and> length name < 3
           then Inl ''Name must have at least 3 characters (Valid characters are: A-Z 0-9 _ .)''
           else if \<not> valid
           then Inl ''Name contains invalid characters (Valid characters are: A-Z 0-9 _ .) (special characters can't be the first or last characters)''
           else Inr ()))"

definition IsAssetNameValid :: "splitter \<Rightarrow> string \<Rightarrow> string + AssetType" where
  "IsAssetNameValid split name =
     (if length name > 40 then Inl ''''
      else if regex_match name UNIQUE_INDICATOR then
        bindR (IsTypeCheckNameValid split UNIQUE name) (\<lambda>_. Inr UNIQUE)
      else if regex_match name MSGCHANNEL_INDICATOR then
        bindR (IsTypeCheckNameValid split MSGCHANNEL name) (\<lambda>_. Inr MSGCHANNEL)
      else if regex_match name OWNER_INDICATOR then
        bindR (IsTypeCheckNameValid split OWNER name) (\<lambda>_. Inr OWNER)
      else if regex_match name VOTE_INDICATOR then
        bindR (IsTypeCheckNameValid split VOTE name) (\<lambda>_. Inr VOTE)
      else if regex_match name QUALIFIER_INDICATOR then
        bindR (IsTypeCheckNameValid split QUALIFIER name) (\<lambda>_.
          Inr (if IsAssetNameASubQualifier split name then SUB_QUALIFIER else QUALIFIER))
      else if regex_match name SUB_QUALIFIER_INDICATOR then
        bindR (IsTypeCheckNameValid split SUB_QUALIFIER name) (\<lambda>_.
          Inr (if IsAssetNameASubQualifier split name then SUB_QUALIFIER else INVALID))
      else if regex_match name RESTRICTED_INDICATOR then
        bindR (IsTypeCheckNameValid split RESTRICTED name) (\<lambda>_. Inr RESTRICTED)
      else
        let type = (if IsAssetNameASubasset split name then SUB else ROOT) in
        bindR (IsTypeCheckNameValid split type name) (\<lambda>_. Inr type))"

definition name_valid :: "splitter \<Rightarrow> string \<Rightarrow> bool" where
  "name_valid split name = (\<not> isl (IsAssetNameValid split name))"

definition IsAssetNameARoot :: "splitter \<Rightarrow> string \<Rightarrow> bool" where
  "IsAssetNameARoot split name \<longleftrightarrow> IsAssetNameValid split name = Inr ROOT"

definition IsAssetNameAnOwner :: "splitter \<Rightarrow> string \<Rightarrow> bool" where
  "IsAssetNameAnOwner split name \<longleftrightarrow> name_valid split name \<and> regex_match name OWNER_INDICATOR"

definition IsAssetNameAnRestricted :: "splitter \<Rightarrow> string \<Rightarrow> bool" where
  "IsAssetNameAnRestricted split name \<longleftrightarrow> name_valid split name \<and> regex_match name RESTRICTED_INDICATOR"

definition IsAssetNameAQualifier :: "splitter \<Rightarrow> string \<Rightarrow> bool \<Rightarrow> bool" where
  "IsAssetNameAQualifier split name fOnlyQualifiers =
     (if fOnlyQualifiers then name_valid split name \<and> regex_match name QUALIFIER_INDICATOR
      else name_valid split name \<and>
        (regex_match name QUALIFIER_INDICATOR \<or> regex_match name SUB_QUALIFIER_INDICATOR))"

definition IsAssetNameAnMsgChannel :: "splitter \<Rightarrow> string \<Rightarrow> bool" where
  "IsAssetNameAnMsgChannel split name \<longleftrightarrow> name_valid split name \<and> regex_match name MSGCHANNEL_INDICATOR"

definition RestrictedNameToOwnerName :: "splitter \<Rightarrow> string \<Rightarrow> string" where
  "RestrictedNameToOwnerName split name =
     (if \<not> IsAssetNameAnRestricted split name then '''' else drop 1 name @ ''!'')"

text \<open>\<open>find_last_of\<close> with a one-character set, \<open>None\<close> for \<open>npos\<close>.\<close>

definition find_last_of :: "char \<Rightarrow> string \<Rightarrow> nat option" where
  "find_last_of c name =
     (if c \<in> set name then Some (length name - 1 - length (takeWhile (\<lambda>d. d \<noteq> c) (rev name))) else None)"

definition GetParentName :: "splitter \<Rightarrow> string \<Rightarrow> string" where
  "GetParentName split name =
     (case IsAssetNameValid split name of
        Inl _ \<Rightarrow> ''''
      | Inr type \<Rightarrow>
          if type = ROOT \<or> type = QUALIFIER \<or> type = RESTRICTED then name
          else
            let index = (if type = SUB then find_last_of CHR ''/'' name
                         else if type = UNIQUE then find_last_of CHR ''#'' name
                         else if type = MSGCHANNEL then find_last_of CHR ''~'' name
                         else if type = VOTE then find_last_of CHR ''^'' name
                         else if type = SUB_QUALIFIER then find_last_of CHR ''/'' name
                         else None) in
            case index of Some i \<Rightarrow> take i name | None \<Rightarrow> name)"

definition GetUniqueAssetName :: "splitter \<Rightarrow> string \<Rightarrow> string \<Rightarrow> string" where
  "GetUniqueAssetName split parent tag =
     (let unique = parent @ ''#'' @ tag in
      case IsAssetNameValid split unique of
        Inl _ \<Rightarrow> ''''
      | Inr type \<Rightarrow> if type \<noteq> UNIQUE then '''' else unique)"

subsection \<open>Splitting\<close>

fun join :: "char \<Rightarrow> string list \<Rightarrow> string" where
  "join c [] = []"
| "join c [p] = p"
| "join c (p # q # ps) = p @ c # join c (q # ps)"

text \<open>The documented behaviour of \<open>boost::split\<close> with a single delimiter and no token compression:
  the parts, joined by the delimiter, are the string, and none of them contains it.\<close>

definition splits :: "splitter \<Rightarrow> bool" where
  "splits f \<longleftrightarrow> (\<forall>c s. f c s \<noteq> [] \<and> join c (f c s) = s \<and> (\<forall>p \<in> set (f c s). c \<notin> set p))"

fun split_at :: "char \<Rightarrow> string \<Rightarrow> string list" where
  "split_at c [] = [[]]"
| "split_at c (d # s) =
     (if d = c then [] # split_at c s else (d # hd (split_at c s)) # tl (split_at c s))"

lemma split_at_nonempty [simp]: "split_at c s \<noteq> []"
  by (induction s) auto

lemma join_Cons: "ps \<noteq> [] \<Longrightarrow> join c (p # ps) = p @ c # join c ps"
  by (cases ps) simp_all

lemma split_at_join: "ps \<noteq> [] \<Longrightarrow> \<forall>p \<in> set ps. c \<notin> set p \<Longrightarrow> split_at c (join c ps) = ps"
proof (induction ps rule: join.induct)
  case (2 c p)
  then have "c \<notin> set p" by simp
  then show ?case by (induction p) auto
next
  case (3 c p q ps)
  have "split_at c (p @ c # w) = p # split_at c w" if "c \<notin> set p" for w
    using that by (induction p) auto
  then show ?case using 3 by simp
qed simp

lemma join_split_at: "join c (split_at c s) = s \<and> (\<forall>p \<in> set (split_at c s). c \<notin> set p)"
proof (induction s)
  case (Cons d s)
  obtain p ps where e: "split_at c s = p # ps" by (cases "split_at c s") auto
  with Cons show ?case by (cases ps) auto
qed simp

lemma splits_split_at: "splits split_at"
  using join_split_at by (simp add: splits_def)

lemma splits_unique: "splits f \<Longrightarrow> f = split_at"
proof (intro ext)
  fix c s
  assume "splits f"
  then have "f c s \<noteq> []" "join c (f c s) = s" "\<forall>p \<in> set (f c s). c \<notin> set p"
    by (auto simp: splits_def)
  then show "f c s = split_at c s" using split_at_join [of "f c s" c] by simp
qed

lemma split_at_absent: "c \<notin> set s \<Longrightarrow> split_at c s = [s]"
  using split_at_join [of "[s]" c] by simp

lemma split_at_one: "c \<notin> set p \<Longrightarrow> split_at c (p @ c # t) = p # split_at c t"
  by (induction p) auto

lemma split_at_length: "length (split_at c s) = 1 \<longleftrightarrow> c \<notin> set s"
proof (induction s)
  case (Cons d s)
  then show ?case by (cases "split_at c s") auto
qed simp

lemma split_at_snoc:
  "c \<notin> set t \<Longrightarrow> split_at c (p @ c # t) = split_at c p @ [t]"
proof (induction p)
  case (Cons d p)
  then show ?case by (cases "split_at c p") auto
qed (simp add: split_at_absent)

subsection \<open>Languages of the patterns\<close>

lemma NAME_CHARS_clean: "set NAME_CHARS \<inter> set ''^~#!/$'' = {}"
  by (simp add: NAME_CHARS_def UPPER_def DIGITS_def)

lemma root_chars: "IsRootNameValid p \<Longrightarrow> 3 \<le> length p \<and> set p \<subseteq> set NAME_CHARS"
  by (simp add: IsRootNameValid_def ROOT_NAME_CHARACTERS_def regex_match_lang lang_atleast_cls)

lemma sub_chars: "IsSubNameValid p \<Longrightarrow> p \<noteq> [] \<and> set p \<subseteq> set NAME_CHARS"
  by (simp add: IsSubNameValid_def SUB_NAME_CHARACTERS_def regex_match_lang lang_plus_cls)

lemma qualifier_chars:
  "IsQualifierNameValid p \<Longrightarrow> \<exists>q. p = CHR ''#'' # q \<and> 3 \<le> length q \<and> set q \<subseteq> set NAME_CHARS"
  unfolding IsQualifierNameValid_def QUALIFIER_NAME_CHARACTERS_def regex_match_lang
  by (cases p) (auto simp: lang_atleast_cls simp del: lang.simps)

lemma sub_qualifier_chars:
  "IsSubQualifierNameValid p \<Longrightarrow> \<exists>q. p = CHR ''#'' # q \<and> q \<noteq> [] \<and> set q \<subseteq> set NAME_CHARS"
  unfolding IsSubQualifierNameValid_def SUB_QUALIFIER_NAME_CHARACTERS_def regex_match_lang
  by (cases p) (auto simp: lang_plus_cls simp del: lang.simps)

lemma restricted_chars:
  "IsRestrictedNameValid p \<Longrightarrow> \<exists>q. p = CHR ''$'' # q \<and> 3 \<le> length q \<and> set q \<subseteq> set NAME_CHARS"
  unfolding IsRestrictedNameValid_def RESTRICTED_NAME_CHARACTERS_def regex_match_lang
  by (cases p) (auto simp: lang_atleast_cls simp del: lang.simps)

lemma unique_tag_chars: "IsUniqueTagValid t \<Longrightarrow> t \<noteq> [] \<and> set t \<inter> set ''^~#!/'' = {}"
proof -
  have "set (''-'' @ UPPER @ LOWER @ DIGITS @ ''@$%&*()[]{}_.?:'') \<inter> set ''^~#!/'' = {}"
    by (simp add: UPPER_def LOWER_def DIGITS_def)
  then show "t \<noteq> [] \<and> set t \<inter> set ''^~#!/'' = {}" if "IsUniqueTagValid t"
    using that unfolding IsUniqueTagValid_def UNIQUE_TAG_CHARACTERS_def regex_match_lang lang_plus_cls by blast
qed

lemma channel_tag_chars: "IsMsgChannelTagValid t \<Longrightarrow> t \<noteq> [] \<and> set t \<inter> set ''^~#!/'' = {}"
proof -
  have "set (UPPER @ LOWER @ DIGITS @ ''_'') \<inter> set ''^~#!/'' = {}"
    by (simp add: UPPER_def LOWER_def DIGITS_def)
  then show "t \<noteq> [] \<and> set t \<inter> set ''^~#!/'' = {}" if "IsMsgChannelTagValid t"
    using that unfolding IsMsgChannelTagValid_def MSGCHANNEL_TAG_CHARACTERS_def regex_match_lang lang_plus_cls by blast
qed

lemma vote_tag_chars: "IsVoteTagValid t \<Longrightarrow> t \<noteq> [] \<and> set t \<subseteq> set NAME_CHARS"
  by (simp add: IsVoteTagValid_def VOTE_TAG_CHARACTERS_def regex_match_lang lang_plus_cls)

lemma tagged_indicator:
  "regex_match s (Seq (plus (NCls xs)) (Seq (Cls [c]) (plus (NCls ys)))) \<longleftrightarrow>
     (\<exists>p t. s = p @ c # t \<and> p \<noteq> [] \<and> set p \<inter> set xs = {} \<and> t \<noteq> [] \<and> set t \<inter> set ys = {})"
proof -
  have "v \<in> lang (Seq (Cls [c]) (plus (NCls ys))) \<longleftrightarrow> (\<exists>t. v = c # t \<and> t \<noteq> [] \<and> set t \<inter> set ys = {})" for v
    by (cases v) (auto simp: lang_plus_cls simp del: lang.simps)
  then show ?thesis
    unfolding regex_match_lang lang.simps(6) [of "plus _"] by (auto simp: lang_plus_cls simp del: lang.simps)
qed

lemmas indicator_simps =
  tagged_indicator [of _ "''^~#!''" "CHR ''#''" "''~#!/''", folded UNIQUE_INDICATOR_def]
  tagged_indicator [of _ "''^~#!''" "CHR ''~''" "''~#!/''", folded MSGCHANNEL_INDICATOR_def]
  tagged_indicator [of _ "''^~#!''" "CHR ''^''" "''~#!/''", folded VOTE_INDICATOR_def]

lemma owner_indicator:
  "regex_match s OWNER_INDICATOR \<longleftrightarrow> (\<exists>p. s = p @ ''!'' \<and> p \<noteq> [] \<and> set p \<inter> set ''^~#!'' = {})"
  unfolding OWNER_INDICATOR_def regex_match_lang lang.simps(6)
  by (auto simp: lang_plus_cls simp del: lang.simps(6))

lemma hash_indicator:
  "regex_match s QUALIFIER_INDICATOR \<longleftrightarrow> (\<exists>q. s = CHR ''#'' # q \<and> 3 \<le> length q \<and> set q \<subseteq> set NAME_CHARS)"
  unfolding QUALIFIER_INDICATOR_def regex_match_lang
  by (cases s) (auto simp: lang_atleast_cls simp del: lang.simps)

lemma restricted_indicator:
  "regex_match s RESTRICTED_INDICATOR \<longleftrightarrow> (\<exists>q. s = CHR ''$'' # q \<and> 3 \<le> length q \<and> set q \<subseteq> set NAME_CHARS)"
  unfolding RESTRICTED_INDICATOR_def regex_match_lang
  by (cases s) (auto simp: lang_atleast_cls simp del: lang.simps)

lemma sub_hash_indicator:
  "regex_match s SUB_QUALIFIER_INDICATOR \<longleftrightarrow>
     (\<exists>q r. s = CHR ''#'' # q @ CHR ''/'' # CHR ''#'' # r \<and> q \<noteq> [] \<and> set q \<subseteq> set NAME_CHARS \<and> r \<noteq> [] \<and> set r \<subseteq> set NAME_CHARS)"
proof -
  let ?t = "Seq (Cls ''/'') (Seq (Cls ''#'') (plus (Cls NAME_CHARS)))"
  have h: "v \<in> lang (Seq (Cls ''#'') (plus (Cls NAME_CHARS))) \<longleftrightarrow> (\<exists>r. v = CHR ''#'' # r \<and> r \<noteq> [] \<and> set r \<subseteq> set NAME_CHARS)" for v
    by (cases v) (auto simp: lang_plus_cls simp del: lang.simps)
  have t: "v \<in> lang ?t \<longleftrightarrow> (\<exists>r. v = CHR ''/'' # CHR ''#'' # r \<and> r \<noteq> [] \<and> set r \<subseteq> set NAME_CHARS)" for v
    by (cases v) (auto simp: h simp del: lang.simps)
  have m: "w \<in> lang (Seq (plus (Cls NAME_CHARS)) ?t) \<longleftrightarrow>
      (\<exists>q r. w = q @ CHR ''/'' # CHR ''#'' # r \<and> q \<noteq> [] \<and> set q \<subseteq> set NAME_CHARS \<and> r \<noteq> [] \<and> set r \<subseteq> set NAME_CHARS)" for w
    unfolding lang.simps(6) [of "plus _"] by (auto simp: lang_plus_cls t simp del: lang.simps)
  show ?thesis
    unfolding SUB_QUALIFIER_INDICATOR_def regex_match_lang by (cases s) (auto simp: m simp del: lang.simps)
qed

subsection \<open>A grammar of asset names\<close>

text \<open>
  The words of the grammar, in terms of character codes and independent of the patterns of the code. A
  plain word consists of capitals, digits and single punctuation marks and does not end with one; a
  label does not begin with one either.
\<close>

definition is_capital :: "char \<Rightarrow> bool" where
  "is_capital c \<longleftrightarrow> 65 \<le> (of_char c :: nat) \<and> (of_char c :: nat) \<le> 90"

definition is_small :: "char \<Rightarrow> bool" where
  "is_small c \<longleftrightarrow> 97 \<le> (of_char c :: nat) \<and> (of_char c :: nat) \<le> 122"

definition is_digit :: "char \<Rightarrow> bool" where
  "is_digit c \<longleftrightarrow> 48 \<le> (of_char c :: nat) \<and> (of_char c :: nat) \<le> 57"

definition punct :: "char \<Rightarrow> bool" where
  "punct c \<longleftrightarrow> c = CHR ''.'' \<or> c = CHR ''_''"

fun doubled :: "string \<Rightarrow> bool" where
  "doubled (c # d # w) = (punct c \<and> punct d \<or> doubled (d # w))"
| "doubled _ = False"

definition plain_word :: "string \<Rightarrow> bool" where
  "plain_word w \<longleftrightarrow> w \<noteq> [] \<and> (\<forall>c \<in> set w. is_capital c \<or> is_digit c \<or> punct c) \<and> \<not> doubled w \<and> \<not> punct (last w)"

definition label :: "string \<Rightarrow> bool" where
  "label w \<longleftrightarrow> plain_word w \<and> \<not> punct (hd w)"

definition reserved :: "string list" where
  "reserved = [''RVN'', ''RAVEN'', ''RAVENCOIN'', ''RVH'', ''RAVENCASH'', ''RAVENCASHCOIN'']"

definition root_label :: "string \<Rightarrow> bool" where
  "root_label w \<longleftrightarrow> label w \<and> 3 \<le> length w \<and> w \<notin> set reserved"

definition unique_tag :: "string \<Rightarrow> bool" where
  "unique_tag t \<longleftrightarrow> t \<noteq> [] \<and> (\<forall>c \<in> set t. is_capital c \<or> is_small c \<or> is_digit c \<or> c \<in> set ''-@$%&*()[]{}_.?:'')"

definition channel_tag :: "string \<Rightarrow> bool" where
  "channel_tag t \<longleftrightarrow> t \<noteq> [] \<and> length t \<le> 12 \<and> (\<forall>c \<in> set t. is_capital c \<or> is_small c \<or> is_digit c \<or> c = CHR ''_'') \<and>
     \<not> doubled t \<and> hd t \<noteq> CHR ''_'' \<and> last t \<noteq> CHR ''_''"

definition vote_tag :: "string \<Rightarrow> bool" where
  "vote_tag t \<longleftrightarrow> t \<noteq> [] \<and> (\<forall>c \<in> set t. is_capital c \<or> is_digit c \<or> punct c)"

inductive asset_path :: "string \<Rightarrow> bool" where
  top: "root_label r \<Longrightarrow> asset_path r"
| below: "asset_path p \<Longrightarrow> label s \<Longrightarrow> asset_path (p @ ''/'' @ s)"

inductive asset_name :: "AssetType \<Rightarrow> string \<Rightarrow> bool" where
  root: "root_label n \<Longrightarrow> length n \<le> 30 \<Longrightarrow> asset_name ROOT n"
| sub: "asset_path p \<Longrightarrow> label s \<Longrightarrow> length (p @ ''/'' @ s) \<le> 30 \<Longrightarrow> asset_name SUB (p @ ''/'' @ s)"
| unique: "asset_path p \<Longrightarrow> unique_tag t \<Longrightarrow> length (p @ ''#'' @ t) \<le> 31 \<Longrightarrow> asset_name UNIQUE (p @ ''#'' @ t)"
| channel: "asset_path p \<Longrightarrow> channel_tag t \<Longrightarrow> length (p @ ''~'' @ t) \<le> 31 \<Longrightarrow> asset_name MSGCHANNEL (p @ ''~'' @ t)"
| owner: "asset_path p \<Longrightarrow> length (p @ ''!'') \<le> 31 \<Longrightarrow> asset_name OWNER (p @ ''!'')"
| vote: "asset_path p \<Longrightarrow> vote_tag t \<Longrightarrow> length (p @ ''^'' @ t) \<le> 31 \<Longrightarrow> asset_name VOTE (p @ ''^'' @ t)"
| vote_middle: "asset_path p \<Longrightarrow> set m \<inter> set ''~#!/'' = {} \<Longrightarrow> vote_tag t \<Longrightarrow> length (p @ ''^'' @ m @ ''^'' @ t) \<le> 31 \<Longrightarrow>
    asset_name VOTE (p @ ''^'' @ m @ ''^'' @ t)"
| qualifier: "root_label w \<Longrightarrow> length w \<le> 30 \<Longrightarrow> asset_name QUALIFIER (''#'' @ w)"
| sub_qualifier: "root_label w \<Longrightarrow> plain_word s \<Longrightarrow> length (''#'' @ w @ ''/#'' @ s) \<le> 31 \<Longrightarrow>
    asset_name SUB_QUALIFIER (''#'' @ w @ ''/#'' @ s)"
| restricted: "plain_word w \<Longrightarrow> 3 \<le> length w \<Longrightarrow> length w \<le> 30 \<Longrightarrow> asset_name RESTRICTED (''$'' @ w)"

inductive_cases asset_name_cases:
  "asset_name ROOT n" "asset_name SUB n" "asset_name VOTE n" "asset_name RESTRICTED n"

subsection \<open>The patterns give the words of the grammar\<close>

lemma code_range: "(m \<le> n \<and> n \<le> k) \<longleftrightarrow> n \<in> set [m ..< Suc k]"
  by auto

lemma char_code: "c = d \<longleftrightarrow> (of_char c :: nat) = of_char d"
  by simp

lemma upper_code: "c \<in> set UPPER \<longleftrightarrow> is_capital c"
  unfolding is_capital_def code_range UPPER_def list.set insert_iff empty_iff char_code [of c] by (simp add: upt_rec)

lemma lower_code: "c \<in> set LOWER \<longleftrightarrow> is_small c"
  unfolding is_small_def code_range LOWER_def list.set insert_iff empty_iff char_code [of c] by (simp add: upt_rec)

lemma digits_code: "c \<in> set DIGITS \<longleftrightarrow> is_digit c"
  unfolding is_digit_def code_range DIGITS_def list.set insert_iff empty_iff char_code [of c] by (simp add: upt_rec)

lemma punct_code: "c \<in> set ''._'' \<longleftrightarrow> punct c"
  by (auto simp: punct_def)

lemma name_chars_code: "set w \<subseteq> set NAME_CHARS \<longleftrightarrow> (\<forall>c \<in> set w. is_capital c \<or> is_digit c \<or> punct c)"
  by (auto simp: NAME_CHARS_def upper_code digits_code punct_code [symmetric])

definition one_line :: "string \<Rightarrow> bool" where
  "one_line w \<longleftrightarrow> CHR 0x0A \<notin> set w \<and> CHR 0x0D \<notin> set w"

lemma dot_star: "w \<in> lang (Star dot) \<longleftrightarrow> one_line w"
  by (auto simp: dot_def one_line_def simp del: lang.simps)

lemma pair_lang:
  assumes "one_line w"
  shows "w \<in> lang (Seq (atleast 2 (Cls ''._'')) (Star dot)) \<longleftrightarrow> (\<exists>a b v. w = a # b # v \<and> punct a \<and> punct b)"
proof
  assume "w \<in> lang (Seq (atleast 2 (Cls ''._'')) (Star dot))"
  then obtain u v where "w = u @ v" "2 \<le> length u" "set u \<subseteq> set ''._''"
    unfolding lang.simps(6) by (auto simp: lang_atleast_cls simp del: lang.simps)
  moreover from this(2) obtain a b u' where "u = a # b # u'" by (cases u rule: doubled.cases) auto
  ultimately show "\<exists>a b v. w = a # b # v \<and> punct a \<and> punct b" by (auto simp: punct_code [symmetric])
next
  assume "\<exists>a b v. w = a # b # v \<and> punct a \<and> punct b"
  then obtain a b v where w: "w = a # b # v" "punct a" "punct b" by blast
  have "[a, b] \<in> lang (atleast 2 (Cls ''._''))" "v \<in> lang (Star dot)"
    using w assms by (auto simp: lang_atleast_cls dot_star one_line_def punct_def simp del: lang.simps)
  then show "w \<in> lang (Seq (atleast 2 (Cls ''._'')) (Star dot))"
    unfolding lang.simps(6) using w(1) by (intro CollectI exI [of _ "[a, b]"] exI [of _ v]) simp
qed

lemma dot_seq: "one_line w \<Longrightarrow> w \<in> lang (Seq (Star dot) r) \<longleftrightarrow> (\<exists>u v. w = u @ v \<and> v \<in> lang r)"
proof -
  assume o: "one_line w"
  have "u \<in> lang (Star dot)" if "w = u @ v" for u v
    using o that by (auto simp: dot_star one_line_def simp del: lang.simps)
  then show ?thesis unfolding lang.simps(6) [of "Star dot"] by blast
qed

lemma doubled_append: "punct a \<Longrightarrow> punct b \<Longrightarrow> doubled (u @ a # b # v)"
proof (induction u)
  case (Cons c u)
  then show ?case by (cases "u @ a # b # v") simp_all
qed simp

lemma doubled_split: "doubled w \<Longrightarrow> \<exists>u a b v. w = u @ a # b # v \<and> punct a \<and> punct b"
proof (induction w rule: doubled.induct)
  case (1 c d w)
  show ?case
  proof (cases "punct c \<and> punct d")
    case True
    then show ?thesis by (intro exI [of _ "[]"]) simp
  next
    case False
    then obtain u a b v where "d # w = u @ a # b # v" "punct a" "punct b" using 1 by auto
    then show ?thesis by (intro exI [of _ "c # u"]) simp
  qed
qed simp_all

lemma double_punctuation: "one_line w \<Longrightarrow> regex_match w DOUBLE_PUNCTUATION \<longleftrightarrow> doubled w"
proof -
  assume o: "one_line w"
  then have "one_line v" if "w = u @ v" for u v using that by (simp add: one_line_def)
  then have "regex_match w DOUBLE_PUNCTUATION \<longleftrightarrow> (\<exists>u a b v. w = u @ a # b # v \<and> punct a \<and> punct b)"
    unfolding DOUBLE_PUNCTUATION_def regex_match_lang dot_seq [OF o] using pair_lang by blast
  then show ?thesis using doubled_split doubled_append by blast
qed

lemma leading_punctuation:
  assumes "one_line w"
  shows "regex_match w LEADING_PUNCTUATION \<longleftrightarrow> w \<noteq> [] \<and> punct (hd w)"
proof (cases w)
  case (Cons c v)
  then have "one_line v" using assms by (simp add: one_line_def)
  then show ?thesis
    unfolding LEADING_PUNCTUATION_def regex_match_lang Cons lang_seq_cls dot_star punct_code by simp
qed (simp add: LEADING_PUNCTUATION_def regex_match_lang del: lang.simps)

lemma trailing_punctuation: "one_line w \<Longrightarrow> regex_match w TRAILING_PUNCTUATION \<longleftrightarrow> w \<noteq> [] \<and> punct (last w)"
proof -
  assume o: "one_line w"
  have b: "lang (Cls ''._'') = {[c] | c. punct c}" by (simp only: lang.simps punct_code)
  have "regex_match w TRAILING_PUNCTUATION \<longleftrightarrow> (\<exists>u c. w = u @ [c] \<and> punct c)"
    unfolding TRAILING_PUNCTUATION_def regex_match_lang dot_seq [OF o] b by (simp only: mem_Collect_eq) metis
  then show ?thesis by (cases w rule: rev_cases) simp_all
qed

lemma qualifier_leading_punctuation:
  assumes "one_line w"
  shows "regex_match (CHR ''#'' # w) QUALIFIER_LEADING_PUNCTUATION \<longleftrightarrow> w \<noteq> [] \<and> punct (hd w)"
proof (cases w)
  case (Cons c v)
  then have "one_line v" using assms by (simp add: one_line_def)
  then show ?thesis
    unfolding QUALIFIER_LEADING_PUNCTUATION_def regex_match_lang Cons lang_seq_cls dot_star punct_code by simp
qed (simp add: QUALIFIER_LEADING_PUNCTUATION_def regex_match_lang del: lang.simps)

lemma lang_choice: "w \<in> lang (foldr Alt (map lit ws) Zero) \<longleftrightarrow> w \<in> set ws"
  by (induction ws) simp_all

lemma coin_names: "regex_match w RAVENCASH_NAMES \<longleftrightarrow> w \<in> set reserved \<or> (\<exists>v \<in> set reserved. w = CHR ''#'' # v)"
proof -
  have "set [''RVN'', ''RAVEN'', ''RAVENCOIN'', ''#RVN'', ''#RAVEN'', ''#RAVENCOIN'', ''RVH'', ''RVH'', ''RAVENCASH'',
      ''RAVENCASHCOIN'', ''#RVH'', ''#RAVENCASH'', ''#RAVENCASHCOIN''] = set reserved \<union> set (map (Cons CHR ''#'') reserved)"
    by code_simp
  then show ?thesis
    unfolding RAVENCASH_NAMES_def regex_match_lang lang_choice by (simp only: Un_iff set_map image_iff)
qed

lemmas punctuation_simps = double_punctuation leading_punctuation trailing_punctuation

lemma name_one_line: "set w \<subseteq> set NAME_CHARS \<Longrightarrow> one_line w"
proof -
  have "CHR 0x0A \<notin> set NAME_CHARS" "CHR 0x0D \<notin> set NAME_CHARS" by (simp_all add: NAME_CHARS_def UPPER_def DIGITS_def)
  then show "one_line w" if "set w \<subseteq> set NAME_CHARS" using that unfolding one_line_def by blast
qed

lemma hash_not_name: "set w \<subseteq> set NAME_CHARS \<Longrightarrow> w \<noteq> CHR ''#'' # v"
  using NAME_CHARS_clean by auto

lemma name_long: "plain_word w \<Longrightarrow> w \<noteq> [] \<and> set w \<subseteq> set NAME_CHARS"
  by (simp add: plain_word_def name_chars_code)

lemma reserved_unmarked: "v \<in> set reserved \<Longrightarrow> v \<noteq> CHR ''#'' # w \<and> v \<noteq> CHR ''$'' # w"
proof -
  have "\<forall>v \<in> set reserved. hd v = CHR ''R''" by (simp add: reserved_def)
  then show "v \<noteq> CHR ''#'' # w \<and> v \<noteq> CHR ''$'' # w" if "v \<in> set reserved" using that by fastforce
qed

lemma root_valid: "IsRootNameValid w \<longleftrightarrow> root_label w"
proof (cases "set w \<subseteq> set NAME_CHARS \<and> 3 \<le> length w")
  case True
  then show ?thesis
    using punctuation_simps [OF name_one_line [of w]] hash_not_name [of w] name_chars_code [of w]
    by (simp add: IsRootNameValid_def ROOT_NAME_CHARACTERS_def regex_match_lang [of _ "atleast _ _"] lang_atleast_cls
        root_label_def label_def plain_word_def coin_names del: lang.simps) auto
next
  case False
  then show ?thesis
    using root_chars [of w] name_long [of w] by (auto simp: root_label_def label_def)
qed

lemma sub_valid: "IsSubNameValid w \<longleftrightarrow> label w"
proof (cases "set w \<subseteq> set NAME_CHARS \<and> w \<noteq> []")
  case True
  then show ?thesis
    using punctuation_simps [OF name_one_line [of w]] name_chars_code [of w]
    by (simp add: IsSubNameValid_def SUB_NAME_CHARACTERS_def regex_match_lang [of _ "plus _"] lang_plus_cls
        label_def plain_word_def del: lang.simps) blast
next
  case False
  then show ?thesis using sub_chars [of w] name_long [of w] by (auto simp: label_def)
qed

lemma marked_simps:
  assumes "set w \<subseteq> set NAME_CHARS" and "\<not> punct m" and "one_line [m]" and "w \<noteq> []"
  shows "regex_match (m # w) DOUBLE_PUNCTUATION \<longleftrightarrow> doubled w" "\<not> regex_match (m # w) LEADING_PUNCTUATION"
    "regex_match (m # w) TRAILING_PUNCTUATION \<longleftrightarrow> punct (last w)"
proof -
  have "one_line (m # w)" using assms(3) name_one_line [OF assms(1)] by (simp add: one_line_def)
  from punctuation_simps [OF this] assms(2,4)
  show "regex_match (m # w) DOUBLE_PUNCTUATION \<longleftrightarrow> doubled w" "\<not> regex_match (m # w) LEADING_PUNCTUATION"
    "regex_match (m # w) TRAILING_PUNCTUATION \<longleftrightarrow> punct (last w)"
    by (cases w; simp)+
qed

lemma qualifier_valid: "IsQualifierNameValid q \<longleftrightarrow> (\<exists>w. q = CHR ''#'' # w \<and> root_label w)"
proof -
  have "IsQualifierNameValid (CHR ''#'' # w) \<longleftrightarrow> root_label w" for w
  proof (cases "set w \<subseteq> set NAME_CHARS \<and> 3 \<le> length w")
    case True
    then have w: "set w \<subseteq> set NAME_CHARS" "w \<noteq> []" "3 \<le> length w" by auto
    have m: "regex_match (CHR ''#'' # w) QUALIFIER_NAME_CHARACTERS"
      using True by (simp add: QUALIFIER_NAME_CHARACTERS_def regex_match_lang lang_atleast_cls del: lang.simps)
    have r: "regex_match (CHR ''#'' # w) RAVENCASH_NAMES \<longleftrightarrow> w \<in> set reserved"
      unfolding coin_names using reserved_unmarked by blast
    show ?thesis
      using w m r marked_simps [OF w(1) _ _ w(2), of "CHR ''#''"] qualifier_leading_punctuation [OF name_one_line [OF w(1)]]
        name_chars_code [of w]
      by (simp add: IsQualifierNameValid_def root_label_def label_def plain_word_def punct_def [of "CHR ''#''"] one_line_def) blast
  next
    case False
    then show ?thesis using qualifier_chars [of "CHR ''#'' # w"] name_long [of w] by (auto simp: root_label_def label_def)
  qed
  then show ?thesis using qualifier_chars [of q] by auto
qed

lemma sub_qualifier_valid: "IsSubQualifierNameValid q \<longleftrightarrow> (\<exists>w. q = CHR ''#'' # w \<and> plain_word w)"
proof -
  have "IsSubQualifierNameValid (CHR ''#'' # w) \<longleftrightarrow> plain_word w" for w
  proof (cases "set w \<subseteq> set NAME_CHARS \<and> w \<noteq> []")
    case True
    then have w: "set w \<subseteq> set NAME_CHARS" "w \<noteq> []" by auto
    have m: "regex_match (CHR ''#'' # w) SUB_QUALIFIER_NAME_CHARACTERS"
      using True by (simp add: SUB_QUALIFIER_NAME_CHARACTERS_def regex_match_lang lang_plus_cls del: lang.simps)
    show ?thesis
      using w m marked_simps [OF w(1) _ _ w(2), of "CHR ''#''"] name_chars_code [of w]
      by (simp add: IsSubQualifierNameValid_def plain_word_def punct_def [of "CHR ''#''"] one_line_def)
  next
    case False
    then show ?thesis using sub_qualifier_chars [of "CHR ''#'' # w"] name_long [of w] by auto
  qed
  then show ?thesis using sub_qualifier_chars [of q] by auto
qed

lemma restricted_valid: "IsRestrictedNameValid q \<longleftrightarrow> (\<exists>w. q = CHR ''$'' # w \<and> plain_word w \<and> 3 \<le> length w)"
proof -
  have "IsRestrictedNameValid (CHR ''$'' # w) \<longleftrightarrow> plain_word w \<and> 3 \<le> length w" for w
  proof (cases "set w \<subseteq> set NAME_CHARS \<and> 3 \<le> length w")
    case True
    then have w: "set w \<subseteq> set NAME_CHARS" "w \<noteq> []" "3 \<le> length w" by auto
    have m: "regex_match (CHR ''$'' # w) RESTRICTED_NAME_CHARACTERS"
      using True by (simp add: RESTRICTED_NAME_CHARACTERS_def regex_match_lang lang_atleast_cls del: lang.simps)
    have r: "\<not> regex_match (CHR ''$'' # w) RAVENCASH_NAMES" unfolding coin_names using reserved_unmarked by blast
    show ?thesis
      using w m r marked_simps [OF w(1) _ _ w(2), of "CHR ''$''"] name_chars_code [of w]
      by (simp add: IsRestrictedNameValid_def plain_word_def punct_def [of "CHR ''$''"] one_line_def)
  next
    case False
    then show ?thesis using restricted_chars [of "CHR ''$'' # w"] name_long [of w] by auto
  qed
  then show ?thesis using restricted_chars [of q] by auto
qed

lemma unique_valid: "IsUniqueTagValid t \<longleftrightarrow> unique_tag t"
proof -
  have "c \<in> set (''-'' @ UPPER @ LOWER @ DIGITS @ ''@$%&*()[]{}_.?:'') \<longleftrightarrow>
      is_capital c \<or> is_small c \<or> is_digit c \<or> c \<in> set ''-@$%&*()[]{}_.?:''" for c
  proof -
    have "set ''-@$%&*()[]{}_.?:'' = set ''-'' \<union> set ''@$%&*()[]{}_.?:''" by (simp only: list.set Un_insert_left Un_empty_left)
    then show ?thesis unfolding set_append Un_iff upper_code lower_code digits_code by blast
  qed
  then show ?thesis
    unfolding IsUniqueTagValid_def UNIQUE_TAG_CHARACTERS_def regex_match_lang lang_plus_cls unique_tag_def subset_eq
    by (simp only:)
qed

lemma vote_valid: "IsVoteTagValid t \<longleftrightarrow> vote_tag t"
  by (simp add: IsVoteTagValid_def VOTE_TAG_CHARACTERS_def regex_match_lang lang_plus_cls vote_tag_def name_chars_code)

lemma channel_valid: "IsMsgChannelTagValid t \<and> length t \<le> 12 \<longleftrightarrow> channel_tag t"
proof -
  have c: "set t \<subseteq> set (UPPER @ LOWER @ DIGITS @ ''_'') \<longleftrightarrow> (\<forall>c \<in> set t. is_capital c \<or> is_small c \<or> is_digit c \<or> c = CHR ''_'')"
    unfolding subset_eq set_append Un_iff upper_code lower_code digits_code list.set insert_iff empty_iff by blast
  have o: "one_line t" if "set t \<subseteq> set (UPPER @ LOWER @ DIGITS @ ''_'')"
  proof -
    have "CHR 0x0A \<notin> set (UPPER @ LOWER @ DIGITS @ ''_'')" "CHR 0x0D \<notin> set (UPPER @ LOWER @ DIGITS @ ''_'')"
      by (simp_all add: UPPER_def LOWER_def DIGITS_def)
    then show ?thesis using that unfolding one_line_def by blast
  qed
  have p: "punct c \<longleftrightarrow> c = CHR ''_''" if "set t \<subseteq> set (UPPER @ LOWER @ DIGITS @ ''_'')" "c \<in> set t" for c
  proof -
    have "CHR ''.'' \<notin> set (UPPER @ LOWER @ DIGITS @ ''_'')" by (simp add: UPPER_def LOWER_def DIGITS_def)
    then show ?thesis using that unfolding punct_def by blast
  qed
  show ?thesis
  proof (cases "set t \<subseteq> set (UPPER @ LOWER @ DIGITS @ ''_'') \<and> t \<noteq> []")
    case True
    then have "punct (hd t) \<longleftrightarrow> hd t = CHR ''_''" "punct (last t) \<longleftrightarrow> last t = CHR ''_''" using p by simp_all
    then show ?thesis
      using True punctuation_simps [OF o] c
      unfolding IsMsgChannelTagValid_def MSGCHANNEL_TAG_CHARACTERS_def regex_match_lang [of _ "plus _"] lang_plus_cls channel_tag_def by blast
  next
    case False
    then show ?thesis
      using c unfolding IsMsgChannelTagValid_def MSGCHANNEL_TAG_CHARACTERS_def regex_match_lang [of _ "plus _"] lang_plus_cls channel_tag_def by blast
  qed
qed

text \<open>The rules of the grammar in terms of the tests of the code.\<close>

lemma path_root: "IsRootNameValid r \<Longrightarrow> asset_path r"
  by (simp add: root_valid asset_path.top)

lemma path_sub: "asset_path p \<Longrightarrow> IsSubNameValid s \<Longrightarrow> asset_path (p @ ''/'' @ s)"
  unfolding sub_valid by (rule asset_path.below)

lemma path_cases [consumes 1, case_names root sub]:
  assumes "asset_path n"
  obtains "IsRootNameValid n" | p s where "n = p @ ''/'' @ s" "asset_path p" "IsSubNameValid s"
  using assms by (cases rule: asset_path.cases) (auto simp: root_valid sub_valid)

lemma path_induct [consumes 1, case_names path_root path_sub]:
  assumes "asset_path n" and "\<And>r. IsRootNameValid r \<Longrightarrow> P r"
    and "\<And>p s. asset_path p \<Longrightarrow> P p \<Longrightarrow> IsSubNameValid s \<Longrightarrow> P (p @ ''/'' @ s)"
  shows "P n"
  using assms by (induction rule: asset_path.induct) (auto simp: root_valid sub_valid)

lemma name_intros:
  "IsRootNameValid n \<Longrightarrow> length n \<le> 30 \<Longrightarrow> asset_name ROOT n"
  "asset_path p \<Longrightarrow> IsSubNameValid s \<Longrightarrow> length (p @ ''/'' @ s) \<le> 30 \<Longrightarrow> asset_name SUB (p @ ''/'' @ s)"
  "asset_path p \<Longrightarrow> IsUniqueTagValid t \<Longrightarrow> length (p @ ''#'' @ t) \<le> 31 \<Longrightarrow> asset_name UNIQUE (p @ ''#'' @ t)"
  "asset_path p \<Longrightarrow> IsMsgChannelTagValid t \<Longrightarrow> length t \<le> 12 \<Longrightarrow> length (p @ ''~'' @ t) \<le> 31 \<Longrightarrow>
     asset_name MSGCHANNEL (p @ ''~'' @ t)"
  "IsQualifierNameValid q \<Longrightarrow> length q \<le> 31 \<Longrightarrow> asset_name QUALIFIER q"
  "IsQualifierNameValid q \<Longrightarrow> IsSubQualifierNameValid u \<Longrightarrow> length (q @ ''/'' @ u) \<le> 31 \<Longrightarrow>
     asset_name SUB_QUALIFIER (q @ ''/'' @ u)"
  "IsRestrictedNameValid n \<Longrightarrow> length n \<le> 31 \<Longrightarrow> asset_name RESTRICTED n"
        apply (simp add: asset_name.root root_valid)
       apply (rule asset_name.sub; simp add: sub_valid)
      apply (rule asset_name.unique; simp add: unique_valid)
     apply (rule asset_name.channel; simp add: channel_valid [symmetric])
    apply (auto simp: qualifier_valid dest: asset_name.qualifier)[1]
   apply (auto simp: qualifier_valid sub_qualifier_valid dest: asset_name.sub_qualifier)[1]
  apply (auto simp: restricted_valid dest: asset_name.restricted)[1]
  done

lemma path_chars: "asset_path p \<Longrightarrow> 3 \<le> length p \<and> set p \<subseteq> insert CHR ''/'' (set NAME_CHARS)"
  by (induction rule: path_induct) (auto dest: root_chars sub_chars)

lemma path_clean: "asset_path p \<Longrightarrow> p \<noteq> [] \<and> set p \<inter> set ''^~#!$'' = {}"
  using path_chars [of p] NAME_CHARS_clean by (auto simp del: list.set) auto

lemma sub_clean: "IsSubNameValid s \<Longrightarrow> CHR ''/'' \<notin> set s"
  using sub_chars [of s] NAME_CHARS_clean by auto

lemma root_clean: "IsRootNameValid r \<Longrightarrow> CHR ''/'' \<notin> set r"
  using root_chars [of r] NAME_CHARS_clean by auto

lemma join_snoc: "join c (r # ps @ [s]) = join c (r # ps) @ c # s"
  by (induction ps arbitrary: r) simp_all

lemma join_path: "IsRootNameValid r \<Longrightarrow> list_all IsSubNameValid ps \<Longrightarrow> asset_path (join CHR ''/'' (r # ps))"
proof (induction ps rule: rev_induct)
  case (snoc s ps)
  then show ?case using path_sub [of "join CHR ''/'' (r # ps)" s] by (simp add: join_snoc)
qed (simp add: path_root)

lemma path_split:
  "asset_path n \<Longrightarrow> IsRootNameValid (hd (split_at CHR ''/'' n)) \<and> list_all IsSubNameValid (tl (split_at CHR ''/'' n))"
proof (induction rule: path_induct)
  case (path_root r)
  then show ?case by (simp add: split_at_absent root_clean)
next
  case (path_sub p s)
  then show ?case by (simp add: split_at_snoc sub_clean)
qed

lemma path_iff: "IsNameValidBeforeTag split_at n \<longleftrightarrow> asset_path n"
proof
  assume v: "IsNameValidBeforeTag split_at n"
  obtain r ps where e: "split_at CHR ''/'' n = r # ps" by (cases "split_at CHR ''/'' n") auto
  with v have "IsRootNameValid r" "list_all IsSubNameValid ps"
    by (auto simp: IsNameValidBeforeTag_def split: if_splits)
  then have "asset_path (join CHR ''/'' (r # ps))" by (rule join_path)
  then show "asset_path n" using join_split_at [of "CHR ''/''" n] e by simp
next
  assume "asset_path n"
  then show "IsNameValidBeforeTag split_at n"
    using path_split by (simp add: IsNameValidBeforeTag_def Let_def)
qed

lemma subasset_iff: "IsAssetNameASubasset split_at n \<longleftrightarrow> IsRootNameValid (hd (split_at CHR ''/'' n)) \<and> CHR ''/'' \<in> set n"
proof -
  have "1 < length (split_at CHR ''/'' n) \<longleftrightarrow> CHR ''/'' \<in> set n"
    using split_at_length [of "CHR ''/''" n] split_at_nonempty [of "CHR ''/''" n]
    by (metis length_greater_0_conv less_one linorder_neqE_nat not_less_iff_gr_or_eq)
  then show ?thesis by (simp add: IsAssetNameASubasset_def Let_def)
qed

lemma path_cases_slash:
  assumes "asset_path n"
  shows "CHR ''/'' \<notin> set n \<and> IsRootNameValid n \<or>
    (\<exists>p s. n = p @ ''/'' @ s \<and> asset_path p \<and> IsSubNameValid s)"
  using assms by (cases rule: path_cases) (auto dest: root_clean)

subsection \<open>The grammar is what the code accepts\<close>

text \<open>Which branch of \<open>IsAssetNameValid\<close> a name takes.\<close>

lemma plain_branch:
  assumes "set n \<inter> set ''^~#!'' = {}" and "\<not> regex_match n RESTRICTED_INDICATOR"
  shows "\<not> regex_match n UNIQUE_INDICATOR" "\<not> regex_match n MSGCHANNEL_INDICATOR" "\<not> regex_match n OWNER_INDICATOR"
    "\<not> regex_match n VOTE_INDICATOR" "\<not> regex_match n QUALIFIER_INDICATOR" "\<not> regex_match n SUB_QUALIFIER_INDICATOR"
  using assms(1) by (auto simp: indicator_simps owner_indicator hash_indicator sub_hash_indicator)

lemma restricted_branch:
  assumes "regex_match n RESTRICTED_INDICATOR"
  shows "set n \<inter> set ''^~#!/'' = {}"
  using assms NAME_CHARS_clean by (auto simp: restricted_indicator)

lemma hash_branch:
  assumes "n = CHR ''#'' # q"
  shows "\<not> regex_match n UNIQUE_INDICATOR" "\<not> regex_match n MSGCHANNEL_INDICATOR" "\<not> regex_match n OWNER_INDICATOR"
    "\<not> regex_match n VOTE_INDICATOR"
  using assms by (auto simp: indicator_simps owner_indicator Cons_eq_append_conv)

lemma name_plain:
  assumes "set n \<inter> set ''^~#!'' = {}" and "\<not> regex_match n RESTRICTED_INDICATOR"
  shows "IsAssetNameValid split_at n = Inr t \<longleftrightarrow>
    asset_path n \<and> length n \<le> 30 \<and> t = (if CHR ''/'' \<in> set n then SUB else ROOT)"
proof -
  have "IsAssetNameASubasset split_at n \<longleftrightarrow> CHR ''/'' \<in> set n" if "asset_path n"
    using path_split [OF that] by (simp add: subasset_iff)
  then show ?thesis
    using plain_branch [OF assms] assms(2)
    by (auto simp: IsAssetNameValid_def IsTypeCheckNameValid_def path_iff Let_def bindR_Inr_iff MAX_NAME_LENGTH_def
        MIN_ASSET_LENGTH_def dest: path_chars split: if_splits)
qed

lemma split_tagged:
  assumes "c \<notin> set p" and "c \<notin> set t"
  shows "hd (split_at c (p @ c # t)) = p" "last (split_at c (p @ c # t)) = t"
  using assms by (simp_all add: split_at_one split_at_absent)

lemma name_unique:
  assumes "regex_match n UNIQUE_INDICATOR"
  shows "IsAssetNameValid split_at n = Inr t \<longleftrightarrow>
    t = UNIQUE \<and> length n \<le> 31 \<and> (\<exists>p u. n = p @ ''#'' @ u \<and> asset_path p \<and> IsUniqueTagValid u)"
proof -
  obtain p u where n: "n = p @ CHR ''#'' # u" "CHR ''#'' \<notin> set p" "CHR ''#'' \<notin> set u"
    using assms by (auto simp: indicator_simps)
  have "p' = p \<and> u' = u" if "n = p' @ ''#'' @ u'" "asset_path p'" "IsUniqueTagValid u'" for p' u'
  proof -
    have "CHR ''#'' \<notin> set p'" "CHR ''#'' \<notin> set u'" using path_clean [OF that(2)] unique_tag_chars [OF that(3)] by auto
    then show ?thesis using split_tagged [of "CHR ''#''" p' u'] split_tagged [OF n(2,3)] that(1) n(1) by simp
  qed
  with n(1) have ex: "(\<exists>p u. n = p @ ''#'' @ u \<and> asset_path p \<and> IsUniqueTagValid u) \<longleftrightarrow> asset_path p \<and> IsUniqueTagValid u"
    by (metis append_Cons append_Nil)
  show ?thesis
    using assms split_tagged [OF n(2,3)] unfolding ex
    by (auto simp: IsAssetNameValid_def IsTypeCheckNameValid_def path_iff Let_def bindR_Inr_iff MAX_NAME_LENGTH_def
        n(1) [symmetric] split: if_splits)
qed

lemma name_channel:
  assumes "regex_match n MSGCHANNEL_INDICATOR"
  shows "IsAssetNameValid split_at n = Inr t \<longleftrightarrow>
    t = MSGCHANNEL \<and> length n \<le> 31 \<and>
    (\<exists>p u. n = p @ ''~'' @ u \<and> asset_path p \<and> IsMsgChannelTagValid u \<and> length u \<le> 12)"
proof -
  obtain p u where n: "n = p @ CHR ''~'' # u" "CHR ''~'' \<notin> set p" "CHR ''~'' \<notin> set u"
    using assms by (auto simp: indicator_simps)
  have not: "\<not> regex_match n UNIQUE_INDICATOR"
    using n(1) by (auto simp: indicator_simps append_eq_append_conv2 append_eq_Cons_conv Cons_eq_append_conv)
  have "p' = p \<and> u' = u" if "n = p' @ ''~'' @ u'" "asset_path p'" "IsMsgChannelTagValid u'" for p' u'
  proof -
    have "CHR ''~'' \<notin> set p'" "CHR ''~'' \<notin> set u'" using path_clean [OF that(2)] channel_tag_chars [OF that(3)] by auto
    then show ?thesis using split_tagged [of "CHR ''~''" p' u'] split_tagged [OF n(2,3)] that(1) n(1) by simp
  qed
  with n(1) have ex: "(\<exists>p u. n = p @ ''~'' @ u \<and> asset_path p \<and> IsMsgChannelTagValid u \<and> length u \<le> 12) \<longleftrightarrow>
      asset_path p \<and> IsMsgChannelTagValid u \<and> length u \<le> 12"
    by (metis append_Cons append_Nil)
  show ?thesis
    using assms not split_tagged [OF n(2,3)] unfolding ex
    by (auto simp: IsAssetNameValid_def IsTypeCheckNameValid_def path_iff Let_def bindR_Inr_iff MAX_NAME_LENGTH_def
        MAX_CHANNEL_NAME_LENGTH_def n(1) [symmetric] split: if_splits)
qed

lemma tagged_chars:
  "regex_match n UNIQUE_INDICATOR \<Longrightarrow> CHR ''#'' \<in> set n \<and> CHR ''!'' \<notin> set n"
  "regex_match n MSGCHANNEL_INDICATOR \<Longrightarrow> CHR ''~'' \<in> set n \<and> CHR ''!'' \<notin> set n"
  "regex_match n VOTE_INDICATOR \<Longrightarrow> CHR ''^'' \<in> set n \<and> set n \<inter> set ''~#!'' = {}"
  by (auto simp: indicator_simps)

lemma name_owner:
  assumes "regex_match n OWNER_INDICATOR"
  shows "IsAssetNameValid split_at n = Inr t \<longleftrightarrow>
    t = OWNER \<and> length n \<le> 31 \<and> (\<exists>p. n = p @ ''!'' \<and> asset_path p)"
proof -
  have "\<not> regex_match n UNIQUE_INDICATOR" "\<not> regex_match n MSGCHANNEL_INDICATOR"
    using assms tagged_chars(1,2) [of n] by (auto simp: owner_indicator)
  then show ?thesis
    using assms
    by (auto simp: IsAssetNameValid_def IsTypeCheckNameValid_def path_iff Let_def bindR_Inr_iff MAX_NAME_LENGTH_def
        owner_indicator split: if_splits)
qed

lemma name_vote:
  assumes "regex_match n VOTE_INDICATOR"
  shows "IsAssetNameValid split_at n = Inr t \<longleftrightarrow> t = VOTE \<and> length n \<le> 31 \<and>
    asset_path (hd (split_at CHR ''^'' n)) \<and> IsVoteTagValid (last (split_at CHR ''^'' n))"
proof -
  have "\<not> regex_match n UNIQUE_INDICATOR" "\<not> regex_match n MSGCHANNEL_INDICATOR" "\<not> regex_match n OWNER_INDICATOR"
    using assms tagged_chars [of n] by (auto simp: owner_indicator)
  then show ?thesis
    using assms
    by (auto simp: IsAssetNameValid_def IsTypeCheckNameValid_def path_iff Let_def bindR_Inr_iff MAX_NAME_LENGTH_def split: if_splits)
qed

lemma split_vote_middle:
  assumes "c \<notin> set p" and "c \<notin> set t"
  shows "hd (split_at c (p @ c # m @ c # t)) = p" "last (split_at c (p @ c # m @ c # t)) = t"
  using assms by (simp_all add: split_at_one split_at_snoc)

lemma accepted_vote:
  assumes "regex_match n VOTE_INDICATOR" and "IsAssetNameValid split_at n = Inr t"
  shows "asset_name t n"
proof -
  obtain p r where n: "n = p @ CHR ''^'' # r" "CHR ''^'' \<notin> set p" "set r \<inter> set ''~#!/'' = {}"
    using assms(1) by (auto simp: indicator_simps)
  have v: "t = VOTE" "length n \<le> 31" "asset_path (hd (split_at CHR ''^'' n))" "vote_tag (last (split_at CHR ''^'' n))"
    using assms(2) unfolding name_vote [OF assms(1)] vote_valid by blast+
  show ?thesis
  proof (cases "CHR ''^'' \<in> set r")
    case True
    then obtain m u where r: "r = m @ CHR ''^'' # u" "CHR ''^'' \<notin> set u" using split_list_last by metis
    have "set m \<inter> set ''~#!/'' = {}" using n(3) unfolding r(1) set_append by blast
    moreover have "asset_path p" "vote_tag u" using v(3,4) split_vote_middle [OF n(2) r(2)] unfolding n(1) r(1) by simp_all
    ultimately show ?thesis using asset_name.vote_middle [of p m u] v(1,2) unfolding n(1) r(1) by simp
  next
    case False
    then have "asset_path p" "vote_tag r" using v(3,4) split_tagged [OF n(2) False] unfolding n(1) by simp_all
    then show ?thesis using asset_name.vote [of p r] v(1,2) unfolding n(1) by simp
  qed
qed

lemma vote_tag_clean: "vote_tag t \<Longrightarrow> t \<noteq> [] \<and> set t \<inter> set ''^~#!/$'' = {}"
  using vote_tag_chars [of t] NAME_CHARS_clean unfolding vote_valid by blast

lemma grammatical_vote:
  assumes "asset_path p" and "vote_tag t" and "CHR ''^'' \<notin> set p"
    and "n = p @ CHR ''^'' # t \<or> n = p @ CHR ''^'' # m @ CHR ''^'' # t \<and> set m \<inter> set ''~#!/'' = {}" and "length n \<le> 31"
  shows "IsAssetNameValid split_at n = Inr VOTE"
proof -
  have t: "CHR ''^'' \<notin> set t" using vote_tag_clean [OF assms(2)] by auto
  obtain r where r: "n = p @ CHR ''^'' # r" "r \<noteq> []" "set r \<inter> set ''~#!/'' = {}"
  proof -
    have "set t \<inter> set ''~#!/'' = {}" "t \<noteq> []" using vote_tag_clean [OF assms(2)] by auto
    then show ?thesis using assms(4) that [of t] that [of "m @ CHR ''^'' # t"] by auto
  qed
  have "p \<noteq> []" "set p \<inter> set ''^~#!'' = {}" using path_clean [OF assms(1)] by auto
  with r have "regex_match n VOTE_INDICATOR" unfolding indicator_simps by blast
  then show ?thesis
    using assms split_tagged [OF assms(3) t] split_vote_middle [OF assms(3) t, of m] by (auto simp: name_vote vote_valid)
qed

lemma qualifier_hash: "IsQualifierNameValid q \<Longrightarrow> CHR ''/'' \<notin> set q"
  using qualifier_chars [of q] NAME_CHARS_clean by auto

lemma sub_qualifier_hash: "IsSubQualifierNameValid s \<Longrightarrow> CHR ''/'' \<notin> set s"
  using sub_qualifier_chars [of s] NAME_CHARS_clean by auto

lemma name_qualifier:
  assumes "regex_match n QUALIFIER_INDICATOR"
  shows "IsAssetNameValid split_at n = Inr t \<longleftrightarrow> t = QUALIFIER \<and> length n \<le> 31 \<and> IsQualifierNameValid n"
proof -
  obtain q where q: "n = CHR ''#'' # q" "set q \<subseteq> set NAME_CHARS"
    using assms by (auto simp: hash_indicator)
  then have "CHR ''/'' \<notin> set n" using NAME_CHARS_clean by auto
  then show ?thesis
    using assms hash_branch [OF q(1)]
    by (auto simp: IsAssetNameValid_def IsTypeCheckNameValid_def IsQualifierNameValidBeforeTag_def
        IsAssetNameASubQualifier_def Let_def bindR_Inr_iff MAX_NAME_LENGTH_def split_at_absent split: if_splits)
qed

lemma name_sub_qualifier:
  assumes "regex_match n SUB_QUALIFIER_INDICATOR"
  shows "IsAssetNameValid split_at n = Inr t \<longleftrightarrow> t = SUB_QUALIFIER \<and> length n \<le> 31 \<and>
    (\<exists>q s. n = q @ ''/'' @ s \<and> IsQualifierNameValid q \<and> IsSubQualifierNameValid s)"
proof -
  obtain q r where n: "n = (CHR ''#'' # q) @ CHR ''/'' # CHR ''#'' # r"
    and c: "set q \<subseteq> set NAME_CHARS" "set r \<subseteq> set NAME_CHARS"
    using assms by (auto simp: sub_hash_indicator)
  have d: "CHR ''/'' \<notin> set (CHR ''#'' # q)" "CHR ''/'' \<notin> set (CHR ''#'' # r)"
    using c NAME_CHARS_clean by auto
  have s: "split_at CHR ''/'' n = [CHR ''#'' # q, CHR ''#'' # r]"
    unfolding n split_at_one [OF d(1)] split_at_absent [OF d(2)] ..
  have not: "\<not> regex_match n QUALIFIER_INDICATOR"
    using n NAME_CHARS_clean by (auto simp: hash_indicator)
  have "q' = CHR ''#'' # q \<and> s' = CHR ''#'' # r" if "n = q' @ ''/'' @ s'" "IsQualifierNameValid q'" "IsSubQualifierNameValid s'" for q' s'
    using s that(1) qualifier_hash [OF that(2)] sub_qualifier_hash [OF that(3)] by (simp add: split_at_one split_at_absent)
  with n have ex: "(\<exists>q s. n = q @ ''/'' @ s \<and> IsQualifierNameValid q \<and> IsSubQualifierNameValid s) \<longleftrightarrow>
      IsQualifierNameValid (CHR ''#'' # q) \<and> IsSubQualifierNameValid (CHR ''#'' # r)"
    by (metis append_Cons append_Nil)
  have "n = CHR ''#'' # (q @ CHR ''/'' # CHR ''#'' # r)" using n by simp
  from hash_branch [OF this] show ?thesis
    using assms not unfolding ex
    by (auto simp: IsAssetNameValid_def IsTypeCheckNameValid_def IsQualifierNameValidBeforeTag_def
        IsAssetNameASubQualifier_def Let_def bindR_Inr_iff MAX_NAME_LENGTH_def s split: if_splits)
qed

lemma name_restricted:
  assumes "regex_match n RESTRICTED_INDICATOR"
  shows "IsAssetNameValid split_at n = Inr t \<longleftrightarrow> t = RESTRICTED \<and> length n \<le> 31 \<and> IsRestrictedNameValid n"
proof -
  have "set n \<inter> set ''^~#!'' = {}" using restricted_branch [OF assms] by auto
  then have "\<not> regex_match n UNIQUE_INDICATOR" "\<not> regex_match n MSGCHANNEL_INDICATOR" "\<not> regex_match n OWNER_INDICATOR"
    "\<not> regex_match n VOTE_INDICATOR" "\<not> regex_match n QUALIFIER_INDICATOR" "\<not> regex_match n SUB_QUALIFIER_INDICATOR"
    by (auto simp: indicator_simps owner_indicator hash_indicator sub_hash_indicator)
  then show ?thesis
    using assms by (auto simp: IsAssetNameValid_def IsTypeCheckNameValid_def bindR_Inr_iff MAX_NAME_LENGTH_def split: if_splits)
qed

lemma no_branch:
  assumes "IsAssetNameValid split_at n = Inr t"
    and "\<not> regex_match n UNIQUE_INDICATOR" "\<not> regex_match n MSGCHANNEL_INDICATOR" "\<not> regex_match n OWNER_INDICATOR"
    "\<not> regex_match n VOTE_INDICATOR" "\<not> regex_match n QUALIFIER_INDICATOR" "\<not> regex_match n SUB_QUALIFIER_INDICATOR"
    "\<not> regex_match n RESTRICTED_INDICATOR"
  shows "asset_path n"
  using assms
  by (auto simp: IsAssetNameValid_def IsTypeCheckNameValid_def path_iff Let_def bindR_Inr_iff split: if_splits)

lemma accepted_name:
  assumes "IsAssetNameValid split_at n = Inr t"
  shows "asset_name t n"
proof -
  consider "regex_match n UNIQUE_INDICATOR" | "regex_match n MSGCHANNEL_INDICATOR" | "regex_match n OWNER_INDICATOR"
    | "regex_match n VOTE_INDICATOR" | "regex_match n QUALIFIER_INDICATOR" | "regex_match n SUB_QUALIFIER_INDICATOR"
    | "regex_match n RESTRICTED_INDICATOR" | "asset_path n" "\<not> regex_match n RESTRICTED_INDICATOR"
    using no_branch [OF assms] by blast
  then show ?thesis
  proof cases
    case 8
    then have "set n \<inter> set ''^~#!'' = {}" using path_clean [of n] by auto
    then have t: "length n \<le> 30" "t = (if CHR ''/'' \<in> set n then SUB else ROOT)"
      using assms name_plain 8(2) by auto
    from path_cases_slash [OF 8(1)] show ?thesis
    proof
      assume "CHR ''/'' \<notin> set n \<and> IsRootNameValid n"
      then show ?thesis using t by (simp add: name_intros(1))
    next
      assume "\<exists>p s. n = p @ ''/'' @ s \<and> asset_path p \<and> IsSubNameValid s"
      then obtain p s where "n = p @ ''/'' @ s" "asset_path p" "IsSubNameValid s" by blast
      with t name_intros(2) [of p s] show ?thesis by simp
    qed
  next
    case 1
    obtain p u where "t = UNIQUE" "length n \<le> 31" "n = p @ ''#'' @ u" "asset_path p" "IsUniqueTagValid u"
      using assms unfolding name_unique [OF 1] by blast
    with name_intros(3) [of p u] show ?thesis by simp
  next
    case 2
    obtain p u where "t = MSGCHANNEL" "length n \<le> 31" "n = p @ ''~'' @ u" "asset_path p" "IsMsgChannelTagValid u" "length u \<le> 12"
      using assms unfolding name_channel [OF 2] by blast
    with name_intros(4) [of p u] show ?thesis by simp
  next
    case 3
    obtain p where "t = OWNER" "length n \<le> 31" "n = p @ ''!''" "asset_path p"
      using assms unfolding name_owner [OF 3] by blast
    with asset_name.owner [of p] show ?thesis by simp
  next
    case 4
    show ?thesis using 4 assms by (rule accepted_vote)
  next
    case 5
    show ?thesis using assms unfolding name_qualifier [OF 5] by (simp add: name_intros(5))
  next
    case 6
    obtain q s where "t = SUB_QUALIFIER" "length n \<le> 31" "n = q @ ''/'' @ s" "IsQualifierNameValid q" "IsSubQualifierNameValid s"
      using assms unfolding name_sub_qualifier [OF 6] by blast
    with name_intros(6) [of q s] show ?thesis by simp
  next
    case 7
    show ?thesis using assms unfolding name_restricted [OF 7] by (simp add: name_intros(7))
  qed
qed

lemma plain_name:
  assumes "asset_path n" and "length n \<le> 30"
  shows "IsAssetNameValid split_at n = Inr (if CHR ''/'' \<in> set n then SUB else ROOT)"
proof -
  have "\<not> regex_match n RESTRICTED_INDICATOR" "set n \<inter> set ''^~#!'' = {}"
    using path_clean [OF assms(1)] by (auto simp: restricted_indicator)
  then show ?thesis using assms by (simp add: name_plain)
qed

lemma grammatical_name:
  assumes "asset_name t n"
  shows "IsAssetNameValid split_at n = Inr t"
  using assms
proof (cases rule: asset_name.cases)
  case root
  then have "asset_path n" "CHR ''/'' \<notin> set n" using root_clean [of n] by (simp_all add: asset_path.top root_valid)
  then show ?thesis using plain_name [of n] root by simp
next
  case (sub p s)
  then have "asset_path n" by (simp add: asset_path.below [simplified])
  then show ?thesis using plain_name [of n] sub by simp
next
  case (unique p u)
  have "regex_match n UNIQUE_INDICATOR"
    using unique path_clean [of p] unique_tag_chars [of u] by (auto simp: indicator_simps unique_valid)
  then show ?thesis using unique by (auto simp: name_unique unique_valid)
next
  case (channel p u)
  then have c: "IsMsgChannelTagValid u \<and> length u \<le> 12" by (simp add: channel_valid)
  have "regex_match n MSGCHANNEL_INDICATOR"
    using channel c path_clean [of p] channel_tag_chars [of u] by (auto simp: indicator_simps)
  then show ?thesis using channel c by (auto simp: name_channel)
next
  case (owner p)
  have "regex_match n OWNER_INDICATOR" using owner path_clean [of p] by (auto simp: owner_indicator)
  then show ?thesis using owner by (auto simp: name_owner)
next
  case (vote p u)
  then show ?thesis using grammatical_vote [of p u n] path_clean [of p] by simp
next
  case (vote_middle p m u)
  then show ?thesis using grammatical_vote [of p u n m] path_clean [of p] by simp
next
  case (qualifier w)
  then have q: "IsQualifierNameValid n" by (simp add: qualifier_valid)
  then have "regex_match n QUALIFIER_INDICATOR" using qualifier_chars by (auto simp: hash_indicator)
  then show ?thesis using qualifier q by (simp add: name_qualifier)
next
  case (sub_qualifier w s)
  then have c: "IsQualifierNameValid (CHR ''#'' # w)" "IsSubQualifierNameValid (CHR ''#'' # s)"
    by (simp_all add: qualifier_valid sub_qualifier_valid)
  then have "regex_match n SUB_QUALIFIER_INDICATOR"
    using sub_qualifier(2) qualifier_chars [OF c(1)] sub_qualifier_chars [OF c(2)] by (fastforce simp: sub_hash_indicator)
  then show ?thesis using sub_qualifier c by (simp add: name_sub_qualifier) (metis append_Cons append_Nil)
next
  case (restricted w)
  then have q: "IsRestrictedNameValid n" by (simp add: restricted_valid)
  then have "regex_match n RESTRICTED_INDICATOR" using restricted_chars by (auto simp: restricted_indicator)
  then show ?thesis using restricted q by (simp add: name_restricted)
qed

text \<open>C28. \<open>IsAssetNameValid\<close> accepts a name and gives it a type exactly when the grammar of asset names
  derives the name with that type, for every type. The grammar is written over character codes and does not
  use the regular expressions of the code. It has the code's leniency: a sub-qualifier or restricted name
  may begin with punctuation after its mark, a restricted name may be the name of the coin, and a vote name
  may have a middle part between two carets.\<close>

theorem IsAssetNameValid_grammar:
  assumes "splits split"
  shows "IsAssetNameValid split n = Inr t \<longleftrightarrow> asset_name t n"
  using accepted_name [of n t] grammatical_name [of t n] unfolding splits_unique [OF assms] by blast

theorem IsAssetNameValid_grammar_witness:
  "splits split_at \<and> IsAssetNameValid split_at ''RAVEN_X/SUB#tag1'' = Inr UNIQUE \<and> asset_name UNIQUE ''RAVEN_X/SUB#tag1''"
proof -
  have "IsAssetNameValid split_at ''RAVEN_X/SUB#tag1'' = Inr UNIQUE" by code_simp
  then show ?thesis
    using IsAssetNameValid_grammar [OF splits_split_at, of "''RAVEN_X/SUB#tag1''" UNIQUE] splits_split_at by simp
qed

subsection \<open>Parents and owners\<close>

lemma find_last: "c \<notin> set t \<Longrightarrow> find_last_of c (p @ c # t) = Some (length p)"
proof -
  assume "c \<notin> set t"
  then have "takeWhile (\<lambda>d. d \<noteq> c) (rev t @ c # rev p) = rev t" by (induction t rule: rev_induct) auto
  then show ?thesis by (simp add: find_last_of_def)
qed

text \<open>C29. The parent of a sub-asset, a unique asset or a message channel is a valid root or sub-asset
  name, the parent of a sub-qualifier is a valid qualifier, and the parent is shorter than the name,
  so that going from parent to parent ends.\<close>

theorem GetParentName_valid:
  assumes "splits split" and "IsAssetNameValid split n = Inr t" and "t \<in> {SUB, UNIQUE, MSGCHANNEL, SUB_QUALIFIER}"
  shows "length (GetParentName split n) < length n \<and>
    IsAssetNameValid split (GetParentName split n) \<in>
      (if t = SUB_QUALIFIER then {Inr QUALIFIER} else {Inr ROOT, Inr SUB})"
proof -
  have s: "split = split_at" by (rule splits_unique [OF assms(1)])
  have v: "IsAssetNameValid split_at n = Inr t" using assms(2) s by simp
  have a: "asset_name t n" using v by (rule accepted_name)
  have p: "IsAssetNameValid split_at p \<in> {Inr ROOT, Inr SUB}" if "asset_path p" "length p \<le> 30" for p
    using plain_name [OF that] by auto
  from a show ?thesis
  proof (cases rule: asset_name.cases)
    case (sub p u)
    then have "GetParentName split_at n = p"
      using v by (simp add: GetParentName_def find_last sub_clean sub_valid)
    then show ?thesis using sub p [of p] by (simp add: s)
  next
    case (unique p u)
    then have "GetParentName split_at n = p"
      using v unique_tag_chars [of u] by (simp add: GetParentName_def find_last unique_valid)
    then show ?thesis using unique p [of p] by (simp add: s)
  next
    case (channel p u)
    then have "GetParentName split_at n = p"
      using v channel_tag_chars [of u] channel_valid [of u] by (simp add: GetParentName_def find_last)
    then show ?thesis using channel p [of p] by (simp add: s)
  next
    case (sub_qualifier w u)
    then have "IsSubQualifierNameValid (CHR ''#'' # u)" by (simp add: sub_qualifier_valid)
    from sub_qualifier_hash [OF this] sub_qualifier have "GetParentName split_at n = CHR ''#'' # w"
      using v find_last [of "CHR ''/''" "CHR ''#'' # u" "CHR ''#'' # w"] by (simp add: GetParentName_def)
    then show ?thesis using sub_qualifier grammatical_name [OF asset_name.qualifier, of w] by (simp add: s)
  qed (use assms(3) in auto)
qed

theorem GetParentName_valid_witness:
  "splits split_at \<and> GetParentName split_at ''RAVEN_X/SUB/DEEP'' = ''RAVEN_X/SUB'' \<and>
   IsAssetNameValid split_at ''RAVEN_X/SUB'' \<in> {Inr ROOT, Inr SUB}"
proof -
  have "IsAssetNameValid split_at ''RAVEN_X/SUB/DEEP'' = Inr SUB" "GetParentName split_at ''RAVEN_X/SUB/DEEP'' = ''RAVEN_X/SUB''"
    by code_simp+
  then show ?thesis
    using GetParentName_valid [OF splits_split_at, of "''RAVEN_X/SUB/DEEP''" SUB] splits_split_at by simp
qed

text \<open>Every valid root or sub-asset name leaves room for the owner tag: with the tag appended it
  is a valid owner name.\<close>

theorem owner_name_valid:
  assumes "splits split" and "IsAssetNameValid split n \<in> {Inr ROOT, Inr SUB}"
  shows "IsAssetNameValid split (n @ ''!'') = Inr OWNER \<and> IsAssetNameAnOwner split (n @ ''!'')"
proof -
  have s: "split = split_at" by (rule splits_unique [OF assms(1)])
  have a: "asset_name ROOT n \<or> asset_name SUB n"
    using assms(2) accepted_name [of n] unfolding s by blast
  then have p: "asset_path n" "length n \<le> 30"
    by (auto elim!: asset_name_cases intro: asset_path.top asset_path.below [simplified])
  then have "asset_name OWNER (n @ ''!'')" using asset_name.owner by simp
  then have v: "IsAssetNameValid split_at (n @ ''!'') = Inr OWNER" by (rule grammatical_name)
  moreover have "regex_match (n @ ''!'') OWNER_INDICATOR"
    using path_clean [OF p(1)] by (auto simp: owner_indicator)
  ultimately show ?thesis unfolding s by (simp add: IsAssetNameAnOwner_def name_valid_def)
qed

theorem owner_name_valid_witness:
  "splits split_at \<and> IsAssetNameValid split_at ''ABC'' = Inr ROOT \<and> IsAssetNameValid split_at ''ABC!'' = Inr OWNER"
proof -
  have "IsAssetNameValid split_at ''ABC'' = Inr ROOT" by code_simp
  then show ?thesis using owner_name_valid [OF splits_split_at, of "''ABC''"] splits_split_at by simp
qed

text \<open>C30. A restricted name and its owner token: the validation of restricted names looks neither at the
  character after the dollar sign nor at the names of the coin, so a valid restricted name has a valid owner
  name, as \<open>RestrictedNameToOwnerName\<close> derives it, exactly when what follows the dollar sign does not begin
  with punctuation and is not a name of the coin. Otherwise the derived owner name is rejected.\<close>

theorem restricted_owner_valid:
  assumes "splits split" and "IsAssetNameValid split n = Inr RESTRICTED"
  shows "if punct (n ! 1) \<or> drop 1 n \<in> set reserved
    then isl (IsAssetNameValid split (RestrictedNameToOwnerName split n))
    else IsAssetNameValid split (RestrictedNameToOwnerName split n) = Inr OWNER"
proof -
  have s: "split = split_at" by (rule splits_unique [OF assms(1)])
  have v: "IsAssetNameValid split_at n = Inr RESTRICTED" using assms(2) s by simp
  obtain w where w: "n = CHR ''$'' # w" "plain_word w" "3 \<le> length w" "length w \<le> 30"
    using accepted_name [OF v] by (auto elim!: asset_name_cases)
  have c: "w \<noteq> []" "set w \<subseteq> set NAME_CHARS" using name_long [OF w(2)] by auto
  then have "regex_match n RESTRICTED_INDICATOR" using w by (simp add: restricted_indicator)
  then have r: "RestrictedNameToOwnerName split_at n = w @ ''!''"
    using w(1) v by (simp add: RestrictedNameToOwnerName_def IsAssetNameAnRestricted_def name_valid_def)
  have "set w \<inter> set ''^~#!/$'' = {}" using c(2) NAME_CHARS_clean by blast
  then have o: "regex_match (w @ ''!'') OWNER_INDICATOR" and slash: "CHR ''/'' \<notin> set w"
    using c(1) by (auto simp: owner_indicator)
  have "asset_path w \<longleftrightarrow> root_label w" using path_cases_slash [of w] slash by (auto simp: root_valid intro: asset_path.top)
  then have l: "asset_path w \<longleftrightarrow> \<not> punct (hd w) \<and> w \<notin> set reserved" using w(2,3) by (auto simp: root_label_def label_def)
  have "IsAssetNameValid split_at (w @ ''!'') = Inr t \<longleftrightarrow> t = OWNER \<and> asset_path w" for t
    unfolding name_owner [OF o] using w(4) by auto
  then have "if asset_path w then IsAssetNameValid split_at (w @ ''!'') = Inr OWNER else isl (IsAssetNameValid split_at (w @ ''!''))"
    by (cases "IsAssetNameValid split_at (w @ ''!'')") auto
  then show ?thesis unfolding s r l using w(1) c(1) by (simp add: hd_conv_nth)
qed

theorem restricted_owner_valid_witness:
  "splits split_at \<and> IsAssetNameValid split_at ''$.AB'' = Inr RESTRICTED \<and>
   isl (IsAssetNameValid split_at (RestrictedNameToOwnerName split_at ''$.AB'')) \<and>
   IsAssetNameValid split_at ''$RVH'' = Inr RESTRICTED \<and>
   isl (IsAssetNameValid split_at (RestrictedNameToOwnerName split_at ''$RVH'')) \<and>
   IsAssetNameValid split_at ''$ABC'' = Inr RESTRICTED \<and>
   IsAssetNameValid split_at (RestrictedNameToOwnerName split_at ''$ABC'') = Inr OWNER"
proof -
  have "IsAssetNameValid split_at ''$.AB'' = Inr RESTRICTED" "IsAssetNameValid split_at ''$RVH'' = Inr RESTRICTED"
    "IsAssetNameValid split_at ''$ABC'' = Inr RESTRICTED" by code_simp+
  then show ?thesis
    using restricted_owner_valid [OF splits_split_at, of "''$.AB''"] restricted_owner_valid [OF splits_split_at, of "''$RVH''"]
      restricted_owner_valid [OF splits_split_at, of "''$ABC''"] splits_split_at
    by (simp add: punct_def reserved_def)
qed

end
