(* ===== verification/Asset_Types.thy ===== *)
theory Asset_Types
  imports Transaction
begin

text \<open>
  The data of assets in scripts: the classes of \<open>src/src/assets/assettypes.h\<close> with their formats, the
  scripts that carry them (\<open>ConstructTransaction\<close> in \<open>src/src/assets/assets.cpp\<close>), the amounts that
  \<open>src/src/script/script.cpp\<close> reads out of scripts, and \<open>CScript::IsUnspendable\<close>. Strings are byte
  strings here; the readers look at how much of the stream is left, so that what follows the data
  matters.
\<close>

abbreviation (input) IPFS_SHA2_256 where "IPFS_SHA2_256 \<equiv> 0x12"
abbreviation (input) TXID_NOTIFIER where "TXID_NOTIFIER \<equiv> 0x54"
abbreviation (input) IPFS_SHA2_256_LEN where "IPFS_SHA2_256_LEN \<equiv> 0x20"

subsection \<open>Formats\<close>

definition Serialize_string :: "bytes \<Rightarrow> bytes" where
  "Serialize_string str = WriteCompactSize (length str) @ str"

definition Unserialize_string :: "bytes reader" where
  "Unserialize_string s = bindR (ReadCompactSize s) (\<lambda>(nSize, s). if nSize \<noteq> 0 then ser_read nSize s else Inr ([], s))"

definition WriteAssetHash :: "bytes \<Rightarrow> bytes" where
  "WriteAssetHash strIPFSHash =
     (if length strIPFSHash = 34 then IPFS_SHA2_256 # Serialize_string (drop 2 strIPFSHash)
      else if length strIPFSHash = 32 then TXID_NOTIFIER # Serialize_string strIPFSHash
      else [])"

text \<open>The string read and whether there was one.\<close>

definition ReadAssetHash :: "(bytes \<times> bool) reader" where
  "ReadAssetHash s =
     (if length s \<ge> 33 then
        bindR (ser_read 1 s) (\<lambda>(c, s). bindR (Unserialize_string s) (\<lambda>(h, s).
          Inr ((if hd c = IPFS_SHA2_256 then [IPFS_SHA2_256, IPFS_SHA2_256_LEN] @ take 32 h else take 32 h, True), s)))
      else Inr (([], False), s))"

record CNewAsset =
  new_strName :: bytes
  new_nAmount :: CAmount
  new_units :: int
  new_nReissuable :: int
  new_nHasIPFS :: int
  new_strIPFSHash :: bytes

record CAssetTransfer =
  tr_strName :: bytes
  tr_nAmount :: CAmount
  tr_message :: bytes
  tr_nExpireTime :: int

record CReissueAsset =
  re_strName :: bytes
  re_nAmount :: CAmount
  re_nUnits :: int
  re_nReissuable :: int
  re_strIPFSHash :: bytes

definition Serialize_CNewAsset :: "CNewAsset \<Rightarrow> bytes" where
  "Serialize_CNewAsset a =
     Serialize_string (new_strName a) @ Serialize_signed 8 (new_nAmount a) @ Serialize_signed 1 (new_units a) @
     Serialize_signed 1 (new_nReissuable a) @ Serialize_signed 1 (new_nHasIPFS a) @
     (if new_nHasIPFS a = 1 then WriteAssetHash (new_strIPFSHash a) else [])"

definition Unserialize_CNewAsset :: "CNewAsset reader" where
  "Unserialize_CNewAsset s =
     bindR (Unserialize_string s) (\<lambda>(name, s). bindR (Unserialize_signed 8 s) (\<lambda>(amount, s).
     bindR (Unserialize_signed 1 s) (\<lambda>(units, s). bindR (Unserialize_signed 1 s) (\<lambda>(reissuable, s).
     bindR (Unserialize_signed 1 s) (\<lambda>(hasIPFS, s).
     bindR (if hasIPFS = 1 then ReadAssetHash s else Inr (([], False), s)) (\<lambda>((h, _), s).
       Inr (\<lparr>new_strName = name, new_nAmount = amount, new_units = units, new_nReissuable = reissuable,
             new_nHasIPFS = hasIPFS, new_strIPFSHash = h\<rparr>, s)))))))"

definition Serialize_CAssetTransfer :: "CAssetTransfer \<Rightarrow> bytes" where
  "Serialize_CAssetTransfer a =
     Serialize_string (tr_strName a) @ Serialize_signed 8 (tr_nAmount a) @ WriteAssetHash (tr_message a) @
     (if WriteAssetHash (tr_message a) \<noteq> [] \<and> tr_nExpireTime a \<noteq> 0 then Serialize_signed 8 (tr_nExpireTime a) else [])"

definition Unserialize_CAssetTransfer :: "CAssetTransfer reader" where
  "Unserialize_CAssetTransfer s =
     bindR (Unserialize_string s) (\<lambda>(name, s). bindR (Unserialize_signed 8 s) (\<lambda>(amount, s).
     bindR (ReadAssetHash s) (\<lambda>((h, validIPFS), s).
     bindR (if validIPFS \<and> length s \<ge> 8 then Unserialize_signed 8 s else Inr (0, s)) (\<lambda>(expire, s).
       Inr (\<lparr>tr_strName = name, tr_nAmount = amount, tr_message = h, tr_nExpireTime = expire\<rparr>, s)))))"

definition Serialize_CReissueAsset :: "CReissueAsset \<Rightarrow> bytes" where
  "Serialize_CReissueAsset a =
     Serialize_string (re_strName a) @ Serialize_signed 8 (re_nAmount a) @ Serialize_signed 1 (re_nUnits a) @
     Serialize_signed 1 (re_nReissuable a) @ WriteAssetHash (re_strIPFSHash a)"

definition Unserialize_CReissueAsset :: "CReissueAsset reader" where
  "Unserialize_CReissueAsset s =
     bindR (Unserialize_string s) (\<lambda>(name, s). bindR (Unserialize_signed 8 s) (\<lambda>(amount, s).
     bindR (Unserialize_signed 1 s) (\<lambda>(units, s). bindR (Unserialize_signed 1 s) (\<lambda>(reissuable, s).
     bindR (ReadAssetHash s) (\<lambda>((h, _), s).
       Inr (\<lparr>re_strName = name, re_nAmount = amount, re_nUnits = units, re_nReissuable = reissuable,
             re_strIPFSHash = h\<rparr>, s))))))"

subsection \<open>Asset scripts\<close>

text \<open>What all three \<open>ConstructTransaction\<close> do with their kind letter and serialised data.\<close>

definition append_asset :: "CScript \<Rightarrow> byte \<Rightarrow> bytes \<Rightarrow> CScript" where
  "append_asset script kind ssAsset =
     (let vchMessage = [RVH_N, RVH_E, RVH_X, kind] @ ssAsset in
      push_data (script @ [OP_RVH_ASSET]) vchMessage @ [OP_DROP])"

definition CNewAsset_ConstructTransaction :: "CNewAsset \<Rightarrow> CScript \<Rightarrow> CScript" where
  "CNewAsset_ConstructTransaction a script = append_asset script RVH_Q (Serialize_CNewAsset a)"

definition ConstructOwnerTransaction :: "CNewAsset \<Rightarrow> CScript \<Rightarrow> CScript" where
  "ConstructOwnerTransaction a script = append_asset script RVH_O (Serialize_string (new_strName a @ [0x21]))"

definition CAssetTransfer_ConstructTransaction :: "CAssetTransfer \<Rightarrow> CScript \<Rightarrow> CScript" where
  "CAssetTransfer_ConstructTransaction a script = append_asset script RVH_T (Serialize_CAssetTransfer a)"

definition CReissueAsset_ConstructTransaction :: "CReissueAsset \<Rightarrow> CScript \<Rightarrow> CScript" where
  "CReissueAsset_ConstructTransaction a script = append_asset script RVH_N (Serialize_CReissueAsset a)"

definition AssetFromScript :: "CScript \<Rightarrow> CNewAsset option" where
  "AssetFromScript s =
     (case ScriptNewAsset s of None \<Rightarrow> None
      | Some nStartingIndex \<Rightarrow>
          (case Unserialize_CNewAsset (drop nStartingIndex s) of Inl _ \<Rightarrow> None | Inr (a, _) \<Rightarrow> Some a))"

definition TransferAssetFromScript :: "bool \<Rightarrow> CScript \<Rightarrow> CAssetTransfer option" where
  "TransferAssetFromScript scriptsSizeDeployed s =
     (case ScriptTransferAsset s of None \<Rightarrow> None
      | Some nStartingIndex \<Rightarrow>
          (case Unserialize_CAssetTransfer (drop (if scriptsSizeDeployed then nStartingIndex else 31) s) of
             Inl _ \<Rightarrow> None | Inr (a, _) \<Rightarrow> Some a))"

definition ReissueAssetFromScript :: "CScript \<Rightarrow> CReissueAsset option" where
  "ReissueAssetFromScript s =
     (case ScriptReissueAsset s of None \<Rightarrow> None
      | Some nStartingIndex \<Rightarrow>
          (case Unserialize_CReissueAsset (drop nStartingIndex s) of Inl _ \<Rightarrow> None | Inr (a, _) \<Rightarrow> Some a))"

definition AmountFromNewAssetScript :: "CScript \<Rightarrow> CAmount option" where
  "AmountFromNewAssetScript s =
     (case ScriptNewAsset s of None \<Rightarrow> None
      | Some nStartingIndex \<Rightarrow>
          (case Unserialize_CNewAsset (drop nStartingIndex s) of Inl _ \<Rightarrow> None | Inr (a, _) \<Rightarrow> Some (new_nAmount a)))"

definition AmountFromTransferScript :: "CScript \<Rightarrow> CAmount option" where
  "AmountFromTransferScript s =
     (case ScriptTransferAsset s of None \<Rightarrow> None
      | Some nStartingIndex \<Rightarrow>
          (case Unserialize_CAssetTransfer (drop nStartingIndex s) of Inl _ \<Rightarrow> None | Inr (a, _) \<Rightarrow> Some (tr_nAmount a)))"

definition AmountFromReissueScript :: "CScript \<Rightarrow> CAmount option" where
  "AmountFromReissueScript s =
     (case ScriptReissueAsset s of None \<Rightarrow> None
      | Some nStartingIndex \<Rightarrow>
          (case Unserialize_CReissueAsset (drop nStartingIndex s) of Inl _ \<Rightarrow> None | Inr (a, _) \<Rightarrow> Some (re_nAmount a)))"

definition OWNER_ASSET_AMOUNT :: CAmount where "OWNER_ASSET_AMOUNT = 1 * COIN"

definition GetAssetAmountFromScript :: "CScript \<Rightarrow> CAmount option" where
  "GetAssetAmountFromScript script =
     (case IsAssetScript script of
        None \<Rightarrow> None
      | Some (type, fIsOwner, _) \<Rightarrow>
          if type = TX_NEW_ASSET \<and> \<not> fIsOwner then AmountFromNewAssetScript script
          else if type = TX_TRANSFER_ASSET then AmountFromTransferScript script
          else if type = TX_NEW_ASSET \<and> fIsOwner then Some OWNER_ASSET_AMOUNT
          else if type = TX_REISSUE_ASSET then AmountFromReissueScript script
          else None)"

definition IsUnspendable :: "CScript \<Rightarrow> bool" where
  "IsUnspendable s \<longleftrightarrow>
     (s \<noteq> [] \<and> hd s = OP_RETURN) \<or> (s \<noteq> [] \<and> hd s = OP_RVH_ASSET) \<or> length s > MAX_SCRIPT_SIZE \<or>
     GetAssetAmountFromScript s = Some 0"

subsection \<open>Reading back\<close>

interpretation int8: canonical_codec "Serialize_signed 1" "Unserialize_signed 1" "in_signed 8"
  using signed_codec [of 1] by simp

interpretation str: canonical_codec Serialize_string Unserialize_string "\<lambda>v. length v \<le> MAX_SIZE"
proof
  show "Unserialize_string (Serialize_string v @ s) = Inr (v, s)" if "length v \<le> MAX_SIZE" for v s
    using that by (simp add: Unserialize_string_def Serialize_string_def csize.dec_enc)
  show "length v \<le> MAX_SIZE \<and> s = Serialize_string v @ t" if "Unserialize_string s = Inr (v, t)" for s v t
    using that
    by (auto simp: Unserialize_string_def Serialize_string_def csize.dec_iff bindR_Inr_iff ser_read_iff split: if_splits)
qed

definition valid_hash :: "bytes \<Rightarrow> bool" where
  "valid_hash h \<longleftrightarrow> length h = 32 \<or> (length h = 34 \<and> take 2 h = [IPFS_SHA2_256, IPFS_SHA2_256_LEN])"

lemma small_string: "length h \<le> 64 \<Longrightarrow> length h \<le> MAX_SIZE"
  by (simp add: MAX_SIZE_def)

lemma Serialize_string_length: "length h < 253 \<Longrightarrow> length (Serialize_string h) = Suc (length h)"
  by (simp add: Serialize_string_def WriteCompactSize_def ser_writedata_def)

lemma hash_read:
  assumes "valid_hash h"
  shows "ReadAssetHash (WriteAssetHash h @ s) = Inr ((h, True), s)"
proof -
  have r: "ser_read 1 (b # t) = Inr ([b], t)" for b :: byte and t
    using ser_read_append [of "[b]" 1 t] by simp
  from assms consider "length h = 32" | "length h = 34" "take 2 h = [IPFS_SHA2_256, IPFS_SHA2_256_LEN]"
    by (auto simp: valid_hash_def)
  then show ?thesis
  proof cases
    case 1
    then show ?thesis
      by (simp add: ReadAssetHash_def WriteAssetHash_def Serialize_string_length str.dec_enc MAX_SIZE_def r [simplified])
  next
    case 2
    have "[IPFS_SHA2_256, IPFS_SHA2_256_LEN] @ drop 2 h = h"
      using 2(2) append_take_drop_id [of 2 h] by metis
    then show ?thesis using 2(1)
      by (simp add: ReadAssetHash_def WriteAssetHash_def Serialize_string_length str.dec_enc MAX_SIZE_def r [simplified])
  qed
qed

lemma hash_absent: "length s < 33 \<Longrightarrow> ReadAssetHash s = Inr (([], False), s)"
  by (simp add: ReadAssetHash_def)

lemma WriteAssetHash_empty [simp]: "WriteAssetHash [] = []"
  by (simp add: WriteAssetHash_def)

lemma WriteAssetHash_nonempty: "valid_hash h \<Longrightarrow> WriteAssetHash h \<noteq> []"
  by (auto simp: valid_hash_def WriteAssetHash_def)

lemma WriteAssetHash_length: "length (WriteAssetHash h) \<le> 34"
  by (simp add: WriteAssetHash_def Serialize_string_length)

definition wf_transfer :: "CAssetTransfer \<Rightarrow> bool" where
  "wf_transfer a \<longleftrightarrow> length (tr_strName a) \<le> 32 \<and> in_signed 64 (tr_nAmount a) \<and> in_signed 64 (tr_nExpireTime a) \<and>
     (valid_hash (tr_message a) \<or> (tr_message a = [] \<and> tr_nExpireTime a = 0))"

definition wf_new :: "CNewAsset \<Rightarrow> bool" where
  "wf_new a \<longleftrightarrow> length (new_strName a) \<le> 32 \<and> in_signed 64 (new_nAmount a) \<and> in_signed 8 (new_units a) \<and>
     in_signed 8 (new_nReissuable a) \<and>
     (new_nHasIPFS a = 1 \<and> valid_hash (new_strIPFSHash a) \<or> new_nHasIPFS a = 0 \<and> new_strIPFSHash a = [])"

definition wf_reissue :: "CReissueAsset \<Rightarrow> bool" where
  "wf_reissue a \<longleftrightarrow> length (re_strName a) \<le> 32 \<and> in_signed 64 (re_nAmount a) \<and> in_signed 8 (re_nUnits a) \<and>
     in_signed 8 (re_nReissuable a) \<and> (valid_hash (re_strIPFSHash a) \<or> re_strIPFSHash a = [])"

lemma transfer_read:
  assumes "wf_transfer a" and "length s < 8"
  shows "Unserialize_CAssetTransfer (Serialize_CAssetTransfer a @ s) = Inr (a, s)"
proof (cases "valid_hash (tr_message a)")
  case True
  have l: "8 \<le> length (Serialize_signed 8 x)" for x
    by (simp add: Serialize_signed_def ser_writedata_def)
  show ?thesis
  proof (cases "tr_nExpireTime a = 0")
    case True
    then show ?thesis using \<open>valid_hash (tr_message a)\<close> assms
      by (simp add: Unserialize_CAssetTransfer_def Serialize_CAssetTransfer_def wf_transfer_def str.dec_enc int64.dec_enc
          hash_read small_string)
  next
    case False
    then show ?thesis using \<open>valid_hash (tr_message a)\<close> assms l
      by (simp add: Unserialize_CAssetTransfer_def Serialize_CAssetTransfer_def wf_transfer_def str.dec_enc int64.dec_enc
          hash_read small_string WriteAssetHash_nonempty trans_le_add1)
  qed
next
  case False
  then show ?thesis using assms
    by (simp add: Unserialize_CAssetTransfer_def Serialize_CAssetTransfer_def wf_transfer_def str.dec_enc int64.dec_enc
        hash_absent small_string)
qed

lemma new_read:
  assumes "wf_new a" and "length s < 33"
  shows "Unserialize_CNewAsset (Serialize_CNewAsset a @ s) = Inr (a, s)"
proof -
  have "in_signed 8 (new_nHasIPFS a)" using assms(1) by (auto simp: wf_new_def in_signed_def)
  then show ?thesis using assms
    by (auto simp: Unserialize_CNewAsset_def Serialize_CNewAsset_def wf_new_def str.dec_enc int64.dec_enc int8.dec_enc [simplified]
        hash_read small_string)
qed

lemma reissue_read:
  assumes "wf_reissue a" and "length s < 33"
  shows "Unserialize_CReissueAsset (Serialize_CReissueAsset a @ s) = Inr (a, s)"
  using assms
  by (auto simp: Unserialize_CReissueAsset_def Serialize_CReissueAsset_def wf_reissue_def str.dec_enc int64.dec_enc
      int8.dec_enc [simplified] hash_read hash_absent small_string)

lemma signed_length: "length (Serialize_signed k x) = k"
  by (simp add: Serialize_signed_def ser_writedata_def)

lemma transfer_size: "wf_transfer a \<Longrightarrow> length (Serialize_CAssetTransfer a) \<le> 83"
  using WriteAssetHash_length [of "tr_message a"]
  by (simp add: Serialize_CAssetTransfer_def wf_transfer_def Serialize_string_length signed_length)

lemma new_size: "wf_new a \<Longrightarrow> 12 \<le> length (Serialize_CNewAsset a) \<and> length (Serialize_CNewAsset a) \<le> 78"
  using WriteAssetHash_length [of "new_strIPFSHash a"]
  by (simp add: Serialize_CNewAsset_def wf_new_def Serialize_string_length signed_length)

lemma reissue_size: "wf_reissue a \<Longrightarrow> length (Serialize_CReissueAsset a) \<le> 77"
  using WriteAssetHash_length [of "re_strIPFSHash a"]
  by (simp add: Serialize_CReissueAsset_def wf_reissue_def Serialize_string_length signed_length)

lemma append_asset_bytes:
  assumes "length pk = 25" and "length d \<le> 100"
  obtains pre where "append_asset pk kind d = pre @ [RVH_N, RVH_E, RVH_X, kind] @ d @ [OP_DROP]"
    "length pre = 27 \<or> length pre = 28 \<and> pre ! 27 \<noteq> RVH_N" "pre ! 25 = OP_RVH_ASSET"
proof (cases "4 + length d < 76")
  case True
  show ?thesis
    by (rule that [of "pk @ [OP_RVH_ASSET, of_nat (4 + length d)]"])
      (use True assms in \<open>simp_all add: append_asset_def push_data_def nth_append\<close>)
next
  case False
  define n where "n = 4 + length d"
  have "n < 256" using assms(2) by (simp add: n_def)
  then have "unat (of_nat n :: byte) = n" by (simp add: unat_of_nat)
  moreover have "n \<noteq> 114" using assms(2) by (simp add: n_def)
  ultimately have "of_nat n \<noteq> (114 :: byte)" by auto
  then show ?thesis
    by (intro that [of "pk @ [OP_RVH_ASSET, OP_PUSHDATA1, of_nat n]"])
      (use False assms in \<open>simp_all add: append_asset_def push_data_def nth_append n_def\<close>)
qed

lemma IsAssetScript_marked:
  assumes "s ! 25 = OP_RVH_ASSET" and "31 < length s" and "asset_marker s = i" and "0 < i" and "s ! i = kind"
  shows "kind = RVH_T \<Longrightarrow> IsAssetScript s = Some (TX_TRANSFER_ASSET, False, i + 1)"
    "kind = RVH_Q \<Longrightarrow> 39 < length s \<Longrightarrow> IsAssetScript s = Some (TX_NEW_ASSET, False, i + 1)"
    "kind = RVH_N \<Longrightarrow> IsAssetScript s = Some (TX_REISSUE_ASSET, False, i + 1)"
  using assms by (simp_all add: IsAssetScript_def)

lemma append_asset_found:
  assumes "length pk = 25" and "length d \<le> 100" and "kind = RVH_Q \<Longrightarrow> 7 < length d"
    and "type = (if kind = RVH_T then TX_TRANSFER_ASSET else if kind = RVH_Q then TX_NEW_ASSET else TX_REISSUE_ASSET)"
    and "kind \<in> {RVH_T, RVH_Q, RVH_N}"
  shows "\<exists>i. drop i (append_asset pk kind d) = d @ [OP_DROP] \<and> IsAssetScript (append_asset pk kind d) = Some (type, False, i)"
proof -
  obtain pre where p: "append_asset pk kind d = pre @ [RVH_N, RVH_E, RVH_X, kind] @ d @ [OP_DROP]"
    "length pre = 27 \<or> length pre = 28 \<and> pre ! 27 \<noteq> RVH_N" "pre ! 25 = OP_RVH_ASSET"
    using append_asset_bytes [OF assms(1,2), of kind] by blast
  define s where "s = append_asset pk kind d"
  note p = p [folded s_def]
  have n: "s ! 25 = OP_RVH_ASSET" "31 < length s" "s ! (length pre + 3) = kind" using p by (auto simp: nth_append)
  have m: "asset_marker s = length pre + 3"
    using p(2)
  proof
    assume "length pre = 27"
    then show ?thesis by (simp add: p(1) asset_marker_def nth_append)
  next
    assume "length pre = 28 \<and> pre ! 27 \<noteq> RVH_N"
    then show ?thesis by (simp add: p(1) asset_marker_def nth_append)
  qed
  have l: "39 < length s" if "7 < length d" using that p(1,2) by auto
  have d: "drop (length pre + 4) s = d @ [OP_DROP]" by (simp add: p(1))
  from assms(5) have "IsAssetScript s = Some (type, False, length pre + 3 + 1)"
    using IsAssetScript_marked [OF n(1,2) m _ n(3)] l assms(3,4) by auto
  with d show ?thesis unfolding s_def [symmetric] by (intro exI [of _ "length pre + 4"]) simp
qed

text \<open>C31. An asset transfer, an issue and a reissue that are appended to a script of 25 bytes, as for a
  payment to a key hash, are recognised and read back as they were built, and the amount the script
  code reads out of them is theirs.\<close>

theorem asset_script_roundtrip:
  assumes "length pk = 25"
  shows "(wf_transfer a \<longrightarrow> (let s = CAssetTransfer_ConstructTransaction a pk in
      TransferAssetFromScript True s = Some a \<and> GetAssetAmountFromScript s = Some (tr_nAmount a))) \<and>
    (wf_new n \<longrightarrow> (let s = CNewAsset_ConstructTransaction n pk in
      AssetFromScript s = Some n \<and> GetAssetAmountFromScript s = Some (new_nAmount n))) \<and>
    (wf_reissue r \<longrightarrow> (let s = CReissueAsset_ConstructTransaction r pk in
      ReissueAssetFromScript s = Some r \<and> GetAssetAmountFromScript s = Some (re_nAmount r)))"
proof (intro conjI impI)
  assume w: "wf_transfer a"
  let ?d = "Serialize_CAssetTransfer a"
  from append_asset_found [OF assms, of ?d RVH_T] transfer_size [OF w] obtain i where s:
    "drop i (append_asset pk RVH_T ?d) = ?d @ [OP_DROP]"
    "IsAssetScript (append_asset pk RVH_T ?d) = Some (TX_TRANSFER_ASSET, False, i)" by auto
  from s show "let s = CAssetTransfer_ConstructTransaction a pk in
      TransferAssetFromScript True s = Some a \<and> GetAssetAmountFromScript s = Some (tr_nAmount a)"
    using transfer_read [OF w, of "[OP_DROP]"]
    by (simp add: CAssetTransfer_ConstructTransaction_def TransferAssetFromScript_def GetAssetAmountFromScript_def
        AmountFromTransferScript_def ScriptTransferAsset_def Let_def)
next
  assume w: "wf_new n"
  let ?d = "Serialize_CNewAsset n"
  from append_asset_found [OF assms, of ?d RVH_Q] new_size [OF w] obtain i where s:
    "drop i (append_asset pk RVH_Q ?d) = ?d @ [OP_DROP]"
    "IsAssetScript (append_asset pk RVH_Q ?d) = Some (TX_NEW_ASSET, False, i)" by auto
  from s show "let s = CNewAsset_ConstructTransaction n pk in
      AssetFromScript s = Some n \<and> GetAssetAmountFromScript s = Some (new_nAmount n)"
    using new_read [OF w, of "[OP_DROP]"]
    by (simp add: CNewAsset_ConstructTransaction_def AssetFromScript_def GetAssetAmountFromScript_def
        AmountFromNewAssetScript_def ScriptNewAsset_def Let_def)
next
  assume w: "wf_reissue r"
  let ?d = "Serialize_CReissueAsset r"
  from append_asset_found [OF assms, of ?d RVH_N] reissue_size [OF w] obtain i where s:
    "drop i (append_asset pk RVH_N ?d) = ?d @ [OP_DROP]"
    "IsAssetScript (append_asset pk RVH_N ?d) = Some (TX_REISSUE_ASSET, False, i)" by auto
  from s show "let s = CReissueAsset_ConstructTransaction r pk in
      ReissueAssetFromScript s = Some r \<and> GetAssetAmountFromScript s = Some (re_nAmount r)"
    using reissue_read [OF w, of "[OP_DROP]"]
    by (simp add: CReissueAsset_ConstructTransaction_def ReissueAssetFromScript_def GetAssetAmountFromScript_def
        AmountFromReissueScript_def ScriptReissueAsset_def Let_def)
qed

lemma push_data_prefix: "\<exists>x. push_data s b = s @ x @ b \<and> length x \<le> 5"
  by (simp add: push_data_def)

definition sample_transfer :: CAssetTransfer where
  "sample_transfer = \<lparr>tr_strName = replicate 32 65, tr_nAmount = 7 * COIN, tr_message = replicate 32 9, tr_nExpireTime = 5\<rparr>"

theorem asset_script_roundtrip_witness:
  "wf_transfer sample_transfer \<and>
   TransferAssetFromScript True (CAssetTransfer_ConstructTransaction sample_transfer (replicate 25 0)) = Some sample_transfer \<and>
   \<not> IsUnspendable (CAssetTransfer_ConstructTransaction sample_transfer (replicate 25 0))"
proof -
  have w: "wf_transfer sample_transfer"
    by (simp add: sample_transfer_def wf_transfer_def in_signed_def valid_hash_def COIN_def)
  let ?s = "CAssetTransfer_ConstructTransaction sample_transfer (replicate 25 0)"
  have r: "TransferAssetFromScript True ?s = Some sample_transfer" "GetAssetAmountFromScript ?s = Some (tr_nAmount sample_transfer)"
    using asset_script_roundtrip [of "replicate 25 0" sample_transfer] w by (simp_all add: Let_def)
  obtain x where p: "push_data (replicate 25 0 @ [OP_RVH_ASSET]) (RVH_N # RVH_E # RVH_X # RVH_T # Serialize_CAssetTransfer sample_transfer) =
      (replicate 25 0 @ [OP_RVH_ASSET]) @ x @ RVH_N # RVH_E # RVH_X # RVH_T # Serialize_CAssetTransfer sample_transfer" "length x \<le> 5"
    using push_data_prefix by blast
  have "hd ?s = 0" "length ?s \<le> MAX_SCRIPT_SIZE"
    using p transfer_size [OF w]
    by (simp_all add: CAssetTransfer_ConstructTransaction_def append_asset_def hd_append MAX_SCRIPT_SIZE_def)
  with w r show ?thesis by (simp add: IsUnspendable_def sample_transfer_def COIN_def)
qed

end
