(* ===== verification/Coins.thy ===== *)
theory Coins
  imports Asset_Types "HOL-Library.AList"
begin

text \<open>
  The unspent outputs: \<open>Coin\<close>, \<open>CCoinsCacheEntry\<close>, \<open>CCoinsViewCache\<close> of \<open>src/src/coins.{h,cpp}\<close> and
  the database view of \<open>src/src/txdb.cpp\<close>. A stack of caches over a database is the type \<open>view\<close>; every
  operation takes the stack and returns it changed, because a lookup fills the caches it goes
  through. \<open>cacheCoins\<close> is an association list, whose order stands for the order a hash table is
  iterated in; no result below depends on it. The bytes a coin occupies on the heap are a function
  \<open>usage\<close> of the coin, and the calls with an \<open>assetsCache\<close> argument are modelled with a null one.

  \<open>coins_of\<close> is the abstract content of a view, a map from outpoints to unspent coins. The operations
  refine the operations on that map, provided the flags \<open>DIRTY\<close> and \<open>FRESH\<close> say what they are
  documented to say, which \<open>wf_view\<close> states and every operation keeps.
\<close>

record Coin =
  coin_out :: CTxOut
  fCoinBase :: bool
  coin_nHeight :: "31 word"

definition Coin_of :: "CTxOut \<Rightarrow> int \<Rightarrow> bool \<Rightarrow> Coin" where
  "Coin_of outIn nHeightIn fCoinBaseIn = \<lparr>coin_out = outIn, fCoinBase = fCoinBaseIn, coin_nHeight = word_of_int nHeightIn\<rparr>"

definition Coin_Clear :: Coin where
  "Coin_Clear = \<lparr>coin_out = CTxOut_null, fCoinBase = False, coin_nHeight = 0\<rparr>"

definition IsSpent :: "Coin \<Rightarrow> bool" where
  "IsSpent c = CTxOut_IsNull (coin_out c)"

record CCoinsCacheEntry =
  coin :: Coin
  DIRTY :: bool
  FRESH :: bool

type_synonym CCoinsMap = "(COutPoint \<times> CCoinsCacheEntry) list"

record CCoinsViewCache =
  hashBlock :: uint256
  cacheCoins :: CCoinsMap
  cachedCoinsUsage :: u64

record CCoinsViewDB =
  db_coins :: "(COutPoint \<times> Coin) list"
  db_best :: "uint256 option"
  db_heads :: "uint256 list option"

datatype view = ViewDB CCoinsViewDB | ViewCache CCoinsViewCache view

subsection \<open>Lookups\<close>

definition cache_fetched :: "(Coin \<Rightarrow> u64) \<Rightarrow> CCoinsViewCache \<Rightarrow> COutPoint \<Rightarrow> Coin \<Rightarrow> CCoinsViewCache" where
  "cache_fetched usage c out tmp =
     c\<lparr>cacheCoins := AList.update out \<lparr>coin = tmp, DIRTY = False, FRESH = IsSpent tmp\<rparr> (cacheCoins c),
       cachedCoinsUsage := cachedCoinsUsage c + usage tmp\<rparr>"

fun FetchCoin :: "(Coin \<Rightarrow> u64) \<Rightarrow> CCoinsViewCache \<Rightarrow> view \<Rightarrow> COutPoint \<Rightarrow> Coin option \<times> CCoinsViewCache \<times> view"
and GetCoin :: "(Coin \<Rightarrow> u64) \<Rightarrow> view \<Rightarrow> COutPoint \<Rightarrow> Coin option \<times> view" where
  "FetchCoin usage c base out =
     (case map_of (cacheCoins c) out of
        Some e \<Rightarrow> (Some (coin e), c, base)
      | None \<Rightarrow>
          (case GetCoin usage base out of
             (None, base) \<Rightarrow> (None, c, base)
           | (Some tmp, base) \<Rightarrow> (Some tmp, cache_fetched usage c out tmp, base)))"
| "GetCoin usage (ViewDB db) out = (map_of (db_coins db) out, ViewDB db)"
| "GetCoin usage (ViewCache c base) out =
     (case FetchCoin usage c base out of
        (Some x, c, base) \<Rightarrow> (if IsSpent x then None else Some x, ViewCache c base)
      | (None, c, base) \<Rightarrow> (None, ViewCache c base))"

definition AccessCoin :: "(Coin \<Rightarrow> u64) \<Rightarrow> CCoinsViewCache \<Rightarrow> view \<Rightarrow> COutPoint \<Rightarrow> Coin \<times> CCoinsViewCache \<times> view" where
  "AccessCoin usage c base out =
     (case FetchCoin usage c base out of (Some x, s) \<Rightarrow> (x, s) | (None, s) \<Rightarrow> (Coin_Clear, s))"

definition HaveCoin :: "(Coin \<Rightarrow> u64) \<Rightarrow> CCoinsViewCache \<Rightarrow> view \<Rightarrow> COutPoint \<Rightarrow> bool \<times> CCoinsViewCache \<times> view" where
  "HaveCoin usage c base out =
     (case FetchCoin usage c base out of (Some x, s) \<Rightarrow> (\<not> IsSpent x, s) | (None, s) \<Rightarrow> (False, s))"

definition HaveCoinInCache :: "CCoinsViewCache \<Rightarrow> COutPoint \<Rightarrow> bool" where
  "HaveCoinInCache c out = (case map_of (cacheCoins c) out of Some e \<Rightarrow> \<not> IsSpent (coin e) | None \<Rightarrow> False)"

fun GetBestBlock :: "view \<Rightarrow> uint256 \<times> view" where
  "GetBestBlock (ViewDB db) = (case db_best db of Some h \<Rightarrow> h | None \<Rightarrow> uint256_null, ViewDB db)"
| "GetBestBlock (ViewCache c base) =
     (if hashBlock c = uint256_null
      then (case GetBestBlock base of (h, base) \<Rightarrow> (h, ViewCache (c\<lparr>hashBlock := h\<rparr>) base))
      else (hashBlock c, ViewCache c base))"

definition SetBestBlock :: "CCoinsViewCache \<Rightarrow> uint256 \<Rightarrow> CCoinsViewCache" where
  "SetBestBlock c hashBlockIn = c\<lparr>hashBlock := hashBlockIn\<rparr>"

subsection \<open>Changes\<close>

definition AddCoin :: "(Coin \<Rightarrow> u64) \<Rightarrow> CCoinsViewCache \<Rightarrow> COutPoint \<Rightarrow> Coin \<Rightarrow> bool \<Rightarrow> CCoinsViewCache result" where
  "AddCoin usage c out x possible_overwrite =
     bindR (assertR (\<not> IsSpent x)) (\<lambda>_.
       if IsUnspendable (scriptPubKey (coin_out x)) then Inr c
       else
         let (e, inserted) = (case map_of (cacheCoins c) out of
                Some e \<Rightarrow> (e, False) | None \<Rightarrow> (\<lparr>coin = Coin_Clear, DIRTY = False, FRESH = False\<rparr>, True));
             n = (if inserted then cachedCoinsUsage c else cachedCoinsUsage c - usage (coin e)) in
         if \<not> possible_overwrite \<and> \<not> IsSpent (coin e)
         then Inl (Thrown ''Adding new coin that replaces non-pruned entry'')
         else
           let fresh = (if possible_overwrite then False else \<not> DIRTY e) in
           Inr (c\<lparr>cacheCoins := AList.update out \<lparr>coin = x, DIRTY = True, FRESH = FRESH e \<or> fresh\<rparr> (cacheCoins c),
                   cachedCoinsUsage := n + usage x\<rparr>))"

text \<open>The boolean result, and the coin that is moved out when a coin was found.\<close>

definition SpendCoin :: "(Coin \<Rightarrow> u64) \<Rightarrow> CCoinsViewCache \<Rightarrow> view \<Rightarrow> COutPoint \<Rightarrow> (bool \<times> Coin option) \<times> CCoinsViewCache \<times> view" where
  "SpendCoin usage c base out =
     (case FetchCoin usage c base out of
        (None, s) \<Rightarrow> ((False, None), s)
      | (Some x, c, base) \<Rightarrow>
          let e = the (map_of (cacheCoins c) out);
              c = c\<lparr>cachedCoinsUsage := cachedCoinsUsage c - usage (coin e)\<rparr> in
          ((True, Some (coin e)),
           (if FRESH e then c\<lparr>cacheCoins := AList.delete out (cacheCoins c)\<rparr>
            else c\<lparr>cacheCoins := AList.update out (e\<lparr>coin := Coin_Clear, DIRTY := True\<rparr>) (cacheCoins c)\<rparr>), base))"

definition Uncache :: "(Coin \<Rightarrow> u64) \<Rightarrow> CCoinsViewCache \<Rightarrow> COutPoint \<Rightarrow> CCoinsViewCache" where
  "Uncache usage c out =
     (case map_of (cacheCoins c) out of
        Some e \<Rightarrow>
          if \<not> DIRTY e \<and> \<not> FRESH e
          then c\<lparr>cacheCoins := AList.delete out (cacheCoins c), cachedCoinsUsage := cachedCoinsUsage c - usage (coin e)\<rparr>
          else c
      | None \<Rightarrow> c)"

subsection \<open>Flushing\<close>

text \<open>One entry of the child's map written into the parent cache.\<close>

definition write_entry :: "(Coin \<Rightarrow> u64) \<Rightarrow> COutPoint \<times> CCoinsCacheEntry \<Rightarrow> CCoinsViewCache \<Rightarrow> CCoinsViewCache result" where
  "write_entry usage it c =
     (case it of (out, e) \<Rightarrow>
        if \<not> DIRTY e then Inr c
        else
          (case map_of (cacheCoins c) out of
             None \<Rightarrow>
               if \<not> (FRESH e \<and> IsSpent (coin e))
               then Inr (c\<lparr>cacheCoins := AList.update out \<lparr>coin = coin e, DIRTY = True, FRESH = FRESH e\<rparr> (cacheCoins c),
                           cachedCoinsUsage := cachedCoinsUsage c + usage (coin e)\<rparr>)
               else Inr c
           | Some us \<Rightarrow>
               if FRESH e \<and> \<not> IsSpent (coin us)
               then Inl (Thrown ''FRESH flag misapplied to cache entry for base transaction with spendable outputs'')
               else if FRESH us \<and> IsSpent (coin e)
               then Inr (c\<lparr>cacheCoins := AList.delete out (cacheCoins c),
                           cachedCoinsUsage := cachedCoinsUsage c - usage (coin us)\<rparr>)
               else Inr (c\<lparr>cacheCoins := AList.update out (us\<lparr>coin := coin e, DIRTY := True\<rparr>) (cacheCoins c),
                           cachedCoinsUsage := cachedCoinsUsage c - usage (coin us) + usage (coin e)\<rparr>)))"

fun write_entries :: "(Coin \<Rightarrow> u64) \<Rightarrow> CCoinsMap \<Rightarrow> CCoinsViewCache \<Rightarrow> CCoinsViewCache result" where
  "write_entries usage [] c = Inr c"
| "write_entries usage (it # its) c = bindR (write_entry usage it c) (write_entries usage its)"

definition cache_BatchWrite :: "(Coin \<Rightarrow> u64) \<Rightarrow> CCoinsMap \<Rightarrow> uint256 \<Rightarrow> CCoinsViewCache \<Rightarrow> CCoinsViewCache result" where
  "cache_BatchWrite usage mapCoins hashBlockIn c =
     bindR (write_entries usage mapCoins c) (\<lambda>c. Inr (c\<lparr>hashBlock := hashBlockIn\<rparr>))"

text \<open>The operations a database batch can hold; \<open>db_write\<close> is the effect of \<open>WriteBatch\<close>, which
  LevelDB applies as one.\<close>

datatype db_op = EraseBest | WriteHeads "uint256 list" | EraseCoin COutPoint | WriteCoin COutPoint Coin | EraseHeads | WriteBest uint256

fun db_apply :: "db_op \<Rightarrow> CCoinsViewDB \<Rightarrow> CCoinsViewDB" where
  "db_apply EraseBest db = db\<lparr>db_best := None\<rparr>"
| "db_apply (WriteHeads hs) db = db\<lparr>db_heads := Some hs\<rparr>"
| "db_apply (EraseCoin out) db = db\<lparr>db_coins := AList.delete out (db_coins db)\<rparr>"
| "db_apply (WriteCoin out x) db = db\<lparr>db_coins := AList.update out x (db_coins db)\<rparr>"
| "db_apply EraseHeads db = db\<lparr>db_heads := None\<rparr>"
| "db_apply (WriteBest h) db = db\<lparr>db_best := Some h\<rparr>"

definition db_write :: "db_op list \<Rightarrow> CCoinsViewDB \<Rightarrow> CCoinsViewDB" where
  "db_write batch db = fold db_apply batch db"

text \<open>The batches in the order they are written; \<open>full\<close> says when the size estimate of a batch passes
  the limit.\<close>

fun db_batches :: "(db_op list \<Rightarrow> bool) \<Rightarrow> uint256 \<Rightarrow> CCoinsMap \<Rightarrow> db_op list \<Rightarrow> db_op list list" where
  "db_batches full h [] batch = [batch @ [EraseHeads, WriteBest h]]"
| "db_batches full h ((out, e) # its) batch =
     (let batch = (if DIRTY e then batch @ [if IsSpent (coin e) then EraseCoin out else WriteCoin out (coin e)] else batch) in
      if full batch then batch # db_batches full h its [] else db_batches full h its batch)"

definition old_tip :: "CCoinsViewDB \<Rightarrow> uint256 \<Rightarrow> uint256 result" where
  "old_tip db h =
     (let tip = (case db_best db of Some b \<Rightarrow> b | None \<Rightarrow> uint256_null) in
      if tip = uint256_null then
        (case db_heads db of
           Some [h0, h1] \<Rightarrow> bindR (assertR (h0 = h)) (\<lambda>_. Inr h1)
         | _ \<Rightarrow> Inr tip)
      else Inr tip)"

definition db_plan :: "(db_op list \<Rightarrow> bool) \<Rightarrow> CCoinsMap \<Rightarrow> uint256 \<Rightarrow> CCoinsViewDB \<Rightarrow> db_op list list result" where
  "db_plan full mapCoins h db =
     bindR (assertR (h \<noteq> uint256_null)) (\<lambda>_.
     bindR (old_tip db h) (\<lambda>tip. Inr (db_batches full h mapCoins [EraseBest, WriteHeads [h, tip]])))"

definition db_BatchWrite :: "(db_op list \<Rightarrow> bool) \<Rightarrow> CCoinsMap \<Rightarrow> uint256 \<Rightarrow> CCoinsViewDB \<Rightarrow> CCoinsViewDB result" where
  "db_BatchWrite full mapCoins h db = bindR (db_plan full mapCoins h db) (\<lambda>batches. Inr (fold db_write batches db))"

definition BatchWrite :: "(Coin \<Rightarrow> u64) \<Rightarrow> (db_op list \<Rightarrow> bool) \<Rightarrow> CCoinsMap \<Rightarrow> uint256 \<Rightarrow> view \<Rightarrow> view result" where
  "BatchWrite usage full mapCoins h v =
     (case v of
        ViewDB db \<Rightarrow> bindR (db_BatchWrite full mapCoins h db) (\<lambda>db. Inr (ViewDB db))
      | ViewCache c base \<Rightarrow> bindR (cache_BatchWrite usage mapCoins h c) (\<lambda>c. Inr (ViewCache c base)))"

definition Flush :: "(Coin \<Rightarrow> u64) \<Rightarrow> (db_op list \<Rightarrow> bool) \<Rightarrow> CCoinsViewCache \<Rightarrow> view \<Rightarrow> (CCoinsViewCache \<times> view) result" where
  "Flush usage full c base =
     bindR (BatchWrite usage full (cacheCoins c) (hashBlock c) base) (\<lambda>base.
       Inr (c\<lparr>cacheCoins := [], cachedCoinsUsage := 0\<rparr>, base))"

subsection \<open>Transactions\<close>

fun have_all :: "(Coin \<Rightarrow> u64) \<Rightarrow> CTxIn list \<Rightarrow> CCoinsViewCache \<Rightarrow> view \<Rightarrow> bool \<times> CCoinsViewCache \<times> view" where
  "have_all usage [] c base = (True, c, base)"
| "have_all usage (txin # ins) c base =
     (case HaveCoin usage c base (prevout txin) of
        (False, s) \<Rightarrow> (False, s)
      | (True, c, base) \<Rightarrow> have_all usage ins c base)"

definition HaveInputs :: "(Coin \<Rightarrow> u64) \<Rightarrow> CTransaction \<Rightarrow> CCoinsViewCache \<Rightarrow> view \<Rightarrow> bool \<times> CCoinsViewCache \<times> view" where
  "HaveInputs usage tx c base = (if \<not> IsCoinBase tx then have_all usage (vin tx) c base else (True, c, base))"

fun value_in :: "(Coin \<Rightarrow> u64) \<Rightarrow> CTxIn list \<Rightarrow> CAmount \<Rightarrow> CCoinsViewCache \<Rightarrow> view \<Rightarrow> (CAmount \<times> CCoinsViewCache \<times> view) result" where
  "value_in usage [] nResult c base = Inr (nResult, c, base)"
| "value_in usage (txin # ins) nResult c base =
     (case AccessCoin usage c base (prevout txin) of (x, c, base) \<Rightarrow>
        bindR (i64 (nResult + nValue (coin_out x))) (\<lambda>nResult. value_in usage ins nResult c base))"

definition GetValueIn :: "(Coin \<Rightarrow> u64) \<Rightarrow> CTransaction \<Rightarrow> CCoinsViewCache \<Rightarrow> view \<Rightarrow> (CAmount \<times> CCoinsViewCache \<times> view) result" where
  "GetValueIn usage tx c base = (if IsCoinBase tx then Inr (0, c, base) else value_in usage (vin tx) 0 c base)"

text \<open>The outputs of a transaction, from index \<open>i\<close> on.\<close>

fun add_outputs :: "(Coin \<Rightarrow> u64) \<Rightarrow> uint256 \<Rightarrow> bool \<Rightarrow> bool \<Rightarrow> int \<Rightarrow> nat \<Rightarrow> CTxOut list \<Rightarrow> CCoinsViewCache \<Rightarrow> view \<Rightarrow>
   (CCoinsViewCache \<times> view) result" where
  "add_outputs usage txid fCoinbase check nHeight i [] c base = Inr (c, base)"
| "add_outputs usage txid fCoinbase check nHeight i (txout # outs) c base =
     (let out = \<lparr>prev_hash = txid, prev_n = of_nat i\<rparr>;
          (overwrite, c, base) = (if check then HaveCoin usage c base out else (fCoinbase, c, base)) in
      bindR (AddCoin usage c out (Coin_of txout nHeight fCoinbase) overwrite) (\<lambda>c.
        add_outputs usage txid fCoinbase check nHeight (i + 1) outs c base))"

definition AddCoins :: "crypto \<Rightarrow> (Coin \<Rightarrow> u64) \<Rightarrow> CTransaction \<Rightarrow> int \<Rightarrow> bool \<Rightarrow> CCoinsViewCache \<Rightarrow> view \<Rightarrow>
   (CCoinsViewCache \<times> view) result" where
  "AddCoins cr usage tx nHeight check c base =
     add_outputs usage (GetHash cr tx) (IsCoinBase tx) check nHeight 0 (vout tx) c base"

subsection \<open>The content of a view\<close>

definition unspent :: "Coin \<Rightarrow> Coin option" where
  "unspent x = (if IsSpent x then None else Some x)"

fun coins_of :: "view \<Rightarrow> COutPoint \<Rightarrow> Coin option" where
  "coins_of (ViewDB db) out = map_of (db_coins db) out"
| "coins_of (ViewCache c base) out =
     (case map_of (cacheCoins c) out of Some e \<Rightarrow> unspent (coin e) | None \<Rightarrow> coins_of base out)"

text \<open>What the flags of an entry say about the parent: an entry that is not dirty is the parent's
  coin, and a fresh one is dirty and unknown to the parent.\<close>

definition entry_ok :: "(COutPoint \<Rightarrow> Coin option) \<Rightarrow> COutPoint \<Rightarrow> CCoinsCacheEntry \<Rightarrow> bool" where
  "entry_ok m out e \<longleftrightarrow>
     (\<not> DIRTY e \<longrightarrow> m out = Some (coin e) \<and> \<not> IsSpent (coin e)) \<and> (FRESH e \<longrightarrow> DIRTY e \<and> m out = None)"

definition total_usage :: "(Coin \<Rightarrow> u64) \<Rightarrow> CCoinsMap \<Rightarrow> u64" where
  "total_usage usage al = sum_list (map (\<lambda>(out, e). usage (coin e)) al)"

definition cache_ok :: "(Coin \<Rightarrow> u64) \<Rightarrow> CCoinsViewCache \<Rightarrow> (COutPoint \<Rightarrow> Coin option) \<Rightarrow> bool" where
  "cache_ok usage c m \<longleftrightarrow> distinct (map fst (cacheCoins c)) \<and>
     (\<forall>out e. map_of (cacheCoins c) out = Some e \<longrightarrow> entry_ok m out e) \<and>
     cachedCoinsUsage c = total_usage usage (cacheCoins c)"

fun wf_view :: "(Coin \<Rightarrow> u64) \<Rightarrow> view \<Rightarrow> bool" where
  "wf_view usage (ViewDB db) \<longleftrightarrow>
     distinct (map fst (db_coins db)) \<and> (\<forall>x \<in> set (db_coins db). \<not> IsSpent (snd x)) \<and> db_heads db = None"
| "wf_view usage (ViewCache c base) \<longleftrightarrow> cache_ok usage c (coins_of base) \<and> wf_view usage base"

lemma IsSpent_Clear [simp]: "IsSpent Coin_Clear"
  by (simp add: IsSpent_def Coin_Clear_def CTxOut_IsNull_def CTxOut_null_def)

lemma unspent_simps [simp]: "IsSpent x \<Longrightarrow> unspent x = None" "\<not> IsSpent x \<Longrightarrow> unspent x = Some x"
  by (simp_all add: unspent_def)

lemma unspent_eq_None [simp]: "unspent x = None \<longleftrightarrow> IsSpent x"
  by (simp add: unspent_def)

lemma coins_of_cong: "coins_of b = coins_of b' \<Longrightarrow> coins_of (ViewCache c b) = coins_of (ViewCache c b')"
  by (rule ext) (simp split: option.split)

lemma coins_of_unspent: "wf_view usage v \<Longrightarrow> coins_of v out = Some x \<Longrightarrow> \<not> IsSpent x"
proof (induction v)
  case (ViewDB db)
  then show ?case by (auto dest!: map_of_SomeD)
qed (auto simp: unspent_def split: option.splits if_splits)

subsection \<open>Usage under updates\<close>

lemma total_usage_Cons [simp]: "total_usage usage ((out, e) # al) = usage (coin e) + total_usage usage al"
  by (simp add: total_usage_def)

lemma total_usage_Nil [simp]: "total_usage usage [] = 0"
  by (simp add: total_usage_def)

lemma total_usage_update:
  "distinct (map fst al) \<Longrightarrow> total_usage usage (AList.update k v al) =
     total_usage usage al - (case map_of al k of Some e \<Rightarrow> usage (coin e) | None \<Rightarrow> 0) + usage (coin v)"
proof (induction al)
  case (Cons x al)
  then show ?case by (cases x; cases "fst x = k"; cases "map_of al k") simp_all
qed simp

lemma delete_absent: "k \<notin> fst ` set al \<Longrightarrow> AList.delete k al = al"
  by (induction al) (auto simp: AList.delete_eq)

lemma total_usage_delete:
  "distinct (map fst al) \<Longrightarrow> total_usage usage (AList.delete k al) =
     total_usage usage al - (case map_of al k of Some e \<Rightarrow> usage (coin e) | None \<Rightarrow> 0)"
proof (induction al)
  case (Cons x al)
  show ?case
  proof (cases "fst x = k")
    case True
    then have "k \<notin> fst ` set al" using Cons.prems by auto
    then have "AList.delete k al = al" by (rule delete_absent)
    then show ?thesis using True by (cases x) (simp add: AList.delete_eq)
  next
    case False
    then show ?thesis using Cons by (cases x) (simp add: AList.delete_eq split: option.splits)
  qed
qed (simp add: AList.delete_eq)

lemma cache_ok_update:
  assumes "cache_ok usage c m" and "entry_ok m out e"
    and "n = cachedCoinsUsage c - (case map_of (cacheCoins c) out of Some d \<Rightarrow> usage (coin d) | None \<Rightarrow> 0) + usage (coin e)"
  shows "cache_ok usage (c\<lparr>cacheCoins := AList.update out e (cacheCoins c), cachedCoinsUsage := n\<rparr>) m"
  using assms by (auto simp: cache_ok_def AList.distinct_update AList.update_conv total_usage_update)

lemma cache_ok_delete:
  assumes "cache_ok usage c m"
    and "n = cachedCoinsUsage c - (case map_of (cacheCoins c) out of Some d \<Rightarrow> usage (coin d) | None \<Rightarrow> 0)"
  shows "cache_ok usage (c\<lparr>cacheCoins := AList.delete out (cacheCoins c), cachedCoinsUsage := n\<rparr>) m"
  using assms by (auto simp: cache_ok_def AList.distinct_delete AList.delete_conv total_usage_delete)

lemma cache_okD: "cache_ok usage c m \<Longrightarrow> map_of (cacheCoins c) out = Some e \<Longrightarrow> entry_ok m out e"
  by (simp add: cache_ok_def)

subsection \<open>Lookups\<close>

lemma fetch_get:
  "wf_view usage (ViewCache c base) \<Longrightarrow> FetchCoin usage c base out = (r, c', base') \<Longrightarrow>
     wf_view usage (ViewCache c' base') \<and> coins_of base' = coins_of base \<and>
     coins_of (ViewCache c' base') = coins_of (ViewCache c base) \<and> hashBlock c' = hashBlock c \<and>
     (case r of Some x \<Rightarrow> \<exists>e. map_of (cacheCoins c') out = Some e \<and> coin e = x
      | None \<Rightarrow> coins_of (ViewCache c base) out = None \<and> map_of (cacheCoins c') out = None)"
  "wf_view usage v \<Longrightarrow> GetCoin usage v out = (r, v') \<Longrightarrow>
     r = coins_of v out \<and> coins_of v' = coins_of v \<and> wf_view usage v'"
proof (induction usage c base out and usage v out arbitrary: r c' base' and r v' rule: FetchCoin_GetCoin.induct)
  case (1 usage c base out)
  show ?case
  proof (cases "map_of (cacheCoins c) out")
    case None
    obtain x b where g: "GetCoin usage base out = (x, b)" by fastforce
    have w: "wf_view usage base" "cache_ok usage c (coins_of base)" using "1.prems"(1) by simp_all
    note ih = "1.IH" [OF None w(1) g]
    show ?thesis
    proof (cases x)
      case None2: None
      then have "r = None" "c' = c" "base' = b" using "1.prems"(2) None g by auto
      then show ?thesis using None None2 ih w coins_of_cong [of b base c] by simp
    next
      case (Some y)
      then have y: "coins_of base out = Some y" "\<not> IsSpent y" using ih coins_of_unspent [OF w(1)] by auto
      have c': "c' = cache_fetched usage c out y" "base' = b" "r = Some y"
        using "1.prems"(2) None g Some by auto
      have "cache_ok usage c' (coins_of b)"
        unfolding c' cache_fetched_def
        by (rule cache_ok_update) (use w None y ih in \<open>simp_all add: entry_ok_def\<close>)
      moreover have "coins_of (ViewCache c' b) = coins_of (ViewCache c base)"
        using None y ih by (intro ext) (auto simp: c' cache_fetched_def AList.update_conv split: option.split)
      moreover have "hashBlock c' = hashBlock c" by (simp add: c' cache_fetched_def)
      ultimately show ?thesis using c' ih by (auto simp: cache_fetched_def AList.update_conv)
    qed
  qed (use 1 in auto)
next
  case (2 usage db out)
  then show ?case by auto
next
  case (3 usage c base out)
  obtain x c1 b1 where f: "FetchCoin usage c base out = (x, c1, b1)" by (metis prod_cases3)
  from "3.IH" [OF "3.prems"(1) f] have ih: "wf_view usage (ViewCache c1 b1)"
    "coins_of (ViewCache c1 b1) = coins_of (ViewCache c base)"
    "case x of Some x \<Rightarrow> \<exists>e. map_of (cacheCoins c1) out = Some e \<and> coin e = x
      | None \<Rightarrow> coins_of (ViewCache c base) out = None \<and> map_of (cacheCoins c1) out = None" by (auto simp del: coins_of.simps)
  have v: "v' = ViewCache c1 b1" "r = (case x of Some x \<Rightarrow> unspent x | None \<Rightarrow> None)"
    using "3.prems"(2) f by (auto simp: unspent_def split: option.splits)
  moreover have "r = coins_of (ViewCache c1 b1) out"
  proof (cases x)
    case None
    then show ?thesis using ih(3) v(2) unfolding ih(2) by simp
  qed (use ih(3) v(2) in auto)
  ultimately show ?case using ih by simp
qed

subsection \<open>Changes at the top\<close>

lemma coins_of_update:
  "coins_of (ViewCache (c\<lparr>cacheCoins := AList.update out e (cacheCoins c), cachedCoinsUsage := n\<rparr>) b) =
   (coins_of (ViewCache c b))(out := unspent (coin e))"
  by (rule ext) (simp add: AList.update_conv)

lemma coins_of_delete:
  "coins_of (ViewCache (c\<lparr>cacheCoins := AList.delete out (cacheCoins c), cachedCoinsUsage := n\<rparr>) b) =
   (coins_of (ViewCache c b))(out := coins_of b out)"
  by (rule ext) (simp add: AList.delete_conv)

lemma AddCoin_refines:
  assumes wf: "wf_view usage (ViewCache c base)" and x: "\<not> IsSpent x"
    and new: "possible_overwrite \<or> coins_of (ViewCache c base) out = None"
  obtains c' where "AddCoin usage c out x possible_overwrite = Inr c'" "wf_view usage (ViewCache c' base)"
    "coins_of (ViewCache c' base) =
      (if IsUnspendable (scriptPubKey (coin_out x)) then coins_of (ViewCache c base)
       else (coins_of (ViewCache c base))(out \<mapsto> x))" "hashBlock c' = hashBlock c"
proof (cases "IsUnspendable (scriptPubKey (coin_out x))")
  case True
  then show ?thesis using that [of c] wf x by (simp add: AddCoin_def)
next
  case False
  have ok: "cache_ok usage c (coins_of base)" using wf by simp
  define e where "e = (case map_of (cacheCoins c) out of Some e \<Rightarrow> e | None \<Rightarrow> \<lparr>coin = Coin_Clear, DIRTY = False, FRESH = False\<rparr>)"
  define n where "n = cachedCoinsUsage c - (case map_of (cacheCoins c) out of Some d \<Rightarrow> usage (coin d) | None \<Rightarrow> 0) + usage x"
  define e' where "e' = \<lparr>coin = x, DIRTY = True, FRESH = FRESH e \<or> (\<not> possible_overwrite \<and> \<not> DIRTY e)\<rparr>"
  have sp: "possible_overwrite \<or> IsSpent (coin e)"
    using new by (auto simp: e_def split: option.splits)
  have run: "AddCoin usage c out x possible_overwrite =
      Inr (c\<lparr>cacheCoins := AList.update out e' (cacheCoins c), cachedCoinsUsage := n\<rparr>)"
    using False x sp by (cases "map_of (cacheCoins c) out") (auto simp: AddCoin_def e_def e'_def n_def)
  have "entry_ok (coins_of base) out e'"
  proof (cases "map_of (cacheCoins c) out")
    case None
    then show ?thesis using new by (auto simp: entry_ok_def e'_def e_def)
  next
    case (Some d)
    then have "entry_ok (coins_of base) out d" using cache_okD [OF ok] by simp
    then show ?thesis using Some sp by (auto simp: entry_ok_def e'_def e_def)
  qed
  then have "wf_view usage (ViewCache (c\<lparr>cacheCoins := AList.update out e' (cacheCoins c), cachedCoinsUsage := n\<rparr>) base)"
    using wf cache_ok_update [OF ok, of out e' n] by (simp add: n_def e'_def)
  moreover have "coins_of (ViewCache (c\<lparr>cacheCoins := AList.update out e' (cacheCoins c), cachedCoinsUsage := n\<rparr>) base) =
      (coins_of (ViewCache c base))(out \<mapsto> x)"
    unfolding coins_of_update using x by (simp add: e'_def)
  ultimately show ?thesis using that [OF run] False by simp
qed

lemma SpendCoin_refines:
  assumes wf: "wf_view usage (ViewCache c base)" and u: "usage Coin_Clear = 0"
    and s: "SpendCoin usage c base out = ((found, moved), c', base')"
  shows "wf_view usage (ViewCache c' base') \<and> hashBlock c' = hashBlock c \<and>
    coins_of (ViewCache c' base') = (coins_of (ViewCache c base))(out := None) \<and>
    (coins_of (ViewCache c base) out \<noteq> None \<longrightarrow> found \<and> moved = coins_of (ViewCache c base) out)"
proof -
  obtain r c1 b1 where f: "FetchCoin usage c base out = (r, c1, b1)" by (metis prod_cases3)
  note g = fetch_get(1) [OF wf f]
  show ?thesis
  proof (cases r)
    case None
    then have "c' = c1" "base' = b1" using s f by (auto simp: SpendCoin_def)
    then show ?thesis using g None by (auto simp: fun_upd_idem)
  next
    case (Some x)
    with g obtain e where e: "map_of (cacheCoins c1) out = Some e" "coin e = x" by auto
    have ok: "cache_ok usage c1 (coins_of b1)" and wb: "wf_view usage b1" using g by auto
    have ent: "entry_ok (coins_of b1) out e" using cache_okD [OF ok e(1)] .
    have here: "coins_of (ViewCache c base) out = unspent x" using g e by (metis coins_of.simps(2) option.simps(5))
    have fm: "found" "moved = Some x" "base' = b1" using s f Some e by (auto simp: SpendCoin_def Let_def split: if_splits)
    show ?thesis
    proof (cases "FRESH e")
      case True
      have c': "c' = c1\<lparr>cacheCoins := AList.delete out (cacheCoins c1), cachedCoinsUsage := cachedCoinsUsage c1 - usage (coin e)\<rparr>"
        using s f Some e True by (auto simp: SpendCoin_def simp del: FetchCoin.simps)
      have "coins_of b1 out = None" using ent True by (simp add: entry_ok_def)
      then show ?thesis
        using g cache_ok_delete [OF ok, of "cachedCoinsUsage c1 - usage (coin e)" out] e wb here fm
        by (auto simp: c' coins_of_delete simp del: coins_of.simps)
    next
      case False
      let ?e = "e\<lparr>coin := Coin_Clear, DIRTY := True\<rparr>"
      have c': "c' = c1\<lparr>cacheCoins := AList.update out ?e (cacheCoins c1), cachedCoinsUsage := cachedCoinsUsage c1 - usage (coin e)\<rparr>"
        using s f Some e False by (auto simp: SpendCoin_def simp del: FetchCoin.simps)
      have "entry_ok (coins_of b1) out ?e" using False by (simp add: entry_ok_def)
      then have "cache_ok usage c' (coins_of b1)"
        unfolding c' by (rule cache_ok_update [OF ok]) (simp add: e u)
      then show ?thesis using g wb here fm
        by (auto simp: c' coins_of_update simp del: coins_of.simps)
    qed
  qed
qed

lemma Uncache_refines:
  assumes "wf_view usage (ViewCache c base)"
  shows "wf_view usage (ViewCache (Uncache usage c out) base) \<and>
    coins_of (ViewCache (Uncache usage c out) base) = coins_of (ViewCache c base) \<and>
    hashBlock (Uncache usage c out) = hashBlock c"
proof (cases "map_of (cacheCoins c) out")
  case (Some e)
  have ok: "cache_ok usage c (coins_of base)" using assms by simp
  show ?thesis
  proof (cases "DIRTY e \<or> FRESH e")
    case False
    then have "coins_of base out = unspent (coin e)" using cache_okD [OF ok Some] by (simp add: entry_ok_def)
    then have "(coins_of (ViewCache c base))(out := coins_of base out) = coins_of (ViewCache c base)"
      using Some by (simp add: fun_upd_idem)
    then show ?thesis
      using False Some assms cache_ok_delete [OF ok, of "cachedCoinsUsage c - usage (coin e)" out]
      by (simp add: Uncache_def coins_of_delete del: coins_of.simps)
  next
    case True
    then show ?thesis using Some assms by (auto simp: Uncache_def)
  qed
qed (use assms in \<open>simp add: Uncache_def\<close>)

subsection \<open>Flushing into a cache\<close>

text \<open>The content of the parent after the dirty entries of the child are written over it.\<close>

definition overlay :: "CCoinsMap \<Rightarrow> (COutPoint \<Rightarrow> Coin option) \<Rightarrow> COutPoint \<Rightarrow> Coin option" where
  "overlay al m out = (case map_of al out of Some e \<Rightarrow> if DIRTY e then unspent (coin e) else m out | None \<Rightarrow> m out)"

lemma overlay_coins_of:
  assumes "cache_ok usage c (coins_of base)"
  shows "overlay (cacheCoins c) (coins_of base) = coins_of (ViewCache c base)"
proof
  fix out
  show "overlay (cacheCoins c) (coins_of base) out = coins_of (ViewCache c base) out"
    using cache_okD [OF assms, of out] by (auto simp: overlay_def entry_ok_def split: option.splits)
qed

lemma write_entry_refines:
  assumes wf: "wf_view usage (ViewCache c b)" and ent: "entry_ok (coins_of (ViewCache c b)) out e"
  obtains c' where "write_entry usage (out, e) c = Inr c'" "wf_view usage (ViewCache c' b)"
    "coins_of (ViewCache c' b) = (coins_of (ViewCache c b))(out := (if DIRTY e then unspent (coin e) else coins_of (ViewCache c b) out))"
proof (cases "DIRTY e")
  case False
  then show ?thesis using that [of c] wf by (simp add: write_entry_def fun_upd_idem)
next
  case True
  have ok: "cache_ok usage c (coins_of b)" and wb: "wf_view usage b" using wf by simp_all
  show ?thesis
  proof (cases "map_of (cacheCoins c) out")
    case None
    show ?thesis
    proof (cases "FRESH e \<and> IsSpent (coin e)")
      case True2: True
      then have "coins_of (ViewCache c b) out = None" using ent by (simp add: entry_ok_def)
      then show ?thesis using that [of c] True True2 None wf by (simp add: write_entry_def fun_upd_idem)
    next
      case False
      let ?e = "\<lparr>coin = coin e, DIRTY = True, FRESH = FRESH e\<rparr>"
      let ?c = "c\<lparr>cacheCoins := AList.update out ?e (cacheCoins c), cachedCoinsUsage := cachedCoinsUsage c + usage (coin e)\<rparr>"
      have "entry_ok (coins_of b) out ?e" using ent None by (simp add: entry_ok_def)
      then have "cache_ok usage ?c (coins_of b)" by (rule cache_ok_update [OF ok]) (simp add: None)
      then show ?thesis using True False None wb
        by (intro that [of ?c]) (simp_all add: write_entry_def coins_of_update del: coins_of.simps)
    qed
  next
    case (Some us)
    have ou: "entry_ok (coins_of b) out us" using cache_okD [OF ok Some] .
    have nf: "\<not> (FRESH e \<and> \<not> IsSpent (coin us))" using ent Some by (auto simp: entry_ok_def)
    show ?thesis
    proof (cases "FRESH us \<and> IsSpent (coin e)")
      case True2: True
      let ?c = "c\<lparr>cacheCoins := AList.delete out (cacheCoins c), cachedCoinsUsage := cachedCoinsUsage c - usage (coin us)\<rparr>"
      have "cache_ok usage ?c (coins_of b)" by (rule cache_ok_delete [OF ok]) (simp add: Some)
      moreover have "coins_of b out = None" using ou True2 by (simp add: entry_ok_def)
      ultimately show ?thesis using True True2 Some nf wb
        by (intro that [of ?c]) (simp_all add: write_entry_def coins_of_delete del: coins_of.simps)
    next
      case False
      let ?e = "us\<lparr>coin := coin e, DIRTY := True\<rparr>"
      let ?c = "c\<lparr>cacheCoins := AList.update out ?e (cacheCoins c), cachedCoinsUsage := cachedCoinsUsage c - usage (coin us) + usage (coin e)\<rparr>"
      have "entry_ok (coins_of b) out ?e" using ou by (auto simp: entry_ok_def)
      then have "cache_ok usage ?c (coins_of b)" by (rule cache_ok_update [OF ok]) (simp add: Some)
      then show ?thesis using True False Some nf wb
        by (intro that [of ?c]) (auto simp: write_entry_def coins_of_update simp del: coins_of.simps)
    qed
  qed
qed

lemma write_entries_refines:
  assumes "wf_view usage (ViewCache c b)" and "distinct (map fst al)"
    and "\<forall>(out, e) \<in> set al. entry_ok (coins_of (ViewCache c b)) out e"
  shows "\<exists>c'. write_entries usage al c = Inr c' \<and> wf_view usage (ViewCache c' b) \<and>
    coins_of (ViewCache c' b) = overlay al (coins_of (ViewCache c b))"
  using assms
proof (induction al arbitrary: c)
  case Nil
  then show ?case by (simp add: overlay_def fun_eq_iff del: coins_of.simps)
next
  case (Cons it al)
  obtain out e where it: "it = (out, e)" by fastforce
  have ent: "entry_ok (coins_of (ViewCache c b)) out e" using Cons.prems(3) it by (simp del: coins_of.simps)
  obtain c1 where c1: "write_entry usage (out, e) c = Inr c1" "wf_view usage (ViewCache c1 b)"
    "coins_of (ViewCache c1 b) = (coins_of (ViewCache c b))(out := (if DIRTY e then unspent (coin e) else coins_of (ViewCache c b) out))"
    using write_entry_refines [OF Cons.prems(1) ent] by blast
  have fresh: "out \<notin> fst ` set al" using Cons.prems(2) it by simp
  have "\<forall>(o', e') \<in> set al. entry_ok (coins_of (ViewCache c1 b)) o' e'"
  proof (intro ballI, clarify)
    fix o' e'
    assume "(o', e') \<in> set al"
    moreover from this have "o' \<noteq> out" using fresh by force
    ultimately show "entry_ok (coins_of (ViewCache c1 b)) o' e'"
      using Cons.prems(3) c1(3) by (force simp: entry_ok_def simp del: coins_of.simps)
  qed
  from Cons.IH [OF c1(2) _ this] Cons.prems(2) obtain c2 where c2: "write_entries usage al c1 = Inr c2"
    "wf_view usage (ViewCache c2 b)" "coins_of (ViewCache c2 b) = overlay al (coins_of (ViewCache c1 b))" by (auto simp del: coins_of.simps)
  have "map_of al out = None" using fresh by (simp add: map_of_eq_None_iff)
  then have "overlay al (coins_of (ViewCache c1 b)) = overlay (it # al) (coins_of (ViewCache c b))"
    unfolding c1(3) it by (intro ext) (auto simp: overlay_def split: option.splits simp del: coins_of.simps)
  then show ?case using c1(1) c2 it by (auto simp del: coins_of.simps wf_view.simps)
qed

lemma cache_ok_entries:
  "cache_ok usage c m \<Longrightarrow> \<forall>(out, e) \<in> set (cacheCoins c). entry_ok m out e"
  by (auto simp: cache_ok_def)

lemma cache_ok_Nil [simp]: "cache_ok usage (c\<lparr>cacheCoins := [], cachedCoinsUsage := 0\<rparr>) m"
  by (simp add: cache_ok_def)

lemma wf_view_hashBlock [simp]:
  "wf_view usage (ViewCache (c\<lparr>hashBlock := h\<rparr>) b) = wf_view usage (ViewCache c b)"
  "coins_of (ViewCache (c\<lparr>hashBlock := h\<rparr>) b) = coins_of (ViewCache c b)"
  by (auto simp: cache_ok_def)

subsection \<open>Flushing into the database\<close>

lemma db_coins_write:
  "db_coins (db_write b db) = fold (\<lambda>op al. case op of EraseCoin out \<Rightarrow> AList.delete out al
     | WriteCoin out x \<Rightarrow> AList.update out x al | _ \<Rightarrow> al) b (db_coins db)"
  unfolding db_write_def by (induction b arbitrary: db) (auto split: db_op.split)

lemma db_write_append: "db_write (a @ b) db = db_write b (db_write a db)"
  by (simp add: db_write_def)

lemma fold_db_write: "fold db_write bs db = db_write (concat bs) db"
  by (induction bs arbitrary: db) (simp_all add: db_write_append, simp add: db_write_def)

text \<open>The operations the entries of a map ask for.\<close>

definition coin_ops :: "CCoinsMap \<Rightarrow> db_op list" where
  "coin_ops al = map (\<lambda>(out, e). if IsSpent (coin e) then EraseCoin out else WriteCoin out (coin e))
     (filter (DIRTY \<circ> snd) al)"

lemma coin_ops_Cons:
  "coin_ops ((out, e) # al) =
    (if DIRTY e then [if IsSpent (coin e) then EraseCoin out else WriteCoin out (coin e)] else []) @ coin_ops al"
  by (simp add: coin_ops_def)

lemma concat_db_batches: "concat (db_batches full h al batch) = batch @ coin_ops al @ [EraseHeads, WriteBest h]"
  by (induction full h al batch rule: db_batches.induct) (simp_all add: coin_ops_Cons Let_def, simp add: coin_ops_def)

text \<open>Operations that touch nothing but coins, and write no spent one.\<close>

fun is_coin_op :: "db_op \<Rightarrow> bool" where
  "is_coin_op (EraseCoin out) = True"
| "is_coin_op (WriteCoin out x) = (\<not> IsSpent x)"
| "is_coin_op op = False"

definition db_ok :: "CCoinsViewDB \<Rightarrow> bool" where
  "db_ok db \<longleftrightarrow> distinct (map fst (db_coins db)) \<and> (\<forall>x \<in> set (db_coins db). \<not> IsSpent (snd x))"

lemma coin_ops_only: "list_all is_coin_op (coin_ops al)"
  by (auto simp: coin_ops_def list_all_iff)

lemma set_update_cases: "x \<in> set (AList.update k v al) \<Longrightarrow> x = (k, v) \<or> x \<in> set al"
  by (induction al) (auto split: if_splits)

lemma db_apply_coin_op:
  assumes "is_coin_op op"
  shows "db_ok db \<Longrightarrow> db_ok (db_apply op db)"
    and "db_best (db_apply op db) = db_best db" and "db_heads (db_apply op db) = db_heads db"
proof -
  show "db_ok (db_apply op db)" if "db_ok db"
  proof (cases op)
    case (EraseCoin out)
    then show ?thesis using that by (auto simp: db_ok_def AList.delete_eq intro: distinct_map_filter)
  next
    case (WriteCoin out x)
    then show ?thesis using that assms distinct_update [of "db_coins db" out x]
      by (auto simp: db_ok_def dest: set_update_cases)
  qed (use assms in simp_all)
qed (use assms in \<open>cases op; simp\<close>)+

lemma db_write_coin_ops:
  "list_all is_coin_op ops \<Longrightarrow> db_best (db_write ops db) = db_best db \<and> db_heads (db_write ops db) = db_heads db \<and>
    (db_ok db \<longrightarrow> db_ok (db_write ops db))"
  by (induction ops arbitrary: db) (simp_all add: db_write_def db_apply_coin_op)

lemma coins_of_coin_ops:
  "distinct (map fst al) \<Longrightarrow>
   map_of (db_coins (db_write (coin_ops al) db)) = overlay al (map_of (db_coins db))"
proof (induction al arbitrary: db)
  case Nil
  show ?case by (simp add: coin_ops_def db_write_def overlay_def fun_eq_iff)
next
  case (Cons it al)
  obtain out e where it: "it = (out, e)" by fastforce
  have "map_of al out = None" using Cons.prems it by (simp add: map_of_eq_None_iff)
  moreover have "map_of (db_coins (db_write (coin_ops (it # al)) db)) =
      overlay al ((map_of (db_coins db))(out := (if DIRTY e then unspent (coin e) else map_of (db_coins db) out)))"
    using Cons by (auto simp: it coin_ops_Cons db_write_append)
      (simp_all add: db_write_def AList.update_conv' AList.delete_conv')
  ultimately show ?case
    by (auto simp: it overlay_def fun_eq_iff split: option.splits)
qed

lemma Inr_assertR [simp]: "P \<Longrightarrow> assertR P = Inr ()"
  by (simp add: assertR_def)

lemma old_tip_consistent: "db_heads db = None \<Longrightarrow> old_tip db h = Inr (case db_best db of Some b \<Rightarrow> b | None \<Rightarrow> uint256_null)"
  by (simp add: old_tip_def Let_def)

text \<open>Writing all batches: the marks end consistent and the content is the overlay.\<close>

lemma write_all_batches:
  assumes "db_ok db" "distinct (map fst al)"
  shows "let db' = fold db_write (db_batches full h al [EraseBest, WriteHeads hs]) db in
    db_ok db' \<and> db_best db' = Some h \<and> db_heads db' = None \<and> map_of (db_coins db') = overlay al (map_of (db_coins db))"
proof -
  let ?db = "db_write [EraseBest, WriteHeads hs] db"
  let ?db2 = "db_write (coin_ops al) ?db"
  have "db_ok ?db" "db_coins ?db = db_coins db" using assms(1) by (simp_all add: db_write_def db_ok_def)
  then have "db_ok ?db2" "map_of (db_coins ?db2) = overlay al (map_of (db_coins db))"
    using db_write_coin_ops [OF coin_ops_only, of al ?db] coins_of_coin_ops [OF assms(2), of ?db] by simp_all
  then show ?thesis
    unfolding fold_db_write concat_db_batches db_write_append by (simp add: db_ok_def db_write_def)
qed

lemma db_BatchWrite_refines:
  assumes "db_ok db" "db_heads db = None" "distinct (map fst al)" "h \<noteq> uint256_null"
  obtains db' where "db_BatchWrite full al h db = Inr db'" "db_ok db'" "db_best db' = Some h" "db_heads db' = None"
    "map_of (db_coins db') = overlay al (map_of (db_coins db))"
  using write_all_batches [OF assms(1,3)] assms(2,4)
  by (auto simp: db_BatchWrite_def db_plan_def old_tip_consistent Let_def intro: that)

lemma wf_view_DB: "wf_view usage (ViewDB db) \<longleftrightarrow> db_ok db \<and> db_heads db = None"
  by (auto simp: db_ok_def)

subsection \<open>The levels of a stack\<close>

text \<open>The specification: a stack of levels, each with the coins it shows and the block hash it holds.\<close>

type_synonym level = "(COutPoint \<Rightarrow> Coin option) \<times> uint256"

fun own_hash :: "view \<Rightarrow> uint256" where
  "own_hash (ViewDB db) = (case db_best db of Some h \<Rightarrow> h | None \<Rightarrow> uint256_null)"
| "own_hash (ViewCache c base) = hashBlock c"

fun levels :: "view \<Rightarrow> level list" where
  "levels (ViewDB db) = [(coins_of (ViewDB db), own_hash (ViewDB db))]"
| "levels (ViewCache c base) = (coins_of (ViewCache c base), own_hash (ViewCache c base)) # levels base"

lemma levels_not_Nil [simp]: "levels v \<noteq> []"
  by (cases v) simp_all

lemma hd_levels [simp]: "hd (levels v) = (coins_of v, own_hash v)"
  by (cases v) simp_all

lemma levels_cong: "levels b = levels b' \<Longrightarrow> coins_of b = coins_of b' \<and> own_hash b = own_hash b'"
  by (metis hd_levels prod.inject)

lemma fetch_levels:
  "wf_view usage (ViewCache c base) \<Longrightarrow> FetchCoin usage c base out = (r, c', base') \<Longrightarrow> levels base' = levels base"
  "wf_view usage v \<Longrightarrow> GetCoin usage v out = (r, v') \<Longrightarrow> levels v' = levels v"
proof (induction usage c base out and usage v out arbitrary: r c' base' and r v' rule: FetchCoin_GetCoin.induct)
  case (1 usage c base out)
  then show ?case by (auto split: option.splits prod.splits)
next
  case (2 usage db out)
  then show ?case by auto
next
  case (3 usage c base out)
  obtain x c1 b1 where f: "FetchCoin usage c base out = (x, c1, b1)" by (metis prod_cases3)
  have "v' = ViewCache c1 b1" using "3.prems"(2) f by (auto split: option.splits)
  then show ?case using "3.IH" [OF "3.prems"(1) f] fetch_get(1) [OF "3.prems"(1) f] by (simp del: coins_of.simps)
qed

lemma fetch_refines:
  assumes "wf_view usage (ViewCache c base)" "FetchCoin usage c base out = (r, c', base')"
  shows "wf_view usage (ViewCache c' base')" "levels (ViewCache c' base') = levels (ViewCache c base)"
    "(case r of Some x \<Rightarrow> unspent x | None \<Rightarrow> None) = coins_of (ViewCache c base) out"
proof -
  note g = fetch_get(1) [OF assms]
  show "wf_view usage (ViewCache c' base')" "levels (ViewCache c' base') = levels (ViewCache c base)"
    using g fetch_levels(1) [OF assms] by (simp_all del: coins_of.simps wf_view.simps)
  show "(case r of Some x \<Rightarrow> unspent x | None \<Rightarrow> None) = coins_of (ViewCache c base) out"
  proof (cases r)
    case (Some x)
    then obtain e where "map_of (cacheCoins c') out = Some e" "coin e = x" using g by auto
    then have "coins_of (ViewCache c' base') out = unspent x" by simp
    then show ?thesis using g Some by (simp del: coins_of.simps)
  qed (use g in simp)
qed

fun first_hash :: "level list \<Rightarrow> uint256 \<times> level list" where
  "first_hash ((m, h) # l # ls) =
     (if h = uint256_null then (case first_hash (l # ls) of (h, ls) \<Rightarrow> (h, (m, h) # ls)) else (h, (m, h) # l # ls))"
| "first_hash [(m, h)] = (h, [(m, h)])"
| "first_hash [] = (uint256_null, [])"

lemma first_hash_levels_Cons:
  "first_hash ((m, h) # levels b) =
     (if h = uint256_null then (case first_hash (levels b) of (h, ls) \<Rightarrow> (h, (m, h) # ls)) else (h, (m, h) # levels b))"
  by (cases "levels b") simp_all

lemma GetBestBlock_refines:
  "wf_view usage v \<Longrightarrow> GetBestBlock v = (h, v') \<Longrightarrow>
     wf_view usage v' \<and> coins_of v' = coins_of v \<and> first_hash (levels v) = (h, levels v')"
proof (induction v arbitrary: h v')
  case (ViewDB db)
  then show ?case by auto
next
  case (ViewCache c b)
  show ?case
  proof (cases "hashBlock c = uint256_null")
    case True
    obtain h1 b1 where g: "GetBestBlock b = (h1, b1)" by fastforce
    have v': "h = h1" "v' = ViewCache (c\<lparr>hashBlock := h1\<rparr>) b1" using ViewCache.prems(2) True g by auto
    have ih: "wf_view usage b1" "coins_of b1 = coins_of b" "first_hash (levels b) = (h1, levels b1)"
      using ViewCache.IH [OF _ g] ViewCache.prems(1) by auto
    have "coins_of v' = coins_of (ViewCache c b)" unfolding v' wf_view_hashBlock by (rule coins_of_cong [OF ih(2)])
    moreover have "wf_view usage v'" unfolding v' wf_view_hashBlock using ViewCache.prems(1) ih(1,2) by simp
    moreover have "first_hash (levels (ViewCache c b)) = (h, (coins_of (ViewCache c b), h1) # levels b1)"
      using True ih(3) v' by (simp add: first_hash_levels_Cons del: coins_of.simps)
    ultimately show ?thesis using v' by (simp del: coins_of.simps)
  next
    case False
    then show ?thesis using ViewCache.prems by (auto simp: first_hash_levels_Cons simp del: coins_of.simps)
  qed
qed

lemma Flush_refines:
  assumes wf: "wf_view usage (ViewCache c base)" and h: "\<And>db. base = ViewDB db \<Longrightarrow> hashBlock c \<noteq> uint256_null"
  obtains base' where
    "Flush usage full c base = Inr (c\<lparr>cacheCoins := [], cachedCoinsUsage := 0\<rparr>, base')"
    "wf_view usage base'"
    "levels base' = (coins_of (ViewCache c base), hashBlock c) # tl (levels base)"
proof -
  have ok: "cache_ok usage c (coins_of base)" and wb: "wf_view usage base" using wf by simp_all
  have d: "distinct (map fst (cacheCoins c))" using ok by (simp add: cache_ok_def)
  note ov = overlay_coins_of [OF ok]
  show ?thesis
  proof (cases base)
    case (ViewDB db)
    have "db_ok db" "db_heads db = None" using wb ViewDB wf_view_DB by auto
    then obtain db' where w: "db_BatchWrite full (cacheCoins c) (hashBlock c) db = Inr db'" "db_ok db'"
      "db_best db' = Some (hashBlock c)" "db_heads db' = None"
      "map_of (db_coins db') = overlay (cacheCoins c) (map_of (db_coins db))"
      using db_BatchWrite_refines [OF _ _ d h [OF ViewDB]] by blast
    have "coins_of (ViewDB db) = map_of (db_coins db)" "coins_of (ViewDB db') = map_of (db_coins db')"
      by (rule ext, simp)+
    then have "coins_of (ViewDB db') = coins_of (ViewCache c base)" using ov w(5) ViewDB by simp
    then show ?thesis using that [of "ViewDB db'"] w ViewDB
      by (simp add: Flush_def BatchWrite_def wf_view_DB del: coins_of.simps wf_view.simps)
  next
    case (ViewCache p b)
    have "\<exists>p'. write_entries usage (cacheCoins c) p = Inr p' \<and> wf_view usage (ViewCache p' b) \<and>
        coins_of (ViewCache p' b) = overlay (cacheCoins c) (coins_of (ViewCache p b))"
      using wb d cache_ok_entries [OF ok] unfolding ViewCache by (rule write_entries_refines)
    then obtain p' where w: "write_entries usage (cacheCoins c) p = Inr p'" "wf_view usage (ViewCache p' b)"
        "coins_of (ViewCache p' b) = coins_of (ViewCache c base)" using ov ViewCache by metis
    then show ?thesis using that [of "ViewCache (p'\<lparr>hashBlock := hashBlock c\<rparr>) b"] ViewCache
      by (simp add: Flush_def BatchWrite_def cache_BatchWrite_def del: coins_of.simps wf_view.simps)
  qed
qed

subsection \<open>Programs over a stack of views\<close>

text \<open>The operations of the top cache, together with opening a cache over the current one and
  dropping it; a dropped cache takes its changes with it unless it was flushed.\<close>

datatype coins_op =
  OpGet COutPoint | OpHave COutPoint | OpBest | OpSetBest uint256
| OpAdd COutPoint Coin bool | OpSpend COutPoint | OpUncache COutPoint | OpFlush | OpPush | OpPop

datatype coins_res = RUnit | RCoin "Coin option" | RBool bool | RHash uint256

type_synonym stack = "CCoinsViewCache \<times> view"

definition CCoinsViewCache_new :: CCoinsViewCache where
  "CCoinsViewCache_new = \<lparr>hashBlock = uint256_null, cacheCoins = [], cachedCoinsUsage = 0\<rparr>"

fun top_cache :: "view \<Rightarrow> stack result" where
  "top_cache (ViewCache c base) = Inr (c, base)"
| "top_cache (ViewDB db) = Inl NullDeref"

fun exec_op :: "(Coin \<Rightarrow> u64) \<Rightarrow> (db_op list \<Rightarrow> bool) \<Rightarrow> coins_op \<Rightarrow> stack \<Rightarrow> (coins_res \<times> stack) result" where
  "exec_op usage full (OpGet out) (c, base) =
     (case GetCoin usage (ViewCache c base) out of (r, v) \<Rightarrow> bindR (top_cache v) (\<lambda>s. Inr (RCoin r, s)))"
| "exec_op usage full (OpHave out) (c, base) = (case HaveCoin usage c base out of (b, s) \<Rightarrow> Inr (RBool b, s))"
| "exec_op usage full OpBest (c, base) =
     (case GetBestBlock (ViewCache c base) of (h, v) \<Rightarrow> bindR (top_cache v) (\<lambda>s. Inr (RHash h, s)))"
| "exec_op usage full (OpSetBest h) (c, base) = Inr (RUnit, SetBestBlock c h, base)"
| "exec_op usage full (OpAdd out x ow) (c, base) = bindR (AddCoin usage c out x ow) (\<lambda>c. Inr (RUnit, c, base))"
| "exec_op usage full (OpSpend out) (c, base) = (case SpendCoin usage c base out of ((found, moved), s) \<Rightarrow> Inr (RCoin moved, s))"
| "exec_op usage full (OpUncache out) (c, base) = Inr (RUnit, Uncache usage c out, base)"
| "exec_op usage full OpFlush (c, base) = bindR (Flush usage full c base) (\<lambda>s. Inr (RUnit, s))"
| "exec_op usage full OpPush (c, base) = Inr (RUnit, CCoinsViewCache_new, ViewCache c base)"
| "exec_op usage full OpPop (c, base) = bindR (top_cache base) (\<lambda>s. Inr (RUnit, s))"

fun exec_ops :: "(Coin \<Rightarrow> u64) \<Rightarrow> (db_op list \<Rightarrow> bool) \<Rightarrow> coins_op list \<Rightarrow> stack \<Rightarrow> (coins_res list \<times> stack) result" where
  "exec_ops usage full [] s = Inr ([], s)"
| "exec_ops usage full (op # ops) s =
     bindR (exec_op usage full op s) (\<lambda>(r, s). bindR (exec_ops usage full ops s) (\<lambda>(rs, s). Inr (r # rs, s)))"

text \<open>The same programs over the levels, and when a program is legal: a coin is added only where there
  is none, unless overwriting is announced; only an unspent coin is spent; the database is only
  flushed with a block hash; the last cache is not dropped.\<close>

fun spec_op :: "coins_op \<Rightarrow> level list \<Rightarrow> coins_res \<times> level list" where
  "spec_op (OpGet out) ls = (RCoin (fst (hd ls) out), ls)"
| "spec_op (OpHave out) ls = (RBool (fst (hd ls) out \<noteq> None), ls)"
| "spec_op OpBest ls = (case first_hash ls of (h, ls) \<Rightarrow> (RHash h, ls))"
| "spec_op (OpSetBest h) ls = (RUnit, (fst (hd ls), h) # tl ls)"
| "spec_op (OpAdd out x ow) ls =
     (RUnit, if IsUnspendable (scriptPubKey (coin_out x)) then ls else ((fst (hd ls))(out \<mapsto> x), snd (hd ls)) # tl ls)"
| "spec_op (OpSpend out) ls = (RCoin (fst (hd ls) out), ((fst (hd ls))(out := None), snd (hd ls)) # tl ls)"
| "spec_op (OpUncache out) ls = (RUnit, ls)"
| "spec_op OpFlush ls = (RUnit, hd ls # hd ls # tl (tl ls))"
| "spec_op OpPush ls = (RUnit, (fst (hd ls), uint256_null) # ls)"
| "spec_op OpPop ls = (RUnit, tl ls)"

fun legal_op :: "coins_op \<Rightarrow> level list \<Rightarrow> bool" where
  "legal_op (OpAdd out x ow) ls \<longleftrightarrow> \<not> IsSpent x \<and> (ow \<or> fst (hd ls) out = None)"
| "legal_op (OpSpend out) ls \<longleftrightarrow> fst (hd ls) out \<noteq> None"
| "legal_op OpFlush ls \<longleftrightarrow> (length ls = 2 \<longrightarrow> snd (hd ls) \<noteq> uint256_null)"
| "legal_op OpPop ls \<longleftrightarrow> 2 < length ls"
| "legal_op op ls \<longleftrightarrow> True"

fun spec_ops :: "coins_op list \<Rightarrow> level list \<Rightarrow> coins_res list \<times> level list" where
  "spec_ops [] ls = ([], ls)"
| "spec_ops (op # ops) ls = (case spec_op op ls of (r, ls) \<Rightarrow> case spec_ops ops ls of (rs, ls) \<Rightarrow> (r # rs, ls))"

fun legal_ops :: "coins_op list \<Rightarrow> level list \<Rightarrow> bool" where
  "legal_ops [] ls \<longleftrightarrow> True"
| "legal_ops (op # ops) ls \<longleftrightarrow> legal_op op ls \<and> legal_ops ops (snd (spec_op op ls))"

definition stack_levels :: "stack \<Rightarrow> level list" where
  "stack_levels s = levels (ViewCache (fst s) (snd s))"

definition wf_stack :: "(Coin \<Rightarrow> u64) \<Rightarrow> stack \<Rightarrow> bool" where
  "wf_stack usage s \<longleftrightarrow> wf_view usage (ViewCache (fst s) (snd s))"

lemma length_levels_ge: "length (levels v) = 1 \<longleftrightarrow> (\<exists>db. v = ViewDB db)"
  by (cases v) simp_all

lemma stack_levels_eq:
  "stack_levels (c, base) = (coins_of (ViewCache c base), hashBlock c) # levels base"
  by (simp add: stack_levels_def)

lemma GetCoin_stack:
  assumes wf: "wf_view usage (ViewCache c base)"
  obtains c' base' where "GetCoin usage (ViewCache c base) out = (coins_of (ViewCache c base) out, ViewCache c' base')"
    "wf_view usage (ViewCache c' base')" "levels (ViewCache c' base') = levels (ViewCache c base)"
proof -
  obtain r c' base' where f: "FetchCoin usage c base out = (r, c', base')" by (metis prod_cases3)
  note ff = fetch_refines [OF wf f]
  have "GetCoin usage (ViewCache c base) out = (coins_of (ViewCache c base) out, ViewCache c' base')"
    unfolding ff(3) [symmetric] using f by (simp add: unspent_def split: option.split)
  then show ?thesis using that ff by blast
qed

lemma HaveCoin_stack:
  assumes wf: "wf_view usage (ViewCache c base)"
  obtains c' base' where "HaveCoin usage c base out = (coins_of (ViewCache c base) out \<noteq> None, c', base')"
    "wf_view usage (ViewCache c' base')" "levels (ViewCache c' base') = levels (ViewCache c base)"
proof -
  obtain r c' base' where f: "FetchCoin usage c base out = (r, c', base')" by (metis prod_cases3)
  note ff = fetch_refines [OF wf f]
  have "HaveCoin usage c base out = (coins_of (ViewCache c base) out \<noteq> None, c', base')"
    unfolding ff(3) [symmetric] using f by (simp add: HaveCoin_def unspent_def split: option.split)
  then show ?thesis using that ff by blast
qed

lemma SpendCoin_levels:
  assumes "wf_view usage (ViewCache c base)" "SpendCoin usage c base out = (r, c', base')"
  shows "levels base' = levels base"
proof -
  obtain x c1 b1 where f: "FetchCoin usage c base out = (x, c1, b1)" by (metis prod_cases3)
  then have "base' = b1" using assms(2) by (auto simp: SpendCoin_def Let_def split: option.splits)
  then show ?thesis using fetch_levels(1) [OF assms(1) f] by simp
qed

lemma exec_op_refines:
  assumes wf: "wf_stack usage s" and u: "usage Coin_Clear = 0" and legal: "legal_op op (stack_levels s)"
  shows "\<exists>r s'. exec_op usage full op s = Inr (r, s') \<and> wf_stack usage s' \<and>
    (r, stack_levels s') = spec_op op (stack_levels s)"
proof -
  obtain c base where s: "s = (c, base)" by fastforce
  have w: "wf_view usage (ViewCache c base)" using wf s by (simp add: wf_stack_def del: wf_view.simps)
  note del = coins_of.simps wf_view.simps FetchCoin.simps GetCoin.simps GetBestBlock.simps
  show ?thesis
  proof (cases op)
    case (OpGet out)
    obtain c' base' where "GetCoin usage (ViewCache c base) out = (coins_of (ViewCache c base) out, ViewCache c' base')"
      "wf_view usage (ViewCache c' base')" "levels (ViewCache c' base') = levels (ViewCache c base)"
      by (rule GetCoin_stack [OF w, of out])
    then show ?thesis by (simp add: OpGet s wf_stack_def stack_levels_def del: del)
  next
    case (OpHave out)
    obtain c' base' where "HaveCoin usage c base out = (coins_of (ViewCache c base) out \<noteq> None, c', base')"
      "wf_view usage (ViewCache c' base')" "levels (ViewCache c' base') = levels (ViewCache c base)"
      by (rule HaveCoin_stack [OF w, of out])
    then show ?thesis by (simp add: OpHave s wf_stack_def stack_levels_def del: del)
  next
    case OpBest
    obtain h v' where g: "GetBestBlock (ViewCache c base) = (h, v')" by fastforce
    then obtain c' base' where v': "v' = ViewCache c' base'" by (auto split: if_splits prod.splits)
    show ?thesis using GetBestBlock_refines [OF w g]
      by (simp add: OpBest s g v' wf_stack_def stack_levels_def del: del)
  next
    case (OpSetBest h)
    then show ?thesis using w by (simp add: s wf_stack_def stack_levels_def SetBestBlock_def del: del)
  next
    case (OpAdd out x ow)
    have a: "\<not> IsSpent x" "ow \<or> coins_of (ViewCache c base) out = None"
      using legal OpAdd s by (simp_all add: stack_levels_def del: del)
    obtain c' where "AddCoin usage c out x ow = Inr c'" "wf_view usage (ViewCache c' base)"
      "coins_of (ViewCache c' base) =
        (if IsUnspendable (scriptPubKey (coin_out x)) then coins_of (ViewCache c base)
         else (coins_of (ViewCache c base))(out \<mapsto> x))" "hashBlock c' = hashBlock c"
      by (rule AddCoin_refines [OF w a])
    then show ?thesis by (simp add: OpAdd s wf_stack_def stack_levels_def del: del)
  next
    case (OpSpend out)
    obtain found moved c' base' where sp: "SpendCoin usage c base out = ((found, moved), c', base')"
      by (metis prod.collapse)
    have "coins_of (ViewCache c base) out \<noteq> None" using legal OpSpend s by (simp add: stack_levels_def del: del)
    then show ?thesis using SpendCoin_refines [OF w u sp] SpendCoin_levels [OF w sp]
      by (simp add: OpSpend s sp wf_stack_def stack_levels_def del: del)
  next
    case (OpUncache out)
    then show ?thesis using Uncache_refines [OF w, of out] by (simp add: s wf_stack_def stack_levels_def del: del)
  next
    case OpFlush
    have "hashBlock c \<noteq> uint256_null" if "base = ViewDB db" for db
      using legal OpFlush s that by (simp add: stack_levels_def)
    then obtain base' where f: "Flush usage full c base = Inr (c\<lparr>cacheCoins := [], cachedCoinsUsage := 0\<rparr>, base')"
      "wf_view usage base'" "levels base' = (coins_of (ViewCache c base), hashBlock c) # tl (levels base)"
      using Flush_refines [OF w] by metis
    have "coins_of base' = coins_of (ViewCache c base)" using f(3) hd_levels [of base'] by (simp del: del hd_levels)
    moreover have "coins_of (ViewCache (c\<lparr>cacheCoins := [], cachedCoinsUsage := 0\<rparr>) base') = coins_of base'"
      by (rule ext) simp
    moreover have "wf_view usage (ViewCache (c\<lparr>cacheCoins := [], cachedCoinsUsage := 0\<rparr>) base')"
      using f(2) by simp
    ultimately show ?thesis using f
      by (simp add: OpFlush s wf_stack_def stack_levels_eq del: del)
  next
    case OpPush
    have "coins_of (ViewCache CCoinsViewCache_new (ViewCache c base)) = coins_of (ViewCache c base)"
      by (rule ext) (simp add: CCoinsViewCache_new_def)
    moreover have "cache_ok usage CCoinsViewCache_new m" for m by (simp add: cache_ok_def CCoinsViewCache_new_def)
    then have "wf_view usage (ViewCache CCoinsViewCache_new (ViewCache c base))"
      using w by (simp add: wf_view.simps(2) [of _ CCoinsViewCache_new] del: del)
    ultimately show ?thesis
      by (simp add: OpPush s wf_stack_def stack_levels_def del: del) (simp add: CCoinsViewCache_new_def)
  next
    case OpPop
    then obtain p b where b: "base = ViewCache p b" using legal s by (cases base) (auto simp: stack_levels_def)
    then have "wf_view usage (ViewCache p b)" using w by simp
    then show ?thesis using b by (simp add: OpPop s wf_stack_def stack_levels_def del: del)
  qed
qed

text \<open>C5. A program over a stack of coin caches and a database behaves like the same program over a
  stack of plain maps: no legal program raises the errors for a replaced coin or for a misapplied
  \<open>FRESH\<close> flag, every result is the map's, and at the end each level shows the coins and holds the
  block hash of the specification, whatever the sizes at which the database splits its batches.\<close>

theorem coins_stack_refines:
  assumes "wf_stack usage s" and "usage Coin_Clear = 0" and "legal_ops ops (stack_levels s)"
  shows "\<exists>rs s'. exec_ops usage full ops s = Inr (rs, s') \<and> wf_stack usage s' \<and>
    (rs, stack_levels s') = spec_ops ops (stack_levels s)"
  using assms(1,3)
proof (induction ops arbitrary: s)
  case (Cons op ops)
  have "legal_op op (stack_levels s)" using Cons.prems(2) by simp
  from exec_op_refines [OF Cons.prems(1) assms(2) this] obtain r s1 where
    s1: "exec_op usage full op s = Inr (r, s1)" "wf_stack usage s1" "(r, stack_levels s1) = spec_op op (stack_levels s)" by blast
  have "legal_ops ops (stack_levels s1)" using Cons.prems(2) by (simp flip: s1(3))
  from Cons.IH [OF s1(2) this] obtain rs s2 where s2: "exec_ops usage full ops s1 = Inr (rs, s2)" "wf_stack usage s2"
    "(rs, stack_levels s2) = spec_ops ops (stack_levels s1)" by blast
  show ?case using s1 s2 by (simp flip: s1(3) s2(3))
qed simp

definition sample_coin :: Coin where
  "sample_coin = \<lparr>coin_out = \<lparr>nValue = 7, scriptPubKey = [0x51], nRounds = - 10\<rparr>, fCoinBase = False, coin_nHeight = 3\<rparr>"

definition sample_outpoint :: COutPoint where
  "sample_outpoint = \<lparr>prev_hash = replicate 32 1, prev_n = 0\<rparr>"

definition sample_stack :: stack where
  "sample_stack = (CCoinsViewCache_new, ViewDB \<lparr>db_coins = [(sample_outpoint, sample_coin)], db_best = None, db_heads = None\<rparr>)"

definition sample_ops :: "coins_op list" where
  "sample_ops = [OpPush, OpSpend sample_outpoint, OpAdd (sample_outpoint\<lparr>prev_n := 1\<rparr>) sample_coin False,
     OpSetBest (replicate 32 2), OpFlush, OpPop, OpFlush, OpHave sample_outpoint]"

lemma sample_coin_simps:
  "\<not> IsSpent sample_coin" "\<not> IsUnspendable (scriptPubKey (coin_out sample_coin))"
  by code_simp+

lemma sample_stack_wf: "wf_stack usage sample_stack"
  using sample_coin_simps
  by (simp add: wf_stack_def sample_stack_def cache_ok_def CCoinsViewCache_new_def)

lemma sample_levels:
  "stack_levels sample_stack = [([sample_outpoint \<mapsto> sample_coin], uint256_null), ([sample_outpoint \<mapsto> sample_coin], uint256_null)]"
  by (simp add: stack_levels_def sample_stack_def CCoinsViewCache_new_def fun_eq_iff)

lemma sample_hash: "replicate 32 (2 :: byte) \<noteq> uint256_null"
  by (simp add: uint256_null_def)

lemma sample_ops_legal: "legal_ops sample_ops (stack_levels sample_stack)"
  using sample_coin_simps sample_hash
  by (simp add: sample_ops_def sample_levels sample_outpoint_def)

theorem coins_stack_refines_witness:
  "\<exists>rs s'. exec_ops (\<lambda>_. 0) (\<lambda>b. length b > 2) sample_ops sample_stack = Inr (rs, s') \<and> last rs = RBool False \<and>
    fst (last (stack_levels s')) = [sample_outpoint\<lparr>prev_n := 1\<rparr> \<mapsto> sample_coin]"
proof -
  have "spec_ops sample_ops (stack_levels sample_stack) =
      ([RUnit, RCoin (Some sample_coin), RUnit, RUnit, RUnit, RUnit, RUnit, RBool False],
       replicate 2 ([sample_outpoint\<lparr>prev_n := 1\<rparr> \<mapsto> sample_coin], replicate 32 2))"
    using sample_coin_simps
    by (simp add: sample_ops_def sample_levels numeral_2_eq_2) (simp add: sample_outpoint_def fun_eq_iff)
  then show ?thesis
    using coins_stack_refines [OF sample_stack_wf [of "\<lambda>_. 0"] _ sample_ops_legal, of "\<lambda>b. length b > 2"]
    by (auto simp: numeral_2_eq_2)
qed

subsection \<open>Crashes during a flush\<close>

lemma take_db_batches:
  "k < length (db_batches full h al batch) \<Longrightarrow>
   k = 0 \<or> (\<exists>n. concat (take k (db_batches full h al batch)) = batch @ coin_ops (take n al))"
proof (induction full h al batch arbitrary: k rule: db_batches.induct)
  case (2 full h out e its batch)
  define b where "b = (if DIRTY e then batch @ [if IsSpent (coin e) then EraseCoin out else WriteCoin out (coin e)] else batch)"
  have b: "b @ coin_ops (take n its) = batch @ coin_ops (take (Suc n) ((out, e) # its))" for n
    by (simp add: coin_ops_Cons b_def)
  show ?case
  proof (cases "full b")
    case True
    then have eq: "db_batches full h ((out, e) # its) batch = b # db_batches full h its []" by (simp add: b_def Let_def)
    show ?thesis
    proof (cases k)
      case (Suc j)
      have "j = 0 \<or> (\<exists>n. concat (take j (db_batches full h its [])) = [] @ coin_ops (take n its))"
        using "2.IH"(1) [OF b_def True, of j] "2.prems" Suc unfolding eq by simp
      moreover have "concat (take 0 (db_batches full h its [])) = coin_ops (take 0 its)" by (simp add: coin_ops_def)
      ultimately obtain n where "concat (take j (db_batches full h its [])) = coin_ops (take n its)"
        by (metis append_Nil)
      then have "concat (take k (db_batches full h ((out, e) # its) batch)) = b @ coin_ops (take n its)"
        unfolding eq Suc by simp
      then show ?thesis unfolding b by blast
    qed simp
  next
    case False
    then have eq: "db_batches full h ((out, e) # its) batch = db_batches full h its b" by (simp add: b_def Let_def)
    have "k = 0 \<or> (\<exists>n. concat (take k (db_batches full h its b)) = b @ coin_ops (take n its))"
      using "2.IH"(2) [OF b_def False, of k] "2.prems" unfolding eq by simp
    then show ?thesis unfolding eq b by blast
  qed
qed simp

lemma overlay_prefix:
  assumes "distinct (map fst al)"
  shows "overlay al (overlay (take n al) m) = overlay al m"
proof
  fix out
  show "overlay al (overlay (take n al) m) out = overlay al m out"
  proof (cases "map_of (take n al) out")
    case (Some e)
    then have "map_of al out = Some e"
      using assms by (auto dest!: map_of_SomeD intro!: map_of_is_SomeI dest: in_set_takeD)
    then show ?thesis using Some by (simp add: overlay_def)
  qed (simp add: overlay_def split: option.split)
qed

text \<open>C8. A flush of coins into the database that is interrupted after some of its batches leaves the
  database marked as being in transition from the old tip to the new one, with no best block; and
  flushing the same coins again, however the batches are split this time, completes it, with the
  content an uninterrupted flush gives.\<close>

theorem interrupted_flush_recovers:
  assumes "db_ok db" and "db_heads db = None" and "distinct (map fst al)"
    and "db_plan full al h db = Inr batches" and "0 < k" and "k < length batches"
    and "crashed = fold db_write (take k batches) db"
  shows "db_best crashed = None \<and>
    db_heads crashed = Some [h, case db_best db of Some b \<Rightarrow> b | None \<Rightarrow> uint256_null] \<and>
    (\<exists>again once. db_BatchWrite full' al h crashed = Inr again \<and> db_BatchWrite full al h db = Inr once \<and>
      db_best again = Some h \<and> db_heads again = None \<and> map_of (db_coins again) = map_of (db_coins once))"
proof -
  let ?tip = "case db_best db of Some b \<Rightarrow> b | None \<Rightarrow> uint256_null"
  have h: "h \<noteq> uint256_null" using assms(4) by (auto simp: db_plan_def assertR_def split: if_splits)
  have bs: "batches = db_batches full h al [EraseBest, WriteHeads [h, ?tip]]"
    using assms(2,4) h by (simp add: db_plan_def old_tip_consistent)
  obtain n where n: "concat (take k batches) = [EraseBest, WriteHeads [h, ?tip]] @ coin_ops (take n al)"
    using take_db_batches assms(5,6) unfolding bs by blast
  let ?db = "db_write [EraseBest, WriteHeads [h, ?tip]] db"
  have crashed: "crashed = db_write (coin_ops (take n al)) ?db"
    using assms(7) unfolding fold_db_write n db_write_append by simp
  have d: "db_best ?db = None" "db_heads ?db = Some [h, ?tip]" "db_coins ?db = db_coins db" "db_ok ?db"
    using assms(1) by (simp_all add: db_write_def db_ok_def)
  have c: "db_best crashed = None" "db_heads crashed = Some [h, ?tip]" "db_ok crashed"
    using db_write_coin_ops [OF coin_ops_only, of "take n al" ?db] d unfolding crashed by simp_all
  have "distinct (map fst (take n al))" using assms(3) by (simp add: take_map [symmetric])
  then have m: "map_of (db_coins crashed) = overlay (take n al) (map_of (db_coins db))"
    unfolding crashed using coins_of_coin_ops d(3) by metis
  have "old_tip crashed h = Inr ?tip" using c by (simp add: old_tip_def)
  then have "db_BatchWrite full' al h crashed = Inr (fold db_write (db_batches full' h al [EraseBest, WriteHeads [h, ?tip]]) crashed)"
    using h by (simp add: db_BatchWrite_def db_plan_def)
  moreover have "db_BatchWrite full al h db = Inr (fold db_write batches db)"
    using assms(4) by (simp add: db_BatchWrite_def)
  moreover note write_all_batches [OF c(3) assms(3), of full' h "[h, ?tip]"] write_all_batches [OF assms(1,3), of full h "[h, ?tip]"]
  ultimately show ?thesis using c m overlay_prefix [OF assms(3)] by (simp add: Let_def bs)
qed

definition sample_flush :: CCoinsMap where
  "sample_flush = [(sample_outpoint, \<lparr>coin = Coin_Clear, DIRTY = True, FRESH = False\<rparr>),
     (sample_outpoint\<lparr>prev_n := 1\<rparr>, \<lparr>coin = sample_coin, DIRTY = True, FRESH = True\<rparr>)]"

theorem interrupted_flush_recovers_witness:
  "let db = \<lparr>db_coins = [(sample_outpoint, sample_coin)], db_best = Some (replicate 32 1), db_heads = None\<rparr>;
       crashed = fold db_write [[EraseBest, WriteHeads [replicate 32 2, replicate 32 1], EraseCoin sample_outpoint]] db in
   db_heads crashed = Some [replicate 32 2, replicate 32 1] \<and>
   (\<exists>again. db_BatchWrite (\<lambda>_. False) sample_flush (replicate 32 2) crashed = Inr again \<and> db_best again = Some (replicate 32 2))"
proof -
  let ?db = "\<lparr>db_coins = [(sample_outpoint, sample_coin)], db_best = Some (replicate 32 1), db_heads = None\<rparr>"
  let ?bs = "[[EraseBest, WriteHeads [replicate 32 2, replicate 32 1], EraseCoin sample_outpoint],
    [WriteCoin (sample_outpoint\<lparr>prev_n := 1\<rparr>) sample_coin, EraseHeads, WriteBest (replicate 32 2)]]"
  have "db_ok ?db" using sample_coin_simps by (simp add: db_ok_def)
  moreover have "distinct (map fst sample_flush)" by (simp add: sample_flush_def sample_outpoint_def)
  moreover have "db_plan (\<lambda>b. length b > 2) sample_flush (replicate 32 2) ?db = Inr ?bs"
    using sample_coin_simps sample_hash by (simp add: db_plan_def sample_flush_def old_tip_def uint256_null_def Let_def)
  ultimately show ?thesis
    using interrupted_flush_recovers [of ?db sample_flush "\<lambda>b. length b > 2" "replicate 32 2" ?bs 1 _ "\<lambda>_. False"]
    by (auto simp: Let_def)
qed

subsection \<open>Transactions over a view\<close>

lemma have_all_refines:
  "wf_view usage (ViewCache c base) \<Longrightarrow> have_all usage ins c base = (b, c', base') \<Longrightarrow>
   b = (\<forall>i \<in> set ins. coins_of (ViewCache c base) (prevout i) \<noteq> None) \<and> wf_view usage (ViewCache c' base') \<and>
   levels (ViewCache c' base') = levels (ViewCache c base)"
proof (induction ins arbitrary: c base b)
  case Nil
  then show ?case by (auto simp del: coins_of.simps wf_view.simps)
next
  case (Cons i ins)
  obtain c1 b1 where h: "HaveCoin usage c base (prevout i) = (coins_of (ViewCache c base) (prevout i) \<noteq> None, c1, b1)"
    and w: "wf_view usage (ViewCache c1 b1)" and l: "levels (ViewCache c1 b1) = levels (ViewCache c base)"
    by (rule HaveCoin_stack [OF Cons.prems(1), of "prevout i"])
  have "coins_of (ViewCache c1 b1) = coins_of (ViewCache c base)" using levels_cong [OF l] by simp
  then show ?case using Cons.prems(2) Cons.IH [OF w, of b] h w l
    by (cases "coins_of (ViewCache c base) (prevout i)") (auto simp del: coins_of.simps wf_view.simps levels.simps)
qed

lemma HaveInputs_iff:
  assumes "wf_view usage (ViewCache c base)" "HaveInputs usage tx c base = (b, c', base')"
  shows "b = (IsCoinBase tx \<or> (\<forall>i \<in> set (vin tx). coins_of (ViewCache c base) (prevout i) \<noteq> None)) \<and>
    wf_view usage (ViewCache c' base') \<and> levels (ViewCache c' base') = levels (ViewCache c base)"
  using assms have_all_refines [OF assms(1), of "vin tx" b c' base']
  by (auto simp: HaveInputs_def simp del: coins_of.simps wf_view.simps levels.simps split: if_splits)

lemma AccessCoin_refines:
  assumes wf: "wf_view usage (ViewCache c base)" and x: "coins_of (ViewCache c base) out = Some x"
  obtains c' base' where "AccessCoin usage c base out = (x, c', base')"
    "wf_view usage (ViewCache c' base')" "levels (ViewCache c' base') = levels (ViewCache c base)"
proof -
  obtain r c' base' where f: "FetchCoin usage c base out = (r, c', base')" by (metis prod_cases3)
  note ff = fetch_refines [OF wf f]
  have "r = Some x" using ff(3) x by (auto simp: unspent_def simp del: coins_of.simps split: option.splits if_splits)
  then have "AccessCoin usage c base out = (x, c', base')" using f by (simp add: AccessCoin_def)
  then show ?thesis using that ff by blast
qed

text \<open>The value of the inputs, when every input has its coin: the sum of the coins, unless a partial
  sum leaves the range of \<open>CAmount\<close>.\<close>

definition coin_values :: "(COutPoint \<Rightarrow> Coin option) \<Rightarrow> CTxIn list \<Rightarrow> int list" where
  "coin_values m ins = map (\<lambda>i. nValue (coin_out (the (m (prevout i))))) ins"

lemma value_in_refines:
  assumes "wf_view usage (ViewCache c base)" and "\<forall>i \<in> set ins. coins_of (ViewCache c base) (prevout i) \<noteq> None"
    and "\<forall>v \<in> set (coin_values (coins_of (ViewCache c base)) ins). 0 \<le> v" and "0 \<le> n"
    and "n + sum_list (coin_values (coins_of (ViewCache c base)) ins) < 2 ^ 63"
  shows "\<exists>c' base'. value_in usage ins n c base = Inr (n + sum_list (coin_values (coins_of (ViewCache c base)) ins), c', base') \<and>
    wf_view usage (ViewCache c' base') \<and> levels (ViewCache c' base') = levels (ViewCache c base)"
  using assms
proof (induction ins arbitrary: n c base)
  case Nil
  then show ?case by (simp add: coin_values_def del: coins_of.simps wf_view.simps levels.simps)
next
  case (Cons i ins)
  obtain x where x: "coins_of (ViewCache c base) (prevout i) = Some x" using Cons.prems(2) by auto
  obtain c1 b1 where a: "AccessCoin usage c base (prevout i) = (x, c1, b1)"
    and w: "wf_view usage (ViewCache c1 b1)" and l: "levels (ViewCache c1 b1) = levels (ViewCache c base)"
    by (rule AccessCoin_refines [OF Cons.prems(1) x])
  have m: "coins_of (ViewCache c1 b1) = coins_of (ViewCache c base)" using levels_cong [OF l] by simp
  define vs where "vs = coin_values (coins_of (ViewCache c base)) ins"
  have s: "coin_values (coins_of (ViewCache c base)) (i # ins) = nValue (coin_out x) # vs"
    using x by (simp add: vs_def coin_values_def del: coins_of.simps)
  have p: "\<forall>v \<in> set vs. 0 \<le> v" using Cons.prems(3) unfolding s by simp
  have "0 \<le> sum_list vs" using Cons.prems(3) unfolding s by (simp add: sum_list_nonneg)
  then have i: "i64 (n + nValue (coin_out x)) = Inr (n + nValue (coin_out x))" "0 \<le> nValue (coin_out x)"
    "n + nValue (coin_out x) + sum_list vs < 2 ^ 63"
    using Cons.prems(3-5) unfolding s by (auto simp: i64_def in_int64_def INT64_MAX_def)
  then have "\<exists>c' base'. value_in usage ins (n + nValue (coin_out x)) c1 b1 = Inr (n + nValue (coin_out x) + sum_list vs, c', base') \<and>
    wf_view usage (ViewCache c' base') \<and> levels (ViewCache c' base') = levels (ViewCache c1 b1)"
    using Cons.IH [OF w, of "n + nValue (coin_out x)"] Cons.prems(2) p Cons.prems(4) unfolding m vs_def [symmetric] by simp
  then show ?case using a i l unfolding s by (auto simp del: levels.simps wf_view.simps coins_of.simps)
qed

fun spec_outputs :: "uint256 \<Rightarrow> bool \<Rightarrow> int \<Rightarrow> nat \<Rightarrow> CTxOut list \<Rightarrow> (COutPoint \<Rightarrow> Coin option) \<Rightarrow> COutPoint \<Rightarrow> Coin option" where
  "spec_outputs txid cb ht i [] m = m"
| "spec_outputs txid cb ht i (txout # outs) m =
     spec_outputs txid cb ht (i + 1) outs
       (if IsUnspendable (scriptPubKey txout) then m else m(\<lparr>prev_hash = txid, prev_n = of_nat i\<rparr> \<mapsto> Coin_of txout ht cb))"

lemma Coin_of_simps [simp]: "coin_out (Coin_of txout ht cb) = txout" "IsSpent (Coin_of txout ht cb) = CTxOut_IsNull txout"
  by (simp_all add: Coin_of_def IsSpent_def)

lemma of_nat_eq_word32: "i < 2 ^ 32 \<Longrightarrow> j < 2 ^ 32 \<Longrightarrow> of_nat i = (of_nat j :: 32 word) \<longleftrightarrow> i = j"
  by (simp add: word_of_nat_eq_iff take_bit_nat_eq_self)

lemma add_outputs_refines:
  assumes "wf_view usage (ViewCache c base)" and "\<forall>txout \<in> set outs. \<not> CTxOut_IsNull txout" and "i + length outs \<le> 2 ^ 32"
    and "check \<or> cb \<or> (\<forall>j. i \<le> j \<and> j < i + length outs \<longrightarrow>
      coins_of (ViewCache c base) \<lparr>prev_hash = txid, prev_n = of_nat j\<rparr> = None)"
  shows "\<exists>c' base'. add_outputs usage txid cb check ht i outs c base = Inr (c', base') \<and> wf_view usage (ViewCache c' base') \<and>
    hashBlock c' = hashBlock c \<and> levels base' = levels base \<and>
    coins_of (ViewCache c' base') = spec_outputs txid cb ht i outs (coins_of (ViewCache c base))"
  using assms
proof (induction outs arbitrary: i c base)
  case Nil
  then show ?case by (simp del: coins_of.simps wf_view.simps)
next
  case (Cons txout outs)
  note del = coins_of.simps wf_view.simps levels.simps
  let ?m = "coins_of (ViewCache c base)"
  let ?out = "\<lparr>prev_hash = txid, prev_n = of_nat i\<rparr> :: COutPoint"
  obtain ow c1 b1 where o: "(if check then HaveCoin usage c base ?out else (cb, c, base)) = (ow, c1, b1)"
    and w1: "wf_view usage (ViewCache c1 b1)" and l1: "levels (ViewCache c1 b1) = levels (ViewCache c base)"
    and ow: "ow \<or> ?m ?out = None"
  proof (cases check)
    case True
    show ?thesis by (rule HaveCoin_stack [OF Cons.prems(1), of ?out]) (use True that in \<open>auto simp del: del\<close>)
  next
    case False
    then show ?thesis using that [of cb c base] Cons.prems(1,4) by (auto simp del: del)
  qed
  have m1: "coins_of (ViewCache c1 b1) = ?m" "hashBlock c1 = hashBlock c" "levels b1 = levels base"
    using levels_cong [OF l1] l1 by (simp_all del: coins_of.simps)
  obtain c2 where a: "AddCoin usage c1 ?out (Coin_of txout ht cb) ow = Inr c2" and w2: "wf_view usage (ViewCache c2 b1)"
    and m2: "coins_of (ViewCache c2 b1) = (if IsUnspendable (scriptPubKey txout) then ?m else ?m(?out \<mapsto> Coin_of txout ht cb))"
    and h2: "hashBlock c2 = hashBlock c1"
    by (rule AddCoin_refines [OF w1, of "Coin_of txout ht cb" ow ?out]) (use Cons.prems(2) ow m1 in \<open>auto simp del: del\<close>)
  have "check \<or> cb \<or> (\<forall>j. i + 1 \<le> j \<and> j < i + 1 + length outs \<longrightarrow>
      coins_of (ViewCache c2 b1) \<lparr>prev_hash = txid, prev_n = of_nat j\<rparr> = None)"
    using Cons.prems(3,4) of_nat_eq_word32 [of _ i] unfolding m2 by (auto simp del: del)
  then have "\<exists>c' base'. add_outputs usage txid cb check ht (i + 1) outs c2 b1 = Inr (c', base') \<and>
      wf_view usage (ViewCache c' base') \<and> hashBlock c' = hashBlock c2 \<and> levels base' = levels b1 \<and>
      coins_of (ViewCache c' base') = spec_outputs txid cb ht (i + 1) outs (coins_of (ViewCache c2 b1))"
    using Cons.IH [OF w2, of "i + 1"] Cons.prems(2,3) by (simp del: del)
  then show ?case using o a h2 m1(2,3) unfolding m2 by (auto simp: Let_def simp del: del split: prod.splits)
qed

end
