(* ===== verification/Compressor.thy ===== *)
theory Compressor
  imports Coins
begin

text \<open>
  The compact formats of the coin database and of the undo files: \<open>CTxOutCompressor\<close> and
  \<open>CScriptCompressor\<close> of \<open>src/src/compressor.{h,cpp}\<close>, \<open>Coin::Serialize\<close> of \<open>src/src/coins.h\<close>, the undo
  records of \<open>src/src/undo.h\<close> and the database key of \<open>src/src/txdb.cpp\<close>.

  Two operations on public keys are parameters, \<open>IsFullyValid\<close> and \<open>Decompress\<close> (of a key, not of a
  script), collected in the record \<open>points\<close>; \<open>good_points\<close> states the one fact relied on, that
  decompressing the compressed form of a valid key gives the key.
\<close>

record points =
  IsFullyValid :: "bytes \<Rightarrow> bool"
  DecompressKey :: "bytes \<Rightarrow> bytes option"

subsection \<open>Amounts\<close>

text \<open>The first loop of \<open>CompressAmount\<close>; the first argument is \<open>9 - e\<close>.\<close>

primrec strip_zeros :: "nat \<Rightarrow> u64 \<Rightarrow> u64 \<times> nat" where
  "strip_zeros 0 n = (n, 9)"
| "strip_zeros (Suc r) n = (if n mod 10 = 0 then strip_zeros r (n div 10) else (n, 9 - Suc r))"

definition CompressAmount :: "u64 \<Rightarrow> u64 result" where
  "CompressAmount n =
     (if n = 0 then Inr 0
      else
        let (n, e) = strip_zeros 9 n in
        if e < 9 then
          let d = n mod 10 in
          bindR (assertR (1 \<le> d \<and> d \<le> 9)) (\<lambda>_. Inr (1 + (n div 10 * 9 + d - 1) * 10 + of_nat e))
        else Inr (1 + (n - 1) * 10 + 9))"

primrec mul_tens :: "nat \<Rightarrow> u64 \<Rightarrow> u64" where
  "mul_tens 0 n = n"
| "mul_tens (Suc e) n = mul_tens e (n * 10)"

definition DecompressAmount :: "u64 \<Rightarrow> u64" where
  "DecompressAmount x =
     (if x = 0 then 0
      else
        let x = x - 1; e = unat (x mod 10); x = x div 10;
            n = (if e < 9 then x div 9 * 10 + (x mod 9 + 1) else x + 1) in
        mul_tens e n)"

subsection \<open>Scripts\<close>

definition nSpecialScripts :: nat where "nSpecialScripts = 6"

definition IsToKeyID :: "CScript \<Rightarrow> bytes option" where
  "IsToKeyID script =
     (if length script = 25 \<and> script ! 0 = OP_DUP \<and> script ! 1 = OP_HASH160 \<and> script ! 2 = 20 \<and>
         script ! 23 = OP_EQUALVERIFY \<and> script ! 24 = OP_CHECKSIG
      then Some (take 20 (drop 3 script)) else None)"

definition IsToScriptID :: "CScript \<Rightarrow> bytes option" where
  "IsToScriptID script =
     (if length script = 23 \<and> script ! 0 = OP_HASH160 \<and> script ! 1 = 20 \<and> script ! 22 = OP_EQUAL
      then Some (take 20 (drop 2 script)) else None)"

definition IsToPubKey :: "points \<Rightarrow> CScript \<Rightarrow> bytes option" where
  "IsToPubKey pt script =
     (if length script = 35 \<and> script ! 0 = 33 \<and> script ! 34 = OP_CHECKSIG \<and> (script ! 1 = 0x02 \<or> script ! 1 = 0x03)
      then Some (take 33 (drop 1 script))
      else if length script = 67 \<and> script ! 0 = 65 \<and> script ! 66 = OP_CHECKSIG \<and> script ! 1 = 0x04
      then (let pubkey = take 65 (drop 1 script) in if IsFullyValid pt pubkey then Some pubkey else None)
      else None)"

definition Compress :: "points \<Rightarrow> CScript \<Rightarrow> bytes option" where
  "Compress pt script =
     (case IsToKeyID script of Some keyID \<Rightarrow> Some (0x00 # keyID)
      | None \<Rightarrow>
     (case IsToScriptID script of Some scriptID \<Rightarrow> Some (0x01 # scriptID)
      | None \<Rightarrow>
     (case IsToPubKey pt script of
        Some pubkey \<Rightarrow>
          if pubkey ! 0 = 0x02 \<or> pubkey ! 0 = 0x03 then Some (pubkey ! 0 # take 32 (drop 1 pubkey))
          else if pubkey ! 0 = 0x04 then Some ((0x04 OR (pubkey ! 64 AND 0x01)) # take 32 (drop 1 pubkey))
          else None
      | None \<Rightarrow> None)))"

definition GetSpecialSize :: "nat \<Rightarrow> nat" where
  "GetSpecialSize nSize =
     (if nSize = 0 \<or> nSize = 1 then 20
      else if nSize = 2 \<or> nSize = 3 \<or> nSize = 4 \<or> nSize = 5 then 32 else 0)"

text \<open>The script is left as it was when the result is false.\<close>

definition Decompress :: "points \<Rightarrow> nat \<Rightarrow> bytes \<Rightarrow> CScript \<Rightarrow> (bool \<times> CScript) result" where
  "Decompress pt nSize vch script =
     (if nSize = 0x00 then
        Inr (True, [OP_DUP, OP_HASH160, 20] @ take 20 vch @ [OP_EQUALVERIFY, OP_CHECKSIG])
      else if nSize = 0x01 then
        Inr (True, [OP_HASH160, 20] @ take 20 vch @ [OP_EQUAL])
      else if nSize = 0x02 \<or> nSize = 0x03 then
        Inr (True, [33, of_nat nSize] @ take 32 vch @ [OP_CHECKSIG])
      else if nSize = 0x04 \<or> nSize = 0x05 then
        (case DecompressKey pt (of_nat (nSize - 2) # take 32 vch) of
           None \<Rightarrow> Inr (False, script)
         | Some pubkey \<Rightarrow>
             bindR (assertR (length pubkey = 65)) (\<lambda>_. Inr (True, [65] @ pubkey @ [OP_CHECKSIG])))
      else Inr (False, script))"

definition stream_ignore :: "nat \<Rightarrow> unit reader" where
  "stream_ignore nSize s =
     (if nSize \<ge> 2 ^ 31 then Inl (Thrown ''CDataStream::ignore(): nSize negative'')
      else if nSize > length s then Inl (Thrown ''CDataStream::ignore(): end of data'')
      else Inr ((), drop nSize s))"

definition Serialize_CScriptCompressor :: "points \<Rightarrow> CScript \<Rightarrow> bytes" where
  "Serialize_CScriptCompressor pt script =
     (case Compress pt script of
        Some compr \<Rightarrow> compr
      | None \<Rightarrow> WriteVarInt ((length script + nSpecialScripts) mod 2 ^ 32) @ script)"

definition Unserialize_CScriptCompressor :: "points \<Rightarrow> CScript \<Rightarrow> CScript reader" where
  "Unserialize_CScriptCompressor pt script s =
     bindR (ReadVarInt 32 s) (\<lambda>(nSize, s).
       if nSize < nSpecialScripts then
         bindR (ser_read (GetSpecialSize nSize) s) (\<lambda>(vch, s).
         bindR (Decompress pt nSize vch script) (\<lambda>(ok, script). Inr (script, s)))
       else
         let nSize = nSize - nSpecialScripts in
         if nSize > MAX_SCRIPT_SIZE
         then bindR (stream_ignore nSize s) (\<lambda>(_, s). Inr (script @ [OP_RETURN], s))
         else ser_read nSize s)"

subsection \<open>Outputs, coins and undo records\<close>

definition Serialize_CTxOutCompressor :: "points \<Rightarrow> CTxOut \<Rightarrow> bytes result" where
  "Serialize_CTxOutCompressor pt txout =
     bindR (CompressAmount (word_of_int (nValue txout))) (\<lambda>nVal.
       Inr (WriteVarInt (unat nVal) @ Serialize_CScriptCompressor pt (scriptPubKey txout)))"

definition Unserialize_CTxOutCompressor :: "points \<Rightarrow> CTxOut \<Rightarrow> CTxOut reader" where
  "Unserialize_CTxOutCompressor pt txout s =
     bindR (ReadVarInt 64 s) (\<lambda>(nVal, s).
     bindR (Unserialize_CScriptCompressor pt (scriptPubKey txout) s) (\<lambda>(script, s).
       Inr (txout\<lparr>nValue := sint (DecompressAmount (of_nat nVal)), scriptPubKey := script\<rparr>, s)))"

text \<open>The 31-bit height is promoted to \<open>int\<close> before it is doubled.\<close>

definition coin_code :: "Coin \<Rightarrow> nat result" where
  "coin_code c = bindR (i32 (uint (coin_nHeight c) * 2)) (\<lambda>h2.
     bindR (i32 (h2 + (if fCoinBase c then 1 else 0))) (\<lambda>code. Inr (nat code)))"

definition Serialize_Coin :: "points \<Rightarrow> Coin \<Rightarrow> bytes result" where
  "Serialize_Coin pt c =
     bindR (assertR (\<not> IsSpent c)) (\<lambda>_.
     bindR (coin_code c) (\<lambda>code.
     bindR (Serialize_CTxOutCompressor pt (coin_out c)) (\<lambda>out. Inr (WriteVarInt code @ out))))"

definition Unserialize_Coin :: "points \<Rightarrow> Coin \<Rightarrow> Coin reader" where
  "Unserialize_Coin pt c s =
     bindR (ReadVarInt 32 s) (\<lambda>(code, s).
     bindR (Unserialize_CTxOutCompressor pt (coin_out c) s) (\<lambda>(out, s).
       Inr (\<lparr>coin_out = out, fCoinBase = odd code, coin_nHeight = of_nat (code div 2)\<rparr>, s)))"

definition TxInUndoSerializer :: "points \<Rightarrow> Coin \<Rightarrow> bytes result" where
  "TxInUndoSerializer pt c =
     bindR (coin_code c) (\<lambda>code.
     bindR (Serialize_CTxOutCompressor pt (coin_out c)) (\<lambda>out.
       Inr (WriteVarInt code @ (if coin_nHeight c > 0 then [0] else []) @ out)))"

definition TxInUndoDeserializer :: "points \<Rightarrow> Coin \<Rightarrow> Coin reader" where
  "TxInUndoDeserializer pt c s =
     bindR (ReadVarInt 32 s) (\<lambda>(nCode, s).
     let h = of_nat (nCode div 2) :: 31 word in
     bindR (if h > 0 then bindR (ReadVarInt 31 s) (\<lambda>(nVersionDummy, s). Inr s) else Inr s) (\<lambda>s.
     bindR (Unserialize_CTxOutCompressor pt (coin_out c) s) (\<lambda>(out, s).
       Inr (\<lparr>coin_out = out, fCoinBase = odd nCode, coin_nHeight = h\<rparr>, s))))"

type_synonym CTxUndo = "Coin list"

fun concatR :: "('a \<Rightarrow> bytes result) \<Rightarrow> 'a list \<Rightarrow> bytes result" where
  "concatR f [] = Inr []"
| "concatR f (x # xs) = bindR (f x) (\<lambda>b. bindR (concatR f xs) (\<lambda>bs. Inr (b @ bs)))"

definition Serialize_CTxUndo :: "points \<Rightarrow> CTxUndo \<Rightarrow> bytes result" where
  "Serialize_CTxUndo pt vprevout =
     bindR (concatR (TxInUndoSerializer pt) vprevout) (\<lambda>b. Inr (WriteCompactSize (length vprevout) @ b))"

text \<open>The size of a serialized empty \<open>CTxIn\<close> is 41 bytes.\<close>

definition MIN_TRANSACTION_INPUT_WEIGHT :: nat where "MIN_TRANSACTION_INPUT_WEIGHT = 4 * 41"

definition max_input_undos :: "bool \<Rightarrow> nat" where
  "max_input_undos fAssetsIsActive =
     (if fAssetsIsActive then 8000000 div MIN_TRANSACTION_INPUT_WEIGHT else 4000000 div MIN_TRANSACTION_INPUT_WEIGHT)"

definition Unserialize_CTxUndo :: "points \<Rightarrow> bool \<Rightarrow> CTxUndo reader" where
  "Unserialize_CTxUndo pt fAssetsIsActive s =
     bindR (ReadCompactSize s) (\<lambda>(count, s).
       if count > max_input_undos fAssetsIsActive then Inl (Thrown ''Too many input undo records'')
       else read_elems (TxInUndoDeserializer pt Coin_Clear) count s)"

definition Serialize_CBlockUndo :: "points \<Rightarrow> CTxUndo list \<Rightarrow> bytes result" where
  "Serialize_CBlockUndo pt vtxundo =
     bindR (concatR (Serialize_CTxUndo pt) vtxundo) (\<lambda>b. Inr (WriteCompactSize (length vtxundo) @ b))"

definition Unserialize_CBlockUndo :: "points \<Rightarrow> bool \<Rightarrow> CTxUndo list reader" where
  "Unserialize_CBlockUndo pt fAssetsIsActive = Unserialize_vec (Unserialize_CTxUndo pt fAssetsIsActive)"

definition Serialize_CoinEntry :: "COutPoint \<Rightarrow> bytes" where
  "Serialize_CoinEntry out = 0x43 # prev_hash out @ WriteVarInt (unat (prev_n out))"

definition Unserialize_CoinEntry :: "(byte \<times> COutPoint) reader" where
  "Unserialize_CoinEntry s =
     bindR (ser_read 1 s) (\<lambda>(key, s).
     bindR (ser_read 32 s) (\<lambda>(hash, s).
     bindR (ReadVarInt 32 s) (\<lambda>(n, s). Inr ((hd key, \<lparr>prev_hash = hash, prev_n = of_nat n\<rparr>), s))))"

subsection \<open>Amounts round trip\<close>

lemma unat_plus_64: "unat a = k \<Longrightarrow> unat b = l \<Longrightarrow> k + l < 2 ^ 64 \<Longrightarrow> unat (a + b :: u64) = k + l"
  by (auto simp: unat_word_ariths)

lemma unat_mult_64: "unat a = k \<Longrightarrow> unat b = l \<Longrightarrow> k * l < 2 ^ 64 \<Longrightarrow> unat (a * b :: u64) = k * l"
  by (auto simp: unat_word_ariths)

lemma unat_minus1_64: "unat a = k \<Longrightarrow> 0 < k \<Longrightarrow> unat (a - 1 :: u64) = k - 1"
  by (auto simp: unat_minus_one unat_gt_0)

lemma unat_numeral_64 [simp]: "unat (1 :: u64) = 1" "unat (9 :: u64) = 9" "unat (10 :: u64) = 10"
  by simp_all

lemma strip_zeros_spec:
  "strip_zeros r n = (n', e) \<Longrightarrow> r \<le> 9 \<Longrightarrow> n \<noteq> 0 \<Longrightarrow>
   unat n = unat n' * 10 ^ (e - (9 - r)) \<and> 9 - r \<le> e \<and> e \<le> 9 \<and> n' \<noteq> 0 \<and> (e < 9 \<longrightarrow> unat n' mod 10 \<noteq> 0)"
proof (induction r arbitrary: n)
  case (Suc r)
  have m: "n mod 10 = 0 \<longleftrightarrow> unat n mod 10 = 0" by (simp add: unat_eq_zero [symmetric] unat_mod)
  show ?case
  proof (cases "n mod 10 = 0")
    case True
    have "unat n \<noteq> 0" using Suc.prems(3) by (simp add: unat_eq_zero)
    with m True have d: "n div 10 \<noteq> 0" "unat n = unat (n div 10) * 10"
      by (auto simp: unat_div unat_eq_zero [symmetric])
    have ih: "unat (n div 10) = unat n' * 10 ^ (e - (9 - r)) \<and> 9 - r \<le> e \<and> e \<le> 9 \<and> n' \<noteq> 0 \<and> (e < 9 \<longrightarrow> unat n' mod 10 \<noteq> 0)"
      using Suc.IH [of "n div 10"] Suc.prems True d(1) by simp
    then have "9 - r \<le> e" by blast
    then have "e - (9 - Suc r) = Suc (e - (9 - r))" using Suc.prems(2) by arith
    then show ?thesis using ih d(2) by simp
  next
    case False
    then show ?thesis using Suc.prems m by auto
  qed
qed simp

lemma unat_mul_tens: "unat n * 10 ^ e < 2 ^ 64 \<Longrightarrow> unat (mul_tens e n) = unat n * 10 ^ e"
proof (induction e arbitrary: n)
  case (Suc e)
  have "unat n * 10 \<le> unat n * 10 ^ Suc e" by simp
  then have "unat (n * 10) = unat n * 10" using Suc.prems by (intro unat_mult_64 refl) (simp, linarith)
  then show ?case using Suc by (simp add: ac_simps)
qed simp

lemma CompressAmount_value:
  assumes "unat n < 2 ^ 60" "n \<noteq> 0"
  obtains q d e c where "CompressAmount n = Inr c" "e < 9" "1 \<le> d" "d \<le> 9" "unat n = (10 * q + d) * 10 ^ e"
    "unat c = 1 + (q * 9 + d - 1) * 10 + e"
  | q c where "CompressAmount n = Inr c" "unat n = q * 10 ^ 9" "0 < q" "unat c = 1 + (q - 1) * 10 + 9"
proof -
  obtain n' e where s: "strip_zeros 9 n = (n', e)" by fastforce
  have sp: "unat n = unat n' * 10 ^ e" "e \<le> 9" "n' \<noteq> 0" "e < 9 \<longrightarrow> unat n' mod 10 \<noteq> 0"
    using strip_zeros_spec [OF s _ assms(2)] by simp_all
  then have small: "unat n' < 2 ^ 60" "0 < unat n'"
    using assms(1) by (auto simp: unat_gt_0 intro: le_less_trans [of "unat n'" "unat n'* 10 ^ e"])
  show ?thesis
  proof (cases "e < 9")
    case True
    let ?q = "unat n' div 10" and ?d = "unat n' mod 10"
    have d: "1 \<le> ?d" "?d \<le> 9" using sp(4) True by auto
    have u: "unat (n' mod 10) = ?d" "unat (n' div 10) = ?q" by (simp_all add: unat_div unat_mod)
    let ?c = "1 + (n' div 10 * 9 + n' mod 10 - 1) * 10 + of_nat e :: u64"
    have ue: "unat (of_nat e :: u64) = e" using True by (simp add: unat_of_nat)
    have b: "?q * 9 + ?d < 2 ^ 60" using small(1) div_mult_mod_eq [of "unat n'" 10] by linarith
    have b2: "0 < ?q * 9 + ?d" using d by simp
    have "unat (n' div 10 * 9 + n' mod 10) = ?q * 9 + ?d"
      using b by (intro unat_plus_64 unat_mult_64 u) simp_all
    then have "unat (n' div 10 * 9 + n' mod 10 - 1) = ?q * 9 + ?d - 1" using b2 by (rule unat_minus1_64)
    then have "unat ((n' div 10 * 9 + n' mod 10 - 1) * 10) = (?q * 9 + ?d - 1) * 10"
      using b by (intro unat_mult_64) simp_all
    then have "unat ?c = 1 + (?q * 9 + ?d - 1) * 10 + e"
      using b True by (intro unat_plus_64 ue) simp_all
    moreover have "CompressAmount n = Inr ?c"
      using assms(2) s True d by (simp add: CompressAmount_def Let_def word_le_nat_alt u)
    moreover have "unat n = (10 * ?q + ?d) * 10 ^ e" using sp(1) by simp
    ultimately show ?thesis using that(1) True d by blast
  next
    case False
    then have e: "e = 9" using sp(2) by simp
    let ?c = "1 + (n' - 1) * 10 + 9 :: u64"
    have "unat ((n' - 1) * 10) = (unat n' - 1) * 10"
      using small by (intro unat_mult_64 unat_minus1_64 refl) simp_all
    then have "unat ?c = 1 + (unat n' - 1) * 10 + 9"
      using small by (intro unat_plus_64) simp_all
    moreover have "CompressAmount n = Inr ?c" using assms(2) s e by (simp add: CompressAmount_def)
    ultimately show ?thesis using that(2) sp(1) small e by blast
  qed
qed

lemma DecompressAmount_small:
  assumes "unat x = 1 + y * 10 + e" "e < 10" "e < 9 \<longrightarrow> v = y div 9 * 10 + y mod 9 + 1" "e = 9 \<longrightarrow> v = y + 1" "v * 10 ^ e < 2 ^ 60"
  shows "unat (DecompressAmount x) = v * 10 ^ e"
proof -
  have x: "x \<noteq> 0" using assms(1) by auto
  have "unat (x - 1) = y * 10 + e" using unat_minus1_64 [OF assms(1)] by simp
  then have y: "unat ((x - 1) div 10) = y" "unat ((x - 1) mod 10) = e" using assms(2) by (simp_all add: unat_div unat_mod)
  have v: "v < 2 ^ 60" using assms(5) by (metis le_less_trans mult.right_neutral mult_le_mono2 one_le_numeral one_le_power)
  let ?n = "if e < 9 then (x - 1) div 10 div 9 * 10 + ((x - 1) div 10 mod 9 + 1) else (x - 1) div 10 + 1"
  have "unat ?n = v"
  proof (cases "e < 9")
    case True
    have q: "unat ((x - 1) div 10 div 9) = y div 9" "unat ((x - 1) div 10 mod 9) = y mod 9"
      using y by (simp_all add: unat_div unat_mod)
    have b: "y div 9 * 10 + (y mod 9 + 1) < 2 ^ 60" using True assms(3) v by simp
    then have "unat ((x - 1) div 10 div 9 * 10 + ((x - 1) div 10 mod 9 + 1)) = y div 9 * 10 + (y mod 9 + 1)"
      by (intro unat_plus_64 unat_mult_64 q) simp_all
    then show ?thesis using True assms(3) by simp
  next
    case False
    then have "v = y + 1" using assms(2,4) by simp
    then show ?thesis using False v by (simp, intro trans [OF unat_plus_64 [OF y(1)]]) simp_all
  qed
  then show ?thesis
    using x y assms(5) unat_mul_tens [of ?n e] by (simp add: DecompressAmount_def Let_def)
qed

lemma Decompress_Compress:
  assumes "unat n < 2 ^ 60"
  obtains c where "CompressAmount n = Inr c" "DecompressAmount c = n"
proof (cases "n = 0")
  case True
  then show ?thesis using that [of 0] by (simp add: CompressAmount_def DecompressAmount_def)
next
  case False
  from assms False show ?thesis
  proof (cases rule: CompressAmount_value)
    case (1 q d e c)
    obtain d' where d': "d = Suc d'" "d' < 9" using 1 by (cases d) auto
    then have "(q * 9 + d - 1) div 9 = q" "(q * 9 + d - 1) mod 9 = d - 1" by simp_all
    then have "unat (DecompressAmount c) = (10 * q + d) * 10 ^ e"
      using 1 assms by (intro DecompressAmount_small [where y = "q * 9 + d - 1"]) simp_all
    then show ?thesis using that 1 by (metis word_unat_eq_iff)
  next
    case (2 q c)
    then have "unat (DecompressAmount c) = q * 10 ^ 9"
      using assms by (intro DecompressAmount_small [where y = "q - 1"]) simp_all
    then show ?thesis using that 2 by (metis word_unat_eq_iff)
  qed
qed

subsection \<open>Scripts round trip\<close>

definition good_points :: "points \<Rightarrow> bool" where
  "good_points pt \<longleftrightarrow>
     (\<forall>k. length k = 65 \<and> k ! 0 = 0x04 \<and> IsFullyValid pt k \<longrightarrow>
       DecompressKey pt ((0x02 OR (k ! 64 AND 0x01)) # take 32 (drop 1 k)) = Some k)"

lemma take_nths: "1 \<le> length xs \<Longrightarrow> take 1 xs = [xs ! 0]" "2 \<le> length xs \<Longrightarrow> take 2 xs = [xs ! 0, xs ! 1]"
    "3 \<le> length xs \<Longrightarrow> take 3 xs = [xs ! 0, xs ! 1, xs ! 2]"
  by (cases xs; cases "tl xs"; cases "tl (tl xs)"; auto simp: numeral_2_eq_2 numeral_3_eq_3)+

lemma drop_nths: "length xs = Suc n \<Longrightarrow> drop n xs = [xs ! n]"
    "length xs = Suc (Suc n) \<Longrightarrow> drop n xs = [xs ! n, xs ! Suc n]"
  by (simp_all add: Cons_nth_drop_Suc [symmetric])

lemma split3: "xs = take a xs @ take n (drop a xs) @ drop (a + n) xs"
  by (metis append_take_drop_id drop_drop add.commute)

lemma IsToKeyID_shape:
  "IsToKeyID script = Some k \<Longrightarrow> length k = 20 \<and> script = [OP_DUP, OP_HASH160, 20] @ k @ [OP_EQUALVERIFY, OP_CHECKSIG]"
  using split3 [of script 3 20] take_nths(3) [of script] drop_nths(2) [of script 23]
  by (auto simp: IsToKeyID_def split: if_splits)

lemma IsToScriptID_shape:
  "IsToScriptID script = Some k \<Longrightarrow> length k = 20 \<and> script = [OP_HASH160, 20] @ k @ [OP_EQUAL]"
  using split3 [of script 2 20] take_nths(2) [of script] drop_nths(1) [of script 22]
  by (auto simp: IsToScriptID_def split: if_splits)

lemma IsToPubKey_shape:
  assumes "IsToPubKey pt script = Some k"
  shows "length k = 33 \<and> (k ! 0 = 0x02 \<or> k ! 0 = 0x03) \<and> script = [33] @ k @ [OP_CHECKSIG] \<or>
    length k = 65 \<and> k ! 0 = 0x04 \<and> IsFullyValid pt k \<and> script = [65] @ k @ [OP_CHECKSIG]"
  using assms split3 [of script 1 33] split3 [of script 1 65] take_nths(1) [of script] drop_nths(1) [of script 34] drop_nths(1) [of script 66]
  by (auto simp: IsToPubKey_def Let_def nth_append split: if_splits)

lemma parity_byte:
  fixes b :: byte
  shows "0x04 OR (b AND 1) = (4 :: byte) \<and> 0x02 OR (b AND 1) = (2 :: byte) \<or>
    0x04 OR (b AND 1) = (5 :: byte) \<and> 0x02 OR (b AND 1) = (3 :: byte)"
  by (cases "even b") (simp_all add: and_one_eq odd_iff_mod_2_eq_one even_iff_mod_2_eq_zero)

lemma Decompress_special:
  assumes "good_points pt" "Compress pt script = Some c"
  obtains h t where "c = h # t" "unat h < 6" "length t = GetSpecialSize (unat h)"
    "\<And>s. Decompress pt (unat h) t s = Inr (True, script)"
proof (cases "IsToKeyID script")
  case (Some k)
  then have "c = 0x00 # k" using assms(2) by (simp add: Compress_def)
  then show ?thesis using that [of 0 k] IsToKeyID_shape [OF Some] by (simp add: GetSpecialSize_def Decompress_def)
next
  case None1: None
  show ?thesis
  proof (cases "IsToScriptID script")
    case (Some k)
    then have "c = 0x01 # k" using assms(2) None1 by (simp add: Compress_def)
    then show ?thesis using that [of 1 k] IsToScriptID_shape [OF Some] by (simp add: GetSpecialSize_def Decompress_def)
  next
    case None2: None
    then obtain k where k: "IsToPubKey pt script = Some k" using assms(2) None1 by (auto simp: Compress_def split: option.splits)
    have tl: "k = k ! 0 # drop 1 k" if "0 < length k" using that by (simp add: Cons_nth_drop_Suc)
    consider (short) "length k = 33" "k ! 0 = 0x02 \<or> k ! 0 = 0x03" "script = [33] @ k @ [OP_CHECKSIG]"
      | (full) "length k = 65" "k ! 0 = 0x04" "IsFullyValid pt k" "script = [65] @ k @ [OP_CHECKSIG]"
      using IsToPubKey_shape [OF k] by blast
    then show ?thesis
    proof cases
      case short
      then have c: "c = k ! 0 # drop 1 k" using assms(2) None1 None2 k by (auto simp: Compress_def)
      then show ?thesis using that [of "k ! 0" "drop 1 k"] short tl by (auto simp: GetSpecialSize_def Decompress_def)
    next
      case full
      let ?h = "0x04 OR (k ! 64 AND 0x01)"
      have c: "c = ?h # take 32 (drop 1 k)" using assms(2) None1 None2 k full by (auto simp: Compress_def)
      have "DecompressKey pt ((0x02 OR (k ! 64 AND 0x01)) # take 32 (drop 1 k)) = Some k"
        using assms(1) full by (simp add: good_points_def)
      then have d: "\<And>s. Decompress pt (unat ?h) (take 32 (drop 1 k)) s = Inr (True, script)" "unat ?h < 6"
        "length (take 32 (drop 1 k)) = GetSpecialSize (unat ?h)"
        using parity_byte [of "k ! 64"] full by (auto simp: Decompress_def GetSpecialSize_def)
      show ?thesis by (rule that [OF c d(2,3,1)])
    qed
  qed
qed

lemma WriteVarInt_small: "n \<le> 127 \<Longrightarrow> WriteVarInt n = [of_nat n]"
  by (simp add: WriteVarInt_def WriteVarInt_loop.simps [of n])

lemma script_compressor_codec:
  assumes "good_points pt" "length script \<le> MAX_SCRIPT_SIZE"
  shows "Unserialize_CScriptCompressor pt script' (Serialize_CScriptCompressor pt script @ s) = Inr (script, s)"
proof (cases "Compress pt script")
  case None
  have "(length script + nSpecialScripts) mod 2 ^ 32 = length script + nSpecialScripts" "length script + nSpecialScripts < 2 ^ 32"
    using assms(2) by (simp_all add: MAX_SCRIPT_SIZE_def nSpecialScripts_def)
  then show ?thesis using None assms(2) varint32.dec_enc [of "length script + nSpecialScripts" "script @ s"]
    by (simp add: Serialize_CScriptCompressor_def Unserialize_CScriptCompressor_def)
next
  case (Some c)
  obtain h t where h: "c = h # t" "unat h < 6" "length t = GetSpecialSize (unat h)"
    "\<And>s. Decompress pt (unat h) t s = Inr (True, script)"
    by (rule Decompress_special [OF assms(1) Some]) blast
  have "ReadVarInt 32 (WriteVarInt (unat h) @ t @ s) = Inr (unat h, t @ s)" using h(2) by (intro varint32.dec_enc) simp
  then have "ReadVarInt 32 (h # t @ s) = Inr (unat h, t @ s)" using h(2) by (simp add: WriteVarInt_small)
  then show ?thesis using Some h
    by (simp add: Serialize_CScriptCompressor_def Unserialize_CScriptCompressor_def nSpecialScripts_def)
qed

subsection \<open>Coins and undo records round trip\<close>

definition storable :: "Coin \<Rightarrow> bool" where
  "storable c \<longleftrightarrow> 0 \<le> nValue (coin_out c) \<and> nValue (coin_out c) < 2 ^ 60 \<and> nRounds (coin_out c) = nRounds CTxOut_null \<and>
     length (scriptPubKey (coin_out c)) \<le> MAX_SCRIPT_SIZE \<and> unat (coin_nHeight c) < 2 ^ 30"

lemma sint_amount: "0 \<le> v \<Longrightarrow> v < 2 ^ 60 \<Longrightarrow> sint (word_of_int v :: u64) = v"
  by (simp add: sint_word_ariths signed_of_int signed_take_bit_int_eq_self)

lemma txout_compressor_codec:
  assumes "good_points pt" "storable c"
  obtains b where "Serialize_CTxOutCompressor pt (coin_out c) = Inr b"
    "\<And>s. Unserialize_CTxOutCompressor pt CTxOut_null (b @ s) = Inr (coin_out c, s)"
proof -
  let ?out = "coin_out c"
  let ?v = "word_of_int (nValue ?out) :: u64"
  have nv: "0 \<le> nValue ?out" "nValue ?out < 2 ^ 60" using assms(2) by (simp_all add: storable_def)
  have "uint ?v = nValue ?out" using nv by (simp add: unsigned_of_int take_bit_int_eq_self)
  then have "unat ?v < 2 ^ 60" using nv by (simp add: unat_eq_nat_uint nat_less_iff)
  then obtain v where v: "CompressAmount ?v = Inr v" "DecompressAmount v = ?v" by (rule Decompress_Compress)
  define b where "b = WriteVarInt (unat v) @ Serialize_CScriptCompressor pt (scriptPubKey ?out)"
  have "unat v < 2 ^ 64" using unsigned_less [of v] by simp
  then have rv: "ReadVarInt 64 (WriteVarInt (unat v) @ t) = Inr (unat v, t)" for t by (rule varint64.dec_enc)
  have rs: "Unserialize_CScriptCompressor pt s' (Serialize_CScriptCompressor pt (scriptPubKey ?out) @ t) = Inr (scriptPubKey ?out, t)" for s' t
    using script_compressor_codec [OF assms(1)] assms(2) by (simp add: storable_def)
  have "CTxOut_null\<lparr>nValue := nValue ?out, scriptPubKey := scriptPubKey ?out\<rparr> = ?out"
    using assms(2) by (cases ?out) (simp add: storable_def CTxOut_null_def)
  then have "Unserialize_CTxOutCompressor pt CTxOut_null (b @ s) = Inr (?out, s)" for s
    by (simp add: Unserialize_CTxOutCompressor_def b_def rv rs v sint_amount [OF nv])
  moreover have "Serialize_CTxOutCompressor pt ?out = Inr b" by (simp add: Serialize_CTxOutCompressor_def v b_def)
  ultimately show ?thesis using that by blast
qed

lemma coin_code_value:
  assumes "storable c"
  shows "coin_code c = Inr (2 * unat (coin_nHeight c) + (if fCoinBase c then 1 else 0))"
proof -
  define n where "n = unat (coin_nHeight c)"
  have u: "uint (coin_nHeight c) = int n" by (simp add: n_def)
  have "n < 2 ^ 30" using assms by (simp add: storable_def n_def)
  then show ?thesis
    unfolding coin_code_def u n_def [symmetric]
    by (auto simp: i32_def in_int32_def INT32_MAX_def nat_add_distrib nat_mult_distrib)
qed

lemma coin_code_reads:
  assumes "storable c"
  shows "ReadVarInt 32 (WriteVarInt (2 * unat (coin_nHeight c) + (if fCoinBase c then 1 else 0)) @ s) =
      Inr (2 * unat (coin_nHeight c) + (if fCoinBase c then 1 else 0), s)"
    and "odd (2 * unat (coin_nHeight c) + (if fCoinBase c then 1 else 0)) = fCoinBase c"
    and "of_nat ((2 * unat (coin_nHeight c) + (if fCoinBase c then 1 else 0)) div 2) = coin_nHeight c"
  using assms by (auto simp: storable_def intro!: varint32.dec_enc)

lemma storable_unspent: "storable c \<Longrightarrow> \<not> IsSpent c"
  by (simp add: storable_def IsSpent_def CTxOut_IsNull_def)

lemma undo_record_codec:
  assumes "good_points pt" "storable c"
  shows "\<exists>b. TxInUndoSerializer pt c = Inr b \<and> (\<forall>s. TxInUndoDeserializer pt Coin_Clear (b @ s) = Inr (c, s))"
proof -
  obtain b where b: "Serialize_CTxOutCompressor pt (coin_out c) = Inr b"
    "\<And>s. Unserialize_CTxOutCompressor pt CTxOut_null (b @ s) = Inr (coin_out c, s)"
    using txout_compressor_codec [OF assms] by blast
  have "ReadVarInt 31 (0 # s) = Inr (0, s)" for s by (simp add: ReadVarInt_def)
  then show ?thesis using b coin_code_reads [OF assms(2)]
    by (simp add: TxInUndoSerializer_def TxInUndoDeserializer_def coin_code_value [OF assms(2)] Let_def Coin_Clear_def)
qed

lemma elems_codec:
  assumes "\<forall>x \<in> set xs. \<exists>b. f x = Inr b \<and> (\<forall>s. dec (b @ s) = Inr (x, s))"
  shows "\<exists>bs. concatR f xs = Inr bs \<and> (\<forall>s. read_elems dec (length xs) (bs @ s) = Inr (xs, s))"
  using assms
proof (induction xs)
  case (Cons x xs)
  obtain b where b: "f x = Inr b" "\<And>s. dec (b @ s) = Inr (x, s)" using Cons.prems by auto
  obtain bs where bs: "concatR f xs = Inr bs" "\<And>s. read_elems dec (length xs) (bs @ s) = Inr (xs, s)"
    using Cons by auto
  show ?case using b bs by (auto intro!: exI [of _ "b @ bs"])
qed simp

lemma tx_undo_codec:
  assumes "good_points pt" "\<forall>c \<in> set u. storable c" "length u \<le> max_input_undos a"
  shows "\<exists>b. Serialize_CTxUndo pt u = Inr b \<and> (\<forall>s. Unserialize_CTxUndo pt a (b @ s) = Inr (u, s))"
proof -
  obtain bs where bs: "concatR (TxInUndoSerializer pt) u = Inr bs"
    "\<And>s. read_elems (TxInUndoDeserializer pt Coin_Clear) (length u) (bs @ s) = Inr (u, s)"
    using elems_codec [of u "TxInUndoSerializer pt" "TxInUndoDeserializer pt Coin_Clear"] undo_record_codec assms by blast
  have "length u \<le> MAX_SIZE" using assms(3) by (simp add: max_input_undos_def MIN_TRANSACTION_INPUT_WEIGHT_def MAX_SIZE_def split: if_splits)
  then have "ReadCompactSize (WriteCompactSize (length u) @ t) = Inr (length u, t)" for t by (rule csize.dec_enc)
  then show ?thesis using bs assms(3) by (simp add: Serialize_CTxUndo_def Unserialize_CTxUndo_def)
qed

lemma block_undo_codec:
  assumes "good_points pt" and "\<forall>u \<in> set vtxundo. length u \<le> max_input_undos a \<and> (\<forall>c \<in> set u. storable c)"
    and "length vtxundo \<le> MAX_SIZE"
  shows "\<exists>b. Serialize_CBlockUndo pt vtxundo = Inr b \<and> (\<forall>s. Unserialize_CBlockUndo pt a (b @ s) = Inr (vtxundo, s))"
proof -
  obtain bs where bs: "concatR (Serialize_CTxUndo pt) vtxundo = Inr bs"
    "\<And>s. read_elems (Unserialize_CTxUndo pt a) (length vtxundo) (bs @ s) = Inr (vtxundo, s)"
    using elems_codec [of vtxundo "Serialize_CTxUndo pt" "Unserialize_CTxUndo pt a"] tx_undo_codec assms(1,2) by blast
  have "ReadCompactSize (WriteCompactSize (length vtxundo) @ t) = Inr (length vtxundo, t)" for t
    using assms(3) by (rule csize.dec_enc)
  then show ?thesis using bs by (simp add: Serialize_CBlockUndo_def Unserialize_CBlockUndo_def Unserialize_vec_def)
qed

text \<open>C35. A coin that is written to the database reads back as it was, and its key too, for every
  amount that fits and every script that is not too long, whichever of the six short forms the
  compressor chose: neither the assertions of the compressor nor the height can fail.\<close>

theorem coin_record_roundtrip:
  assumes "good_points pt" and "storable c" and "length (prev_hash out) = 32"
  shows "\<exists>b. Serialize_Coin pt c = Inr b \<and> (\<forall>s. Unserialize_Coin pt Coin_Clear (b @ s) = Inr (c, s)) \<and>
    (\<forall>s. Unserialize_CoinEntry (Serialize_CoinEntry out @ s) = Inr ((0x43, out), s))"
proof -
  obtain b where b: "Serialize_CTxOutCompressor pt (coin_out c) = Inr b"
    "\<And>s. Unserialize_CTxOutCompressor pt CTxOut_null (b @ s) = Inr (coin_out c, s)"
    using txout_compressor_codec [OF assms(1,2)] by blast
  have "ReadVarInt 32 (WriteVarInt (unat (prev_n out)) @ s) = Inr (unat (prev_n out), s)" for s
    using unsigned_less [of "prev_n out"] by (intro varint32.dec_enc) simp
  then have "Unserialize_CoinEntry (Serialize_CoinEntry out @ s) = Inr ((0x43, out), s)" for s
    using assms(3) ser_read_append [of "[0x43]" 1] by (simp add: Unserialize_CoinEntry_def Serialize_CoinEntry_def)
  moreover have "coin_out Coin_Clear = CTxOut_null" by (simp add: Coin_Clear_def)
  ultimately show ?thesis using b coin_code_reads [OF assms(2)] storable_unspent [OF assms(2)]
    by (simp add: Serialize_Coin_def Unserialize_Coin_def coin_code_value [OF assms(2)])
qed

text \<open>The undo data of a block reads back as it was written, for any number of transactions and inputs
  within the limits that are checked while reading.\<close>

theorem block_undo_roundtrip:
  assumes "good_points pt" and "\<forall>u \<in> set vtxundo. length u \<le> max_input_undos a \<and> (\<forall>c \<in> set u. storable c)"
    and "length vtxundo \<le> MAX_SIZE"
  shows "\<exists>b. Serialize_CBlockUndo pt vtxundo = Inr b \<and> (\<forall>s. Unserialize_CBlockUndo pt a (b @ s) = Inr (vtxundo, s))"
  using assms by (rule block_undo_codec)

text \<open>An instance of the parameters: a key is valid when its second half is zero but for the parity.\<close>

definition sample_points :: points where
  "sample_points = \<lparr>IsFullyValid = (\<lambda>k. drop 33 k = replicate 31 0 @ [k ! 64 AND 1]),
     DecompressKey = (\<lambda>k. Some (0x04 # tl k @ replicate 31 0 @ [hd k AND 1]))\<rparr>"

lemma sample_points_good: "good_points sample_points"
proof -
  have "0x04 # take 32 (drop 1 k) @ replicate 31 0 @ [k ! 64 AND 1] = k"
    if "length k = 65" "k ! 0 = 0x04" "drop 33 k = replicate 31 0 @ [k ! 64 AND 1]" for k :: bytes
    using that split3 [of k 1 32] take_nths(1) [of k] by simp
  moreover have "(2 OR (b AND 1)) AND 1 = b AND 1" for b :: byte
    by (simp add: bit.conj_disj_distrib2 and.assoc)
  ultimately show ?thesis by (simp add: good_points_def sample_points_def)
qed

definition sample_key_coin :: Coin where
  "sample_key_coin = \<lparr>coin_out = \<lparr>nValue = 5000000000, scriptPubKey = [65, 0x04] @ replicate 63 0 @ [1, OP_CHECKSIG], nRounds = - 10\<rparr>,
     fCoinBase = True, coin_nHeight = 77\<rparr>"

lemma sample_storable: "storable sample_key_coin"
  by (simp add: storable_def sample_key_coin_def CTxOut_null_def MAX_SCRIPT_SIZE_def)

theorem coin_record_roundtrip_witness:
  "\<exists>b. Serialize_Coin sample_points sample_key_coin = Inr b \<and> Unserialize_Coin sample_points Coin_Clear b = Inr (sample_key_coin, [])"
  using coin_record_roundtrip [OF sample_points_good sample_storable, of sample_outpoint]
  by (simp add: sample_outpoint_def) (metis append_Nil2)

theorem block_undo_roundtrip_witness:
  "\<exists>b. Serialize_CBlockUndo sample_points [[sample_key_coin], []] = Inr b \<and>
    Unserialize_CBlockUndo sample_points True b = Inr ([[sample_key_coin], []], [])"
proof -
  have "\<forall>u \<in> set [[sample_key_coin], []]. length u \<le> max_input_undos True \<and> (\<forall>c \<in> set u. storable c)"
    using sample_storable by (simp add: max_input_undos_def MIN_TRANSACTION_INPUT_WEIGHT_def)
  then show ?thesis
    using block_undo_roundtrip [OF sample_points_good, of "[[sample_key_coin], []]" True]
    by (simp add: MAX_SIZE_def) (metis append_Nil2)
qed

end
