(* ===== verification/Block_Undo.thy ===== *)
theory Block_Undo
  imports Compressor
begin

text \<open>
  What connecting a block does to the coins and how it is undone: \<open>UpdateCoins\<close>, \<open>ApplyTxInUndo\<close> and
  the loops over coins of \<open>ConnectBlock\<close> and \<open>DisconnectBlock\<close> in \<open>src/src/validation.cpp\<close>, and
  \<open>AccessByTxid\<close> of \<open>src/src/coins.cpp\<close>. The model is the code with assets not deployed and without
  the address and spent indexes; the scripts, fees and special transactions of a block are checked
  elsewhere and do not touch the coins.
\<close>

subsection \<open>Connecting\<close>

text \<open>The inputs of a transaction are spent in order; each must be found.\<close>

fun spend_inputs :: "(Coin \<Rightarrow> u64) \<Rightarrow> CTxIn list \<Rightarrow> CCoinsViewCache \<Rightarrow> view \<Rightarrow> (CTxUndo \<times> CCoinsViewCache \<times> view) result" where
  "spend_inputs usage [] c base = Inr ([], c, base)"
| "spend_inputs usage (txin # ins) c base =
     (case SpendCoin usage c base (prevout txin) of ((is_spent, moved), c, base) \<Rightarrow>
        bindR (assertR is_spent) (\<lambda>_.
        bindR (spend_inputs usage ins c base) (\<lambda>(vprevout, s).
          Inr ((case moved of Some x \<Rightarrow> x | None \<Rightarrow> Coin_Clear) # vprevout, s))))"

definition UpdateCoins :: "crypto \<Rightarrow> (Coin \<Rightarrow> u64) \<Rightarrow> CTransaction \<Rightarrow> int \<Rightarrow> CCoinsViewCache \<Rightarrow> view \<Rightarrow>
   (CTxUndo \<times> CCoinsViewCache \<times> view) result" where
  "UpdateCoins cr usage tx nHeight c base =
     bindR (if \<not> IsCoinBase tx then spend_inputs usage (vin tx) c base else Inr ([], c, base)) (\<lambda>(txundo, c, base).
     bindR (AddCoins cr usage tx nHeight False c base) (\<lambda>s. Inr (txundo, s)))"

text \<open>The loop of \<open>ConnectBlock\<close>; the undo record of the first transaction is dropped.\<close>

fun connect_txs :: "crypto \<Rightarrow> (Coin \<Rightarrow> u64) \<Rightarrow> CTransaction list \<Rightarrow> int \<Rightarrow> CCoinsViewCache \<Rightarrow> view \<Rightarrow>
   (CTxUndo list \<times> CCoinsViewCache \<times> view) result" where
  "connect_txs cr usage [] nHeight c base = Inr ([], c, base)"
| "connect_txs cr usage (tx # txs) nHeight c base =
     bindR (UpdateCoins cr usage tx nHeight c base) (\<lambda>(u, c, base).
     bindR (connect_txs cr usage txs nHeight c base) (\<lambda>(us, s). Inr (u # us, s)))"

definition connect_coins :: "crypto \<Rightarrow> (Coin \<Rightarrow> u64) \<Rightarrow> CTransaction list \<Rightarrow> int \<Rightarrow> CCoinsViewCache \<Rightarrow> view \<Rightarrow>
   (CTxUndo list \<times> CCoinsViewCache \<times> view) result" where
  "connect_coins cr usage vtx nHeight c base =
     bindR (connect_txs cr usage vtx nHeight c base) (\<lambda>(us, s). Inr (tl us, s))"

subsection \<open>Disconnecting\<close>

datatype DisconnectResult = DISCONNECT_OK | DISCONNECT_UNCLEAN | DISCONNECT_FAILED

text \<open>The size of a serialized empty \<open>CTxOut\<close> is 9 bytes.\<close>

definition MIN_TRANSACTION_OUTPUT_WEIGHT :: nat where "MIN_TRANSACTION_OUTPUT_WEIGHT = 4 * 9"

definition GetMaxBlockWeight :: nat where "GetMaxBlockWeight = 8000000"

text \<open>The first argument counts the indexes that are left.\<close>

primrec access_by_txid :: "nat \<Rightarrow> (Coin \<Rightarrow> u64) \<Rightarrow> u32 \<Rightarrow> uint256 \<Rightarrow> CCoinsViewCache \<Rightarrow> view \<Rightarrow> Coin \<times> CCoinsViewCache \<times> view" where
  "access_by_txid 0 usage n txid c base = (Coin_Clear, c, base)"
| "access_by_txid (Suc k) usage n txid c base =
     (case AccessCoin usage c base \<lparr>prev_hash = txid, prev_n = n\<rparr> of (alternate, c, base) \<Rightarrow>
        if \<not> IsSpent alternate then (alternate, c, base) else access_by_txid k usage (n + 1) txid c base)"

definition AccessByTxid :: "(Coin \<Rightarrow> u64) \<Rightarrow> uint256 \<Rightarrow> CCoinsViewCache \<Rightarrow> view \<Rightarrow> Coin \<times> CCoinsViewCache \<times> view" where
  "AccessByTxid usage txid c base =
     access_by_txid (GetMaxBlockWeight div MIN_TRANSACTION_OUTPUT_WEIGHT) usage 0 txid c base"

definition ApplyTxInUndo :: "(Coin \<Rightarrow> u64) \<Rightarrow> Coin \<Rightarrow> COutPoint \<Rightarrow> CCoinsViewCache \<Rightarrow> view \<Rightarrow>
   (DisconnectResult \<times> CCoinsViewCache \<times> view) result" where
  "ApplyTxInUndo usage undo out c base =
     (case HaveCoin usage c base out of (have, c, base) \<Rightarrow>
      let fClean = (\<not> have);
          (undo, c, base) =
            (if coin_nHeight undo = 0 then
               (case AccessByTxid usage (prev_hash out) c base of (alternate, c, base) \<Rightarrow>
                  if \<not> IsSpent alternate
                  then (Some (undo\<lparr>coin_nHeight := coin_nHeight alternate, fCoinBase := fCoinBase alternate\<rparr>), c, base)
                  else (None, c, base))
             else (Some undo, c, base)) in
      case undo of
        None \<Rightarrow> Inr (DISCONNECT_FAILED, c, base)
      | Some undo \<Rightarrow>
          bindR (AddCoin usage c out undo (\<not> fClean)) (\<lambda>c.
            Inr (if fClean then DISCONNECT_OK else DISCONNECT_UNCLEAN, c, base)))"

text \<open>The outputs of a transaction, from index \<open>o\<close> on: the flag is \<open>fClean\<close>.\<close>

fun disconnect_outputs :: "(Coin \<Rightarrow> u64) \<Rightarrow> uint256 \<Rightarrow> bool \<Rightarrow> int \<Rightarrow> nat \<Rightarrow> CTxOut list \<Rightarrow> bool \<Rightarrow> CCoinsViewCache \<Rightarrow> view \<Rightarrow>
   bool \<times> CCoinsViewCache \<times> view" where
  "disconnect_outputs usage hash is_coinbase nHeight i [] fClean c base = (fClean, c, base)"
| "disconnect_outputs usage hash is_coinbase nHeight i (txout # outs) fClean c base =
     (if \<not> IsUnspendable (scriptPubKey txout) then
        (case SpendCoin usage c base \<lparr>prev_hash = hash, prev_n = of_nat i\<rparr> of ((is_spent, moved), c, base) \<Rightarrow>
           let x = (case moved of Some x \<Rightarrow> x | None \<Rightarrow> Coin_Clear) in
           disconnect_outputs usage hash is_coinbase nHeight (i + 1) outs
             (if \<not> is_spent \<or> txout \<noteq> coin_out x \<or> nHeight \<noteq> uint (coin_nHeight x) \<or> is_coinbase \<noteq> fCoinBase x
              then False else fClean) c base)
      else disconnect_outputs usage hash is_coinbase nHeight (i + 1) outs fClean c base)"

text \<open>The inputs are restored from the last to the first: the lists are reversed.\<close>

fun restore_inputs :: "(Coin \<Rightarrow> u64) \<Rightarrow> (CTxIn \<times> Coin) list \<Rightarrow> bool \<Rightarrow> CCoinsViewCache \<Rightarrow> view \<Rightarrow>
   (bool option \<times> CCoinsViewCache \<times> view) result" where
  "restore_inputs usage [] fClean c base = Inr (Some fClean, c, base)"
| "restore_inputs usage ((txin, undo) # rest) fClean c base =
     bindR (ApplyTxInUndo usage undo (prevout txin) c base) (\<lambda>(res, c, base).
       if res = DISCONNECT_FAILED then Inr (None, c, base)
       else restore_inputs usage rest (fClean \<and> res \<noteq> DISCONNECT_UNCLEAN) c base)"

text \<open>One transaction; \<open>txundo\<close> is \<open>None\<close> for the first of a block. \<open>None\<close> in the result is a failure.\<close>

definition disconnect_tx :: "crypto \<Rightarrow> (Coin \<Rightarrow> u64) \<Rightarrow> CTransaction \<Rightarrow> CTxUndo option \<Rightarrow> int \<Rightarrow> bool \<Rightarrow> CCoinsViewCache \<Rightarrow> view \<Rightarrow>
   (bool option \<times> CCoinsViewCache \<times> view) result" where
  "disconnect_tx cr usage tx txundo nHeight fClean c base =
     (case disconnect_outputs usage (GetHash cr tx) (IsCoinBase tx) nHeight 0 (vout tx) fClean c base of
        (fClean, c, base) \<Rightarrow>
        (case txundo of
           None \<Rightarrow> Inr (Some fClean, c, base)
         | Some vprevout \<Rightarrow>
             if length vprevout \<noteq> length (vin tx) then Inr (None, c, base)
             else restore_inputs usage (rev (zip (vin tx) vprevout)) fClean c base))"

fun disconnect_txs :: "crypto \<Rightarrow> (Coin \<Rightarrow> u64) \<Rightarrow> (CTransaction \<times> CTxUndo option) list \<Rightarrow> int \<Rightarrow> bool \<Rightarrow> CCoinsViewCache \<Rightarrow> view \<Rightarrow>
   (bool option \<times> CCoinsViewCache \<times> view) result" where
  "disconnect_txs cr usage [] nHeight fClean c base = Inr (Some fClean, c, base)"
| "disconnect_txs cr usage ((tx, u) # rest) nHeight fClean c base =
     bindR (disconnect_tx cr usage tx u nHeight fClean c base) (\<lambda>(r, c, base).
       case r of None \<Rightarrow> Inr (None, c, base)
       | Some fClean \<Rightarrow> disconnect_txs cr usage rest nHeight fClean c base)"

definition DisconnectBlock :: "crypto \<Rightarrow> (Coin \<Rightarrow> u64) \<Rightarrow> CTransaction list \<Rightarrow> CTxUndo list \<Rightarrow> int \<Rightarrow> uint256 \<Rightarrow> CCoinsViewCache \<Rightarrow> view \<Rightarrow>
   (DisconnectResult \<times> CCoinsViewCache \<times> view) result" where
  "DisconnectBlock cr usage vtx vtxundo nHeight hashPrev c base =
     (if length vtxundo + 1 \<noteq> length vtx then Inr (DISCONNECT_FAILED, c, base)
      else bindR (disconnect_txs cr usage (rev (zip vtx (None # map Some vtxundo))) nHeight True c base) (\<lambda>(r, c, base).
        case r of
          None \<Rightarrow> Inr (DISCONNECT_FAILED, c, base)
        | Some fClean \<Rightarrow>
            Inr (if fClean then DISCONNECT_OK else DISCONNECT_UNCLEAN, SetBestBlock c hashPrev, base)))"

subsection \<open>What a stack shows\<close>

text \<open>The top cache shows the coins \<open>m\<close> and holds the block hash \<open>h\<close>; the levels below it are \<open>ls\<close>.\<close>

definition shows_coins :: "(Coin \<Rightarrow> u64) \<Rightarrow> CCoinsViewCache \<Rightarrow> view \<Rightarrow> (COutPoint \<Rightarrow> Coin option) \<Rightarrow> level list \<Rightarrow> uint256 \<Rightarrow> bool" where
  "shows_coins usage c base m ls h \<longleftrightarrow>
     wf_view usage (ViewCache c base) \<and> coins_of (ViewCache c base) = m \<and> levels base = ls \<and> hashBlock c = h"

lemma shows_coins_levels:
  "shows_coins usage c base m ls h \<Longrightarrow> levels (ViewCache c' base') = levels (ViewCache c base) \<Longrightarrow>
   wf_view usage (ViewCache c' base') \<Longrightarrow> shows_coins usage c' base' m ls h"
  by (simp add: shows_coins_def del: coins_of.simps wf_view.simps)

lemma SpendCoin_shows:
  assumes "shows_coins usage c base m ls h" "usage Coin_Clear = 0" "m out = Some x"
  obtains c' base' where "SpendCoin usage c base out = ((True, Some x), c', base')"
    "shows_coins usage c' base' (m(out := None)) ls h"
proof -
  obtain found moved c' base' where s: "SpendCoin usage c base out = ((found, moved), c', base')" by (metis prod.collapse)
  have w: "wf_view usage (ViewCache c base)" using assms(1) by (simp add: shows_coins_def del: wf_view.simps coins_of.simps)
  have "found" "moved = Some x" "shows_coins usage c' base' (m(out := None)) ls h"
    using SpendCoin_refines [OF w assms(2) s] SpendCoin_levels [OF w s] assms(1,3)
    by (auto simp: shows_coins_def simp del: wf_view.simps coins_of.simps)
  then show ?thesis using that s by simp
qed

lemma AddCoin_shows:
  assumes "shows_coins usage c base m ls h" "\<not> IsSpent x" "\<not> IsUnspendable (scriptPubKey (coin_out x))" "ow \<or> m out = None"
  obtains c' where "AddCoin usage c out x ow = Inr c'" "shows_coins usage c' base (m(out \<mapsto> x)) ls h"
proof -
  have w: "wf_view usage (ViewCache c base)" using assms(1) by (simp add: shows_coins_def del: wf_view.simps coins_of.simps)
  have new: "ow \<or> coins_of (ViewCache c base) out = None"
    using assms(1,4) by (simp add: shows_coins_def del: wf_view.simps coins_of.simps)
  show ?thesis
  proof (rule AddCoin_refines [OF w assms(2) new])
    fix c'
    assume "AddCoin usage c out x ow = Inr c'" "wf_view usage (ViewCache c' base)"
      "coins_of (ViewCache c' base) = (if IsUnspendable (scriptPubKey (coin_out x)) then coins_of (ViewCache c base)
         else (coins_of (ViewCache c base))(out \<mapsto> x))" "hashBlock c' = hashBlock c"
    then show ?thesis using that assms(1,3) by (simp add: shows_coins_def del: wf_view.simps coins_of.simps)
  qed
qed

lemma HaveCoin_shows:
  assumes "shows_coins usage c base m ls h"
  obtains c' base' where "HaveCoin usage c base out = (m out \<noteq> None, c', base')" "shows_coins usage c' base' m ls h"
proof -
  have w: "wf_view usage (ViewCache c base)" and m: "coins_of (ViewCache c base) = m"
    using assms by (simp_all add: shows_coins_def del: wf_view.simps coins_of.simps)
  show ?thesis
    by (rule HaveCoin_stack [OF w, of out]) (metis m that shows_coins_levels [OF assms])
qed

lemma AddCoins_shows:
  assumes "shows_coins usage c base m ls h" "\<forall>txout \<in> set (vout tx). \<not> CTxOut_IsNull txout" "length (vout tx) \<le> 2 ^ 32"
    and "\<forall>j < length (vout tx). m \<lparr>prev_hash = GetHash cr tx, prev_n = of_nat j\<rparr> = None"
  obtains c' base' where "AddCoins cr usage tx nHeight False c base = Inr (c', base')"
    "shows_coins usage c' base' (spec_outputs (GetHash cr tx) (IsCoinBase tx) nHeight 0 (vout tx) m) ls h"
proof -
  have "wf_view usage (ViewCache c base)" and m: "coins_of (ViewCache c base) = m"
    using assms(1) by (simp_all add: shows_coins_def del: wf_view.simps coins_of.simps)
  from add_outputs_refines [OF this(1) assms(2), of 0 False "IsCoinBase tx" "GetHash cr tx" nHeight] assms(3,4)
  obtain c' base' where "add_outputs usage (GetHash cr tx) (IsCoinBase tx) False nHeight 0 (vout tx) c base = Inr (c', base')"
    "wf_view usage (ViewCache c' base')" "hashBlock c' = hashBlock c" "levels base' = levels base"
    "coins_of (ViewCache c' base') = spec_outputs (GetHash cr tx) (IsCoinBase tx) nHeight 0 (vout tx) m"
    unfolding m by auto
  then show ?thesis using assms(1)
    by (intro that [of c' base']) (simp_all add: AddCoins_def shows_coins_def del: wf_view.simps coins_of.simps)
qed

subsection \<open>The effect of a block on the coins\<close>

fun spec_spend :: "CTxIn list \<Rightarrow> (COutPoint \<Rightarrow> Coin option) \<Rightarrow> CTxUndo \<times> (COutPoint \<Rightarrow> Coin option)" where
  "spec_spend [] m = ([], m)"
| "spec_spend (i # ins) m =
     (the (m (prevout i)) # fst (spec_spend ins (m(prevout i := None))), snd (spec_spend ins (m(prevout i := None))))"

fun all_spendable :: "CTxIn list \<Rightarrow> (COutPoint \<Rightarrow> Coin option) \<Rightarrow> bool" where
  "all_spendable [] m \<longleftrightarrow> True"
| "all_spendable (i # ins) m \<longleftrightarrow> m (prevout i) \<noteq> None \<and> all_spendable ins (m(prevout i := None))"

definition spec_ins :: "CTransaction \<Rightarrow> (COutPoint \<Rightarrow> Coin option) \<Rightarrow> CTxUndo \<times> (COutPoint \<Rightarrow> Coin option)" where
  "spec_ins tx m = (if IsCoinBase tx then ([], m) else spec_spend (vin tx) m)"

definition spec_tx :: "crypto \<Rightarrow> int \<Rightarrow> CTransaction \<Rightarrow> (COutPoint \<Rightarrow> Coin option) \<Rightarrow> COutPoint \<Rightarrow> Coin option" where
  "spec_tx cr nHeight tx m = spec_outputs (GetHash cr tx) (IsCoinBase tx) nHeight 0 (vout tx) (snd (spec_ins tx m))"

definition legal_tx :: "crypto \<Rightarrow> CTransaction \<Rightarrow> (COutPoint \<Rightarrow> Coin option) \<Rightarrow> bool" where
  "legal_tx cr tx m \<longleftrightarrow> (IsCoinBase tx \<or> all_spendable (vin tx) m) \<and>
     list_all (\<lambda>txout. \<not> CTxOut_IsNull txout) (vout tx) \<and> length (vout tx) \<le> 2 ^ 32 \<and>
     list_all (\<lambda>j. snd (spec_ins tx m) \<lparr>prev_hash = GetHash cr tx, prev_n = of_nat j\<rparr> = None) [0..<length (vout tx)]"

fun legal_txs :: "crypto \<Rightarrow> int \<Rightarrow> CTransaction list \<Rightarrow> (COutPoint \<Rightarrow> Coin option) \<Rightarrow> bool" where
  "legal_txs cr nHeight [] m \<longleftrightarrow> True"
| "legal_txs cr nHeight (tx # txs) m \<longleftrightarrow> legal_tx cr tx m \<and> legal_txs cr nHeight txs (spec_tx cr nHeight tx m)"

definition live_coins :: "(COutPoint \<Rightarrow> Coin option) \<Rightarrow> bool" where
  "live_coins m \<longleftrightarrow> (\<forall>out x. m out = Some x \<longrightarrow>
     \<not> IsSpent x \<and> \<not> IsUnspendable (scriptPubKey (coin_out x)) \<and> coin_nHeight x \<noteq> 0)"

lemma live_coinsD:
  "live_coins m \<Longrightarrow> m out = Some x \<Longrightarrow> \<not> IsSpent x \<and> \<not> IsUnspendable (scriptPubKey (coin_out x)) \<and> coin_nHeight x \<noteq> 0"
  by (simp add: live_coins_def)

lemma live_remove: "live_coins m \<Longrightarrow> live_coins (m(out := None))"
  by (auto simp: live_coins_def)

lemma live_spend: "live_coins m \<Longrightarrow> live_coins (snd (spec_spend ins m))"
  by (induction ins arbitrary: m) (simp_all add: live_remove)

lemma height_word:
  assumes "0 < nHeight" "nHeight < 2 ^ 31"
  shows "uint (word_of_int nHeight :: 31 word) = nHeight" "(word_of_int nHeight :: 31 word) \<noteq> 0"
proof -
  show u: "uint (word_of_int nHeight :: 31 word) = nHeight"
    using assms by (simp add: unsigned_of_int take_bit_int_eq_self)
  then show "(word_of_int nHeight :: 31 word) \<noteq> 0" using assms(1) by auto
qed

lemma live_outputs:
  assumes "live_coins m" "\<forall>txout \<in> set outs. \<not> CTxOut_IsNull txout" "0 < nHeight" "nHeight < 2 ^ 31"
  shows "live_coins (spec_outputs txid cb nHeight i outs m)"
  using assms(1,2)
proof (induction outs arbitrary: i m)
  case (Cons txout outs)
  have "live_coins (if IsUnspendable (scriptPubKey txout) then m
      else m(\<lparr>prev_hash = txid, prev_n = of_nat i\<rparr> \<mapsto> Coin_of txout nHeight cb))"
    using Cons.prems height_word(2) [OF assms(3,4)] by (auto simp: live_coins_def) (simp add: Coin_of_def)
  then show ?case using Cons by simp
qed simp

lemma live_tx:
  "live_coins m \<Longrightarrow> legal_tx cr tx m \<Longrightarrow> 0 < nHeight \<Longrightarrow> nHeight < 2 ^ 31 \<Longrightarrow> live_coins (spec_tx cr nHeight tx m)"
  unfolding spec_tx_def by (rule live_outputs) (auto simp: spec_ins_def legal_tx_def live_spend list_all_iff)

subsection \<open>Connecting refines the effect\<close>

lemma spend_inputs_shows:
  assumes "shows_coins usage c base m ls h" "usage Coin_Clear = 0" "all_spendable ins m"
  shows "\<exists>c' base'. spend_inputs usage ins c base = Inr (fst (spec_spend ins m), c', base') \<and>
    shows_coins usage c' base' (snd (spec_spend ins m)) ls h"
  using assms(1,3)
proof (induction ins arbitrary: c base m)
  case (Cons i ins)
  obtain x where x: "m (prevout i) = Some x" using Cons.prems(2) by auto
  obtain c1 b1 where s: "SpendCoin usage c base (prevout i) = ((True, Some x), c1, b1)"
    "shows_coins usage c1 b1 (m(prevout i := None)) ls h"
    by (rule SpendCoin_shows [OF Cons.prems(1) assms(2) x])
  have "\<exists>c' base'. spend_inputs usage ins c1 b1 = Inr (fst (spec_spend ins (m(prevout i := None))), c', base') \<and>
      shows_coins usage c' base' (snd (spec_spend ins (m(prevout i := None)))) ls h"
    by (rule Cons.IH [OF s(2)]) (use Cons.prems(2) in \<open>simp del: fun_upd_apply\<close>)
  then show ?case using s(1) x by (auto simp del: fun_upd_apply)
qed simp

lemma UpdateCoins_shows:
  assumes "shows_coins usage c base m ls h" "usage Coin_Clear = 0" "legal_tx cr tx m"
  shows "\<exists>c' base'. UpdateCoins cr usage tx nHeight c base = Inr (fst (spec_ins tx m), c', base') \<and>
    shows_coins usage c' base' (spec_tx cr nHeight tx m) ls h"
proof -
  have "\<exists>c1 b1. (if \<not> IsCoinBase tx then spend_inputs usage (vin tx) c base else Inr ([], c, base)) =
      Inr (fst (spec_ins tx m), c1, b1) \<and> shows_coins usage c1 b1 (snd (spec_ins tx m)) ls h"
    using spend_inputs_shows [OF assms(1,2), of "vin tx"] assms(1,3) by (cases "IsCoinBase tx") (simp_all add: spec_ins_def legal_tx_def)
  then obtain c1 b1 where s: "(if \<not> IsCoinBase tx then spend_inputs usage (vin tx) c base else Inr ([], c, base)) =
      Inr (fst (spec_ins tx m), c1, b1)" "shows_coins usage c1 b1 (snd (spec_ins tx m)) ls h" by blast
  have l: "\<forall>txout \<in> set (vout tx). \<not> CTxOut_IsNull txout" "length (vout tx) \<le> 2 ^ 32"
    "\<forall>j < length (vout tx). snd (spec_ins tx m) \<lparr>prev_hash = GetHash cr tx, prev_n = of_nat j\<rparr> = None"
    using assms(3) by (auto simp: legal_tx_def list_all_iff)
  show ?thesis
    by (rule AddCoins_shows [OF s(2) l, of nHeight]) (simp add: UpdateCoins_def s(1) spec_tx_def)
qed

fun spec_undos :: "crypto \<Rightarrow> int \<Rightarrow> CTransaction list \<Rightarrow> (COutPoint \<Rightarrow> Coin option) \<Rightarrow> CTxUndo list" where
  "spec_undos cr nHeight [] m = []"
| "spec_undos cr nHeight (tx # txs) m = fst (spec_ins tx m) # spec_undos cr nHeight txs (spec_tx cr nHeight tx m)"

definition spec_txs :: "crypto \<Rightarrow> int \<Rightarrow> CTransaction list \<Rightarrow> (COutPoint \<Rightarrow> Coin option) \<Rightarrow> COutPoint \<Rightarrow> Coin option" where
  "spec_txs cr nHeight txs m = fold (spec_tx cr nHeight) txs m"

lemma connect_txs_shows:
  assumes "shows_coins usage c base m ls h" "usage Coin_Clear = 0" "legal_txs cr nHeight txs m"
  shows "\<exists>c' base'. connect_txs cr usage txs nHeight c base = Inr (spec_undos cr nHeight txs m, c', base') \<and>
    shows_coins usage c' base' (spec_txs cr nHeight txs m) ls h"
  using assms(1,3)
proof (induction txs arbitrary: c base m)
  case (Cons tx txs)
  obtain c1 b1 where u: "UpdateCoins cr usage tx nHeight c base = Inr (fst (spec_ins tx m), c1, b1)"
    "shows_coins usage c1 b1 (spec_tx cr nHeight tx m) ls h"
    using UpdateCoins_shows [OF Cons.prems(1) assms(2), of cr tx nHeight] Cons.prems(2) by auto
  show ?case using Cons.IH [OF u(2)] Cons.prems(2) u(1) by (auto simp: spec_txs_def)
qed (simp add: spec_txs_def)

subsection \<open>Disconnecting undoes the effect\<close>

lemma spec_outputs_upd:
  assumes "i < n" "n + length outs \<le> 2 ^ 32"
  shows "spec_outputs txid cb ht n outs (m(\<lparr>prev_hash = txid, prev_n = of_nat i\<rparr> := v)) =
    (spec_outputs txid cb ht n outs m)(\<lparr>prev_hash = txid, prev_n = of_nat i\<rparr> := v)"
  using assms
proof (induction outs arbitrary: n m)
  case (Cons txout outs)
  have "of_nat n \<noteq> (of_nat i :: u32)" using Cons.prems of_nat_eq_word32 [of n i] by simp
  then have "(m(\<lparr>prev_hash = txid, prev_n = of_nat i\<rparr> := v))(\<lparr>prev_hash = txid, prev_n = of_nat n\<rparr> \<mapsto> x) =
      (m(\<lparr>prev_hash = txid, prev_n = of_nat n\<rparr> \<mapsto> x))(\<lparr>prev_hash = txid, prev_n = of_nat i\<rparr> := v)" for x
    by (intro fun_upd_twist) simp
  then show ?case using Cons.IH [of "n + 1"] Cons.prems by (simp del: fun_upd_apply)
qed simp

lemma disconnect_outputs_shows:
  assumes "shows_coins usage c base (spec_outputs hash cb nHeight i outs m) ls h" "usage Coin_Clear = 0"
    and "i + length outs \<le> 2 ^ 32" "0 < nHeight" "nHeight < 2 ^ 31"
    and "\<forall>j. i \<le> j \<and> j < i + length outs \<longrightarrow> m \<lparr>prev_hash = hash, prev_n = of_nat j\<rparr> = None"
  shows "\<exists>c' base'. disconnect_outputs usage hash cb nHeight i outs fClean c base = (fClean, c', base') \<and>
    shows_coins usage c' base' m ls h"
  using assms(1,3,6)
proof (induction outs arbitrary: i c base)
  case (Cons txout outs)
  show ?case
  proof (cases "IsUnspendable (scriptPubKey txout)")
    case True
    then show ?thesis using Cons.IH [of c base "i + 1"] Cons.prems by simp
  next
    case False
    let ?p = "\<lparr>prev_hash = hash, prev_n = of_nat i\<rparr> :: COutPoint"
    let ?x = "Coin_of txout nHeight cb"
    let ?m = "spec_outputs hash cb nHeight (i + 1) outs m"
    have e: "spec_outputs hash cb nHeight i (txout # outs) m = ?m(?p \<mapsto> ?x)"
      using False Cons.prems(2) spec_outputs_upd [of i "i + 1" outs hash cb nHeight m "Some ?x"] by (simp del: fun_upd_apply)
    have sh: "shows_coins usage c base (?m(?p \<mapsto> ?x)) ls h" using Cons.prems(1) unfolding e .
    have mp: "(?m(?p \<mapsto> ?x)) ?p = Some ?x" by simp
    obtain c1 b1 where s: "SpendCoin usage c base ?p = ((True, Some ?x), c1, b1)"
      "shows_coins usage c1 b1 ((?m(?p \<mapsto> ?x))(?p := None)) ls h"
      by (rule SpendCoin_shows [OF sh assms(2) mp])
    have "m ?p = None" using Cons.prems(3) by simp
    then have "?m ?p = None"
      using spec_outputs_upd [of i "i + 1" outs hash cb nHeight m None] Cons.prems(2)
      by (simp del: fun_upd_apply add: fun_upd_idem) (metis fun_upd_same)
    then have "(?m(?p \<mapsto> ?x))(?p := None) = ?m" by (simp add: fun_upd_idem)
    then have "shows_coins usage c1 b1 ?m ls h" using s(2) by simp
    then have "\<exists>c' base'. disconnect_outputs usage hash cb nHeight (i + 1) outs fClean c1 b1 = (fClean, c', base') \<and>
        shows_coins usage c' base' m ls h"
      using Cons.IH [of c1 b1 "i + 1"] Cons.prems(2,3) by simp
    then show ?thesis using s(1) False height_word(1) [OF assms(4,5)] by (simp add: Coin_of_def)
  qed
qed simp

lemma ApplyTxInUndo_shows:
  assumes "shows_coins usage c base m ls h" "m out = None"
    and "\<not> IsSpent x" "\<not> IsUnspendable (scriptPubKey (coin_out x))" "coin_nHeight x \<noteq> 0"
  shows "\<exists>c' base'. ApplyTxInUndo usage x out c base = Inr (DISCONNECT_OK, c', base') \<and>
    shows_coins usage c' base' (m(out \<mapsto> x)) ls h"
proof -
  obtain c1 b1 where h: "HaveCoin usage c base out = (m out \<noteq> None, c1, b1)" "shows_coins usage c1 b1 m ls h"
    by (rule HaveCoin_shows [OF assms(1)])
  have "False \<or> m out = None" using assms(2) by simp
  then obtain c2 where "AddCoin usage c1 out x False = Inr c2" "shows_coins usage c2 b1 (m(out \<mapsto> x)) ls h"
    by (rule AddCoin_shows [OF h(2) assms(3,4)])
  then show ?thesis using h(1) assms(2,5) by (simp add: ApplyTxInUndo_def Let_def)
qed

lemma restore_inputs_append:
  "restore_inputs usage (xs @ ys) fClean c base =
     bindR (restore_inputs usage xs fClean c base) (\<lambda>(r, c, base).
       case r of None \<Rightarrow> Inr (None, c, base) | Some fClean \<Rightarrow> restore_inputs usage ys fClean c base)"
proof (induction usage xs fClean c base rule: restore_inputs.induct)
  case (2 usage txin undo rest fClean c base)
  show ?case
    by (cases "ApplyTxInUndo usage undo (prevout txin) c base") (auto simp: 2 split: prod.splits)
qed simp

lemma length_spec_spend [simp]: "length (fst (spec_spend ins m)) = length ins"
  by (induction ins arbitrary: m) simp_all

lemma restore_inputs_shows:
  assumes "shows_coins usage c base (snd (spec_spend ins m)) ls h" "all_spendable ins m" "live_coins m"
  shows "\<exists>c' base'. restore_inputs usage (rev (zip ins (fst (spec_spend ins m)))) fClean c base = Inr (Some fClean, c', base') \<and>
    shows_coins usage c' base' m ls h"
  using assms
proof (induction ins arbitrary: c base m)
  case (Cons i ins)
  let ?m = "m(prevout i := None)"
  obtain x where x: "m (prevout i) = Some x" using Cons.prems(2) by auto
  have sp: "all_spendable ins ?m" using Cons.prems(2) by (simp del: fun_upd_apply)
  have sh: "shows_coins usage c base (snd (spec_spend ins ?m)) ls h" using Cons.prems(1) by (simp del: fun_upd_apply)
  obtain c1 b1 where r: "restore_inputs usage (rev (zip ins (fst (spec_spend ins ?m)))) fClean c base = Inr (Some fClean, c1, b1)"
    "shows_coins usage c1 b1 ?m ls h"
    using Cons.IH [OF sh sp live_remove [OF Cons.prems(3)]] by blast
  have "?m (prevout i) = None" by simp
  from ApplyTxInUndo_shows [OF r(2) this] live_coinsD [OF Cons.prems(3) x]
  obtain c2 b2 where a: "ApplyTxInUndo usage x (prevout i) c1 b1 = Inr (DISCONNECT_OK, c2, b2)"
    "shows_coins usage c2 b2 (?m(prevout i \<mapsto> x)) ls h" by blast
  have "?m(prevout i \<mapsto> x) = m" using x by (simp add: fun_upd_idem)
  then show ?case using a r(1) x by (simp add: restore_inputs_append del: fun_upd_apply)
qed simp

definition tx_undo :: "CTransaction \<Rightarrow> CTxUndo \<Rightarrow> CTransaction \<times> CTxUndo option" where
  "tx_undo tx u = (tx, if IsCoinBase tx then None else Some u)"

lemma disconnect_tx_shows:
  assumes "shows_coins usage c base (spec_tx cr nHeight tx m) ls h" "usage Coin_Clear = 0"
    and "legal_tx cr tx m" "live_coins m" "0 < nHeight" "nHeight < 2 ^ 31"
  shows "\<exists>c' base'. disconnect_tx cr usage tx (snd (tx_undo tx (fst (spec_ins tx m)))) nHeight fClean c base = Inr (Some fClean, c', base') \<and>
    shows_coins usage c' base' m ls h"
proof -
  have l: "0 + length (vout tx) \<le> 2 ^ 32"
    "\<forall>j. 0 \<le> j \<and> j < 0 + length (vout tx) \<longrightarrow> snd (spec_ins tx m) \<lparr>prev_hash = GetHash cr tx, prev_n = of_nat j\<rparr> = None"
    using assms(3) by (auto simp: legal_tx_def list_all_iff)
  from disconnect_outputs_shows [OF assms(1) [unfolded spec_tx_def] assms(2) l(1) assms(5,6) l(2)]
  obtain c1 b1 where o: "disconnect_outputs usage (GetHash cr tx) (IsCoinBase tx) nHeight 0 (vout tx) fClean c base = (fClean, c1, b1)"
    "shows_coins usage c1 b1 (snd (spec_ins tx m)) ls h" by blast
  show ?thesis
  proof (cases "IsCoinBase tx")
    case True
    then show ?thesis using o by (simp add: disconnect_tx_def tx_undo_def spec_ins_def)
  next
    case False
    then have "shows_coins usage c1 b1 (snd (spec_spend (vin tx) m)) ls h" "all_spendable (vin tx) m"
      using o(2) assms(3) by (simp_all add: spec_ins_def legal_tx_def)
    from restore_inputs_shows [OF this assms(4)] show ?thesis
      using o(1) False by (simp add: disconnect_tx_def tx_undo_def spec_ins_def)
  qed
qed

lemma disconnect_txs_append:
  "disconnect_txs cr usage (xs @ ys) nHeight fClean c base =
     bindR (disconnect_txs cr usage xs nHeight fClean c base) (\<lambda>(r, c, base).
       case r of None \<Rightarrow> Inr (None, c, base) | Some fClean \<Rightarrow> disconnect_txs cr usage ys nHeight fClean c base)"
proof (induction cr usage xs nHeight fClean c base rule: disconnect_txs.induct)
  case (2 cr usage tx u rest nHeight fClean c base)
  show ?case
    by (cases "disconnect_tx cr usage tx u nHeight fClean c base") (auto simp: 2 split: prod.splits option.splits)
qed simp

lemma disconnect_txs_shows:
  assumes "shows_coins usage c base (spec_txs cr nHeight txs m) ls h" "usage Coin_Clear = 0"
    and "legal_txs cr nHeight txs m" "live_coins m" "0 < nHeight" "nHeight < 2 ^ 31"
  shows "\<exists>c' base'. disconnect_txs cr usage (rev (map2 tx_undo txs (spec_undos cr nHeight txs m))) nHeight True c base = Inr (Some True, c', base') \<and>
    shows_coins usage c' base' m ls h"
  using assms(1,3,4)
proof (induction txs arbitrary: c base m)
  case (Cons tx txs)
  let ?m = "spec_tx cr nHeight tx m"
  have l: "legal_tx cr tx m" "legal_txs cr nHeight txs ?m" using Cons.prems(2) by simp_all
  have sh: "shows_coins usage c base (spec_txs cr nHeight txs ?m) ls h" using Cons.prems(1) by (simp add: spec_txs_def)
  obtain c1 b1 where r: "disconnect_txs cr usage (rev (map2 tx_undo txs (spec_undos cr nHeight txs ?m))) nHeight True c base = Inr (Some True, c1, b1)"
    "shows_coins usage c1 b1 ?m ls h"
    using Cons.IH [OF sh l(2) live_tx [OF Cons.prems(3) l(1) assms(5,6)]] by blast
  obtain c2 b2 where d: "disconnect_tx cr usage tx (snd (tx_undo tx (fst (spec_ins tx m)))) nHeight True c1 b1 = Inr (Some True, c2, b2)"
    "shows_coins usage c2 b2 m ls h"
    using disconnect_tx_shows [OF r(2) assms(2) l(1) Cons.prems(3) assms(5,6)] by blast
  have t: "tx_undo tx u = (tx, snd (tx_undo tx u))" for u by (simp add: tx_undo_def)
  have "disconnect_txs cr usage [tx_undo tx (fst (spec_ins tx m))] nHeight True c1 b1 = Inr (Some True, c2, b2)"
    by (subst t) (simp add: d(1))
  then show ?case using r(1) d(2) by (simp add: disconnect_txs_append)
qed (simp add: spec_txs_def)

lemma connect_disconnect:
  assumes "wf_stack usage (c, base)" and "usage Coin_Clear = 0" and "live_coins (coins_of (ViewCache c base))"
    and "IsCoinBase cb" and "list_all (\<lambda>tx. \<not> IsCoinBase tx) txs"
    and "legal_txs cr nHeight (cb # txs) (coins_of (ViewCache c base))" and "0 < nHeight" and "nHeight < 2 ^ 31"
  shows "\<exists>c1 b1 c2 b2. connect_coins cr usage (cb # txs) nHeight c base =
      Inr (tl (spec_undos cr nHeight (cb # txs) (coins_of (ViewCache c base))), c1, b1) \<and>
    coins_of (ViewCache c1 b1) = spec_txs cr nHeight (cb # txs) (coins_of (ViewCache c base)) \<and>
    DisconnectBlock cr usage (cb # txs) (tl (spec_undos cr nHeight (cb # txs) (coins_of (ViewCache c base)))) nHeight hashPrev c1 b1 = Inr (DISCONNECT_OK, c2, b2) \<and>
    stack_levels (c2, b2) = (coins_of (ViewCache c base), hashPrev) # levels base"
proof -
  let ?m = "coins_of (ViewCache c base)"
  let ?us = "spec_undos cr nHeight (cb # txs) ?m"
  have sh: "shows_coins usage c base ?m (levels base) (hashBlock c)"
    using assms(1) by (simp add: shows_coins_def wf_stack_def del: wf_view.simps coins_of.simps)
  obtain c1 b1 where co: "connect_txs cr usage (cb # txs) nHeight c base = Inr (?us, c1, b1)"
    "shows_coins usage c1 b1 (spec_txs cr nHeight (cb # txs) ?m) (levels base) (hashBlock c)"
    using connect_txs_shows [OF sh assms(2,6)] by blast
  obtain c2 b2 where d: "disconnect_txs cr usage (rev (map2 tx_undo (cb # txs) ?us)) nHeight True c1 b1 = Inr (Some True, c2, b2)"
    "shows_coins usage c2 b2 ?m (levels base) (hashBlock c)"
    using disconnect_txs_shows [OF co(2) assms(2,6,3,7,8)] by blast
  have len: "length (spec_undos cr nHeight ts m) = length ts" for ts m
    by (induction ts arbitrary: m) simp_all
  have opts: "zip (cb # txs) (None # map Some (tl ?us)) = map2 tx_undo (cb # txs) ?us"
  proof -
    have "zip ts (map Some us) = map2 tx_undo ts us" if "list_all (\<lambda>tx. \<not> IsCoinBase tx) ts" for ts us
      using that by (induction ts us rule: list_induct2') (simp_all add: tx_undo_def)
    then show ?thesis using assms(4,5) by (simp add: tx_undo_def)
  qed
  have "DisconnectBlock cr usage (cb # txs) (tl ?us) nHeight hashPrev c1 b1 = Inr (DISCONNECT_OK, SetBestBlock c2 hashPrev, b2)"
    unfolding DisconnectBlock_def opts using d(1) by (simp add: len)
  moreover have "connect_coins cr usage (cb # txs) nHeight c base = Inr (tl ?us, c1, b1)"
    using co(1) by (simp add: connect_coins_def del: connect_txs.simps)
  moreover have "stack_levels (SetBestBlock c2 hashPrev, b2) = (?m, hashPrev) # levels base"
    using d(2) by (simp add: stack_levels_def shows_coins_def SetBestBlock_def del: coins_of.simps)
  ultimately show ?thesis using co(2) by (auto simp: shows_coins_def simp del: coins_of.simps spec_undos.simps)
qed

definition storable_coins :: "(COutPoint \<Rightarrow> Coin option) \<Rightarrow> bool" where
  "storable_coins m \<longleftrightarrow> (\<forall>out x. m out = Some x \<longrightarrow> storable x)"

lemma storable_coins_upd:
  "storable_coins m \<Longrightarrow> storable_coins (m(out := None))" "storable_coins m \<Longrightarrow> storable x \<Longrightarrow> storable_coins (m(out \<mapsto> x))"
  "storable_coins m \<Longrightarrow> m out \<noteq> None \<Longrightarrow> storable (the (m out))"
  by (auto simp: storable_coins_def)

lemma spend_storable:
  "storable_coins m \<Longrightarrow> all_spendable ins m \<Longrightarrow>
   list_all storable (fst (spec_spend ins m)) \<and> storable_coins (snd (spec_spend ins m))"
  by (induction ins arbitrary: m) (auto simp: storable_coins_upd simp del: fun_upd_apply)

lemma outputs_storable:
  "list_all (\<lambda>txout. storable (Coin_of txout nHeight cb)) outs \<Longrightarrow> storable_coins m \<Longrightarrow>
   storable_coins (spec_outputs txid cb nHeight i outs m)"
  by (induction outs arbitrary: i m) (simp_all add: storable_coins_upd del: fun_upd_apply)

lemma undos_storable:
  "storable_coins m \<Longrightarrow> legal_txs cr nHeight txs m \<Longrightarrow>
   list_all (\<lambda>tx. list_all (\<lambda>txout. storable (Coin_of txout nHeight (IsCoinBase tx))) (vout tx)) txs \<Longrightarrow>
   list_all (list_all storable) (spec_undos cr nHeight txs m)"
proof (induction txs arbitrary: m)
  case (Cons tx txs)
  have t: "list_all storable (fst (spec_ins tx m)) \<and> storable_coins (snd (spec_ins tx m))"
    using spend_storable [OF Cons.prems(1), of "vin tx"] Cons.prems(1,2)
    by (cases "IsCoinBase tx") (simp_all add: spec_ins_def legal_tx_def)
  then have "storable_coins (spec_tx cr nHeight tx m)"
    unfolding spec_tx_def using Cons.prems(3) by (intro outputs_storable) simp_all
  then show ?case using t Cons by simp
qed simp

lemma undos_lengths:
  "\<forall>tx \<in> set txs. length (vin tx) \<le> n \<Longrightarrow> \<forall>u \<in> set (spec_undos cr nHeight txs m). length u \<le> n"
  by (induction txs arbitrary: m) (auto simp: spec_ins_def)

lemma length_spec_undos [simp]: "length (spec_undos cr nHeight txs m) = length txs"
  by (induction txs arbitrary: m) simp_all

text \<open>Disconnecting a block undoes what connecting it did to the coins: for every block whose
  transactions spend coins that are there and create coins that are not, connecting succeeds with
  the effect of the specification, and disconnecting with the undo data it made is clean and gives
  back the coins of every level, with the hash of the previous block on top.\<close>

theorem disconnect_restores:
  assumes "wf_stack usage (c, base)" and "usage Coin_Clear = 0" and "live_coins (coins_of (ViewCache c base))"
    and "IsCoinBase cb" and "list_all (\<lambda>tx. \<not> IsCoinBase tx) txs"
    and "legal_txs cr nHeight (cb # txs) (coins_of (ViewCache c base))" and "0 < nHeight" and "nHeight < 2 ^ 31"
  shows "\<exists>us c1 b1 c2 b2. connect_coins cr usage (cb # txs) nHeight c base = Inr (us, c1, b1) \<and>
    coins_of (ViewCache c1 b1) = spec_txs cr nHeight (cb # txs) (coins_of (ViewCache c base)) \<and>
    DisconnectBlock cr usage (cb # txs) us nHeight hashPrev c1 b1 = Inr (DISCONNECT_OK, c2, b2) \<and>
    stack_levels (c2, b2) = (coins_of (ViewCache c base), hashPrev) # levels base"
  using connect_disconnect [OF assms] by blast

definition sample_coinbase :: CTransaction where
  "sample_coinbase = \<lparr>tx_nVersion = 1, nType = 0,
     vin = [\<lparr>prevout = \<lparr>prev_hash = uint256_null, prev_n = - 1\<rparr>, scriptSig = [0, 0], nSequence = - 1, scriptWitness = []\<rparr>],
     vout = [\<lparr>nValue = 50, scriptPubKey = [0x51], nRounds = - 10\<rparr>], nLockTime = 0, vExtraPayload = []\<rparr>"

definition sample_spend :: CTransaction where
  "sample_spend = \<lparr>tx_nVersion = 1, nType = 0,
     vin = [\<lparr>prevout = sample_outpoint, scriptSig = [], nSequence = - 1, scriptWitness = []\<rparr>],
     vout = [\<lparr>nValue = 3, scriptPubKey = [0x52], nRounds = - 10\<rparr>, \<lparr>nValue = 0, scriptPubKey = [0x6a], nRounds = - 10\<rparr>],
     nLockTime = 0, vExtraPayload = []\<rparr>"

lemma sample_coins: "coins_of (ViewCache (fst sample_stack) (snd sample_stack)) = [sample_outpoint \<mapsto> sample_coin]"
  by (rule ext) (simp add: sample_stack_def CCoinsViewCache_new_def)

lemma sample_live: "live_coins [sample_outpoint \<mapsto> sample_coin]"
  using sample_coin_simps by (auto simp: live_coins_def) (simp add: sample_coin_def)

lemma GetHash_plain:
  assumes "tx_nVersion tx = 1" "nType tx = 0" "vin tx = [txin]" "length (prev_hash (prevout txin)) = 32"
  shows "GetHash plain_crypto tx = [1, 0, 0, 0, 1] @ take 27 (prev_hash (prevout txin))"
proof -
  have "Serialize_signed 4 1 = [1, 0, 0, 0]" "WriteCompactSize 1 = [1]" "\<not> fAllowWitness SERIALIZE_TRANSACTION_NO_WITNESS"
    by code_simp+
  then have "\<exists>rest. SerializeTransaction SERIALIZE_TRANSACTION_NO_WITNESS tx = [1, 0, 0, 0, 1] @ prev_hash (prevout txin) @ rest"
    using assms(1-3) by (simp add: SerializeTransaction_def n32bitVersion_def Serialize_vec_def Serialize_CTxIn_def Serialize_COutPoint_def)
  then show ?thesis using assms(4) by (auto simp: GetHash_def CHash256_def plain_crypto_def)
qed

lemma sample_hashes:
  "prev_hash sample_outpoint \<noteq> GetHash plain_crypto sample_coinbase" "prev_hash sample_outpoint \<noteq> GetHash plain_crypto sample_spend"
  "GetHash plain_crypto sample_coinbase \<noteq> GetHash plain_crypto sample_spend"
proof -
  have "GetHash plain_crypto sample_coinbase = [1, 0, 0, 0, 1] @ replicate 27 0"
    by (subst GetHash_plain [where txin = "hd (vin sample_coinbase)"]) (simp_all add: sample_coinbase_def uint256_null_def)
  moreover have "GetHash plain_crypto sample_spend = [1, 0, 0, 0, 1] @ replicate 27 1"
    by (subst GetHash_plain [where txin = "hd (vin sample_spend)"]) (simp_all add: sample_spend_def sample_outpoint_def)
  ultimately show "prev_hash sample_outpoint \<noteq> GetHash plain_crypto sample_coinbase" "prev_hash sample_outpoint \<noteq> GetHash plain_crypto sample_spend"
    "GetHash plain_crypto sample_coinbase \<noteq> GetHash plain_crypto sample_spend"
    by (simp_all add: sample_outpoint_def numeral_eq_Suc)
qed

lemma sample_scripts: "\<not> IsUnspendable [0x51]" "\<not> IsUnspendable [0x52]" "IsUnspendable [0x6a]"
  by code_simp+

lemma sample_coinbases: "IsCoinBase sample_coinbase" "\<not> IsCoinBase sample_spend"
  by code_simp+

lemma sample_block_legal: "legal_txs plain_crypto 9 [sample_coinbase, sample_spend] [sample_outpoint \<mapsto> sample_coin]"
proof -
  have v: "vin sample_spend = [\<lparr>prevout = sample_outpoint, scriptSig = [], nSequence = - 1, scriptWitness = []\<rparr>]"
    "vout sample_coinbase = [\<lparr>nValue = 50, scriptPubKey = [0x51], nRounds = - 10\<rparr>]"
    "vout sample_spend = [\<lparr>nValue = 3, scriptPubKey = [0x52], nRounds = - 10\<rparr>, \<lparr>nValue = 0, scriptPubKey = [0x6a], nRounds = - 10\<rparr>]"
    by (simp_all add: sample_spend_def sample_coinbase_def)
  have p: "\<lparr>prev_hash = GetHash plain_crypto tx, prev_n = n\<rparr> \<noteq> sample_outpoint" if "tx = sample_coinbase \<or> tx = sample_spend" for tx n
    using that sample_hashes(1,2) by (metis COutPoint.select_convs(1))
  show ?thesis using sample_hashes(3) p [of sample_coinbase] p [of sample_spend]
    by (auto simp: legal_tx_def spec_ins_def spec_tx_def sample_coinbases v sample_scripts CTxOut_IsNull_def)
qed

theorem disconnect_restores_witness:
  "\<exists>us c1 b1 c2 b2. connect_coins plain_crypto (\<lambda>_. 0) [sample_coinbase, sample_spend] 9 (fst sample_stack) (snd sample_stack) = Inr (us, c1, b1) \<and>
    DisconnectBlock plain_crypto (\<lambda>_. 0) [sample_coinbase, sample_spend] us 9 (replicate 32 2) c1 b1 = Inr (DISCONNECT_OK, c2, b2) \<and>
    fst (hd (stack_levels (c2, b2))) = [sample_outpoint \<mapsto> sample_coin]"
  using disconnect_restores [of "\<lambda>_. 0" "fst sample_stack" "snd sample_stack" sample_coinbase "[sample_spend]" plain_crypto 9 "replicate 32 2"]
    sample_stack_wf [of "\<lambda>_. 0"] sample_block_legal sample_coinbases sample_live
  unfolding sample_coins by auto

end
