(* ===== verification/Tx_Verify.thy ===== *)
theory Tx_Verify
  imports Block_Undo Sighash Chain
begin

text \<open>
  The checks of \<open>src/src/consensus/tx_verify.cpp\<close> that need no asset data: absolute and relative lock
  times, signature operation counts and \<open>CheckTxInputs\<close>; with the part of the transaction loop of
  \<open>ConnectBlock\<close> that adds up fees and updates the coins, and \<open>GetBlockSubsidy\<close>, in
  \<open>src/src/validation.cpp\<close>.

  A rejection is \<open>Inl\<close> of the reject reason, inside a result whose own \<open>Inl\<close> is a failed assertion, an
  overflow or an exception. Every function that looks up coins returns the caches it went through.
\<close>

subsection \<open>Absolute lock time\<close>

definition IsFinalTx :: "CTransaction \<Rightarrow> int \<Rightarrow> int \<Rightarrow> bool" where
  "IsFinalTx tx nBlockHeight nBlockTime =
     (if nLockTime tx = 0 then True
      else if uint (nLockTime tx) < (if uint (nLockTime tx) < LOCKTIME_THRESHOLD then nBlockHeight else nBlockTime) then True
      else list_all (\<lambda>txin. nSequence txin = SEQUENCE_FINAL) (vin tx))"

subsection \<open>Relative lock times\<close>

definition LOCKTIME_VERIFY_SEQUENCE :: u32 where "LOCKTIME_VERIFY_SEQUENCE = 1"

text \<open>The loop over the inputs: the minimal height and time, and the heights as they are left behind.\<close>

fun seq_locks :: "store \<Rightarrow> ptr \<Rightarrow> CTxIn list \<Rightarrow> int list \<Rightarrow> int \<times> int \<Rightarrow> ((int \<times> int) \<times> int list) result" where
  "seq_locks m block (txin # ins) (nCoinHeight # hs) (nMinHeight, nMinTime) =
     (if nSequence txin AND SEQUENCE_LOCKTIME_DISABLE_FLAG \<noteq> 0 then
        bindR (seq_locks m block ins hs (nMinHeight, nMinTime)) (\<lambda>(r, hs). Inr (r, 0 # hs))
      else
        bindR
          (if nSequence txin AND SEQUENCE_LOCKTIME_TYPE_FLAG \<noteq> 0 then
             bindR (i32 (nCoinHeight - 1)) (\<lambda>h.
             bindR (GetAncestor m block (max h 0)) (\<lambda>a.
               case a of None \<Rightarrow> Inl NullDeref
               | Some q \<Rightarrow>
                   bindR (GetMedianTimePast m q) (\<lambda>nCoinTime.
                   bindR (i64 (nCoinTime + uint (push_bit SEQUENCE_LOCKTIME_GRANULARITY (nSequence txin AND SEQUENCE_LOCKTIME_MASK)))) (\<lambda>t.
                   bindR (i64 (t - 1)) (\<lambda>t. Inr (nMinHeight, max nMinTime t))))))
           else
             bindR (i32 (nCoinHeight + uint (nSequence txin AND SEQUENCE_LOCKTIME_MASK))) (\<lambda>h.
             bindR (i32 (h - 1)) (\<lambda>h. Inr (max nMinHeight h, nMinTime))))
          (\<lambda>mins. bindR (seq_locks m block ins hs mins) (\<lambda>(r, hs). Inr (r, nCoinHeight # hs))))"
| "seq_locks m block ins hs mins = Inr (mins, [])"

definition CalculateSequenceLocks :: "store \<Rightarrow> CTransaction \<Rightarrow> u32 \<Rightarrow> int list \<Rightarrow> ptr \<Rightarrow> ((int \<times> int) \<times> int list) result" where
  "CalculateSequenceLocks m tx flags prevHeights block =
     bindR (assertR (length prevHeights = length (vin tx))) (\<lambda>_.
       if \<not> (tx_nVersion tx mod 2 ^ 32 \<ge> 2 \<and> flags AND LOCKTIME_VERIFY_SEQUENCE \<noteq> 0)
       then Inr ((- 1, - 1), prevHeights)
       else seq_locks m block (vin tx) prevHeights (- 1, - 1))"

definition EvaluateSequenceLocks :: "store \<Rightarrow> ptr \<Rightarrow> int \<times> int \<Rightarrow> bool result" where
  "EvaluateSequenceLocks m block lockPair =
     bindR (deref m block) (\<lambda>b.
       case pprev b of
         None \<Rightarrow> Inl AssertFailed
       | Some q \<Rightarrow> bindR (GetMedianTimePast m q) (\<lambda>nBlockTime.
           Inr (\<not> (fst lockPair \<ge> nHeight b \<or> snd lockPair \<ge> nBlockTime))))"

definition SequenceLocks :: "store \<Rightarrow> CTransaction \<Rightarrow> u32 \<Rightarrow> int list \<Rightarrow> ptr \<Rightarrow> (bool \<times> int list) result" where
  "SequenceLocks m tx flags prevHeights block =
     bindR (CalculateSequenceLocks m tx flags prevHeights block) (\<lambda>(lockPair, prevHeights).
     bindR (EvaluateSequenceLocks m block lockPair) (\<lambda>ok. Inr (ok, prevHeights)))"

subsection \<open>Signature operations\<close>

fun sum_sigops :: "CScript list \<Rightarrow> u32 \<Rightarrow> u32 result" where
  "sum_sigops [] nSigOps = Inr nSigOps"
| "sum_sigops (s # ss) nSigOps = bindR (GetSigOpCount s False) (\<lambda>n. sum_sigops ss (nSigOps + n))"

definition GetLegacySigOpCount :: "CTransaction \<Rightarrow> u32 result" where
  "GetLegacySigOpCount tx = sum_sigops (map scriptSig (vin tx) @ map scriptPubKey (vout tx)) 0"

fun p2sh_sigops :: "(Coin \<Rightarrow> u64) \<Rightarrow> CTxIn list \<Rightarrow> u32 \<Rightarrow> CCoinsViewCache \<Rightarrow> view \<Rightarrow> (u32 \<times> CCoinsViewCache \<times> view) result" where
  "p2sh_sigops usage [] nSigOps c base = Inr (nSigOps, c, base)"
| "p2sh_sigops usage (txin # ins) nSigOps c base =
     (case AccessCoin usage c base (prevout txin) of (x, c, base) \<Rightarrow>
        bindR (assertR (\<not> IsSpent x)) (\<lambda>_.
        bindR (if IsPayToScriptHash (scriptPubKey (coin_out x))
               then bindR (GetSigOpCount_p2sh (scriptPubKey (coin_out x)) (scriptSig txin)) (\<lambda>n. Inr (nSigOps + n))
               else Inr nSigOps) (\<lambda>nSigOps.
          p2sh_sigops usage ins nSigOps c base)))"

definition GetP2SHSigOpCount :: "(Coin \<Rightarrow> u64) \<Rightarrow> CTransaction \<Rightarrow> CCoinsViewCache \<Rightarrow> view \<Rightarrow> (u32 \<times> CCoinsViewCache \<times> view) result" where
  "GetP2SHSigOpCount usage tx c base =
     (if IsCoinBase tx then Inr (0, c, base) else p2sh_sigops usage (vin tx) 0 c base)"

fun witness_sigops :: "(Coin \<Rightarrow> u64) \<Rightarrow> u32 \<Rightarrow> CTxIn list \<Rightarrow> int \<Rightarrow> CCoinsViewCache \<Rightarrow> view \<Rightarrow> (int \<times> CCoinsViewCache \<times> view) result" where
  "witness_sigops usage flags [] nSigOps c base = Inr (nSigOps, c, base)"
| "witness_sigops usage flags (txin # ins) nSigOps c base =
     (case AccessCoin usage c base (prevout txin) of (x, c, base) \<Rightarrow>
        bindR (assertR (\<not> IsSpent x)) (\<lambda>_.
        bindR (CountWitnessSigOps (scriptSig txin) (scriptPubKey (coin_out x)) (Some (scriptWitness txin)) flags) (\<lambda>n.
        bindR (i64 (nSigOps + uint n)) (\<lambda>nSigOps. witness_sigops usage flags ins nSigOps c base))))"

definition GetTransactionSigOpCost :: "(Coin \<Rightarrow> u64) \<Rightarrow> CTransaction \<Rightarrow> u32 \<Rightarrow> CCoinsViewCache \<Rightarrow> view \<Rightarrow>
   (int \<times> CCoinsViewCache \<times> view) result" where
  "GetTransactionSigOpCost usage tx flags c base =
     bindR (GetLegacySigOpCount tx) (\<lambda>legacy.
       let nSigOps = uint (legacy * 4) in
       if IsCoinBase tx then Inr (nSigOps, c, base)
       else
         bindR (if flag_set flags SCRIPT_VERIFY_P2SH
                then bindR (GetP2SHSigOpCount usage tx c base) (\<lambda>(n, s). bindR (i64 (nSigOps + uint (n * 4))) (\<lambda>k. Inr (k, s)))
                else Inr (nSigOps, c, base)) (\<lambda>(nSigOps, c, base).
           witness_sigops usage flags (vin tx) nSigOps c base))"

subsection \<open>Inputs and fees\<close>

type_synonym 'a checked = "(string + 'a) result"

definition COINBASE_MATURITY :: int where "COINBASE_MATURITY = 100"

fun check_inputs :: "(Coin \<Rightarrow> u64) \<Rightarrow> int \<Rightarrow> CTxIn list \<Rightarrow> CAmount \<Rightarrow> CCoinsViewCache \<Rightarrow> view \<Rightarrow>
   (CAmount \<times> CCoinsViewCache \<times> view) checked" where
  "check_inputs usage nSpendHeight [] nValueIn c base = Inr (Inr (nValueIn, c, base))"
| "check_inputs usage nSpendHeight (txin # ins) nValueIn c base =
     (case AccessCoin usage c base (prevout txin) of (x, c, base) \<Rightarrow>
        bindR (assertR (\<not> IsSpent x)) (\<lambda>_.
        bindR (if fCoinBase x then bindR (i32 (nSpendHeight - uint (coin_nHeight x))) (\<lambda>d. Inr (d < COINBASE_MATURITY)) else Inr False) (\<lambda>immature.
          if immature then Inr (Inl ''bad-txns-premature-spend-of-coinbase'')
          else
            bindR (i64 (nValueIn + nValue (coin_out x))) (\<lambda>nValueIn.
              if \<not> MoneyRange (nValue (coin_out x)) \<or> \<not> MoneyRange nValueIn then Inr (Inl ''bad-txns-inputvalues-outofrange'')
              else check_inputs usage nSpendHeight ins nValueIn c base))))"

definition CheckTxInputs :: "(Coin \<Rightarrow> u64) \<Rightarrow> CTransaction \<Rightarrow> int \<Rightarrow> CCoinsViewCache \<Rightarrow> view \<Rightarrow>
   (CAmount \<times> CCoinsViewCache \<times> view) checked" where
  "CheckTxInputs usage tx nSpendHeight c base =
     (case HaveInputs usage tx c base of (have, c, base) \<Rightarrow>
        if \<not> have then Inr (Inl ''bad-txns-inputs-missingorspent'')
        else
          bindR (check_inputs usage nSpendHeight (vin tx) 0 c base) (\<lambda>r.
            case r of
              Inl reason \<Rightarrow> Inr (Inl reason)
            | Inr (nValueIn, c, base) \<Rightarrow>
                bindR (GetValueOut tx) (\<lambda>value_out.
                  if nValueIn < value_out then Inr (Inl ''bad-txns-in-belowout'')
                  else bindR (i64 (nValueIn - value_out)) (\<lambda>txfee.
                    if \<not> MoneyRange txfee then Inr (Inl ''bad-txns-fee-outofrange'')
                    else if txfee < 0 then Inr (Inl ''bad-txns-fee-too-low'')
                    else Inr (Inr (txfee, c, base))))))"

text \<open>The fees and the coins in the transaction loop of \<open>ConnectBlock\<close>.\<close>

fun connect_fees :: "crypto \<Rightarrow> (Coin \<Rightarrow> u64) \<Rightarrow> int \<Rightarrow> CTransaction list \<Rightarrow> CAmount \<Rightarrow> CCoinsViewCache \<Rightarrow> view \<Rightarrow>
   (CAmount \<times> CCoinsViewCache \<times> view) checked" where
  "connect_fees cr usage height [] nFees c base = Inr (Inr (nFees, c, base))"
| "connect_fees cr usage height (tx # txs) nFees c base =
     bindR (if \<not> IsCoinBase tx then
              bindR (CheckTxInputs usage tx height c base) (\<lambda>r.
                case r of
                  Inl reason \<Rightarrow> Inr (Inl reason)
                | Inr (txfee, c, base) \<Rightarrow>
                    bindR (i64 (nFees + txfee)) (\<lambda>nFees.
                      if \<not> MoneyRange nFees then Inr (Inl ''bad-txns-accumulated-fee-outofrange'')
                      else Inr (Inr (nFees, c, base))))
            else Inr (Inr (nFees, c, base))) (\<lambda>r.
       case r of
         Inl reason \<Rightarrow> Inr (Inl reason)
       | Inr (nFees, c, base) \<Rightarrow>
           bindR (UpdateCoins cr usage tx height c base) (\<lambda>(u, c, base).
             connect_fees cr usage height txs nFees c base))"

text \<open>The products of the \<open>double\<close> base subsidy with \<open>COIN\<close> are exact; they are written out.\<close>

definition GetBlockSubsidy :: "int \<Rightarrow> CAmount" where
  "GetBlockSubsidy nPrevHeight =
     (if nPrevHeight = 0 then 1000000 * COIN
      else if nPrevHeight \<le> 1000000 then 100 * COIN
      else if nPrevHeight \<le> 2000000 then 50 * COIN
      else if nPrevHeight \<le> 3000000 then 25 * COIN
      else if nPrevHeight \<le> 4000000 then 1250000000
      else if nPrevHeight \<le> 5000000 then 625000000
      else if nPrevHeight \<le> 6000000 then 312500000
      else if nPrevHeight \<le> 7000000 then 156250000
      else if nPrevHeight \<le> 8000000 then 78125000
      else if nPrevHeight \<le> 9000000 then 39062500
      else 1000000)"

text \<open>The founder's share; a structure is a last height and a percentage, and \<open>INT_MAX\<close> is no limit.\<close>

definition getFounderPaymentAmount :: "int \<Rightarrow> (int \<times> int) list \<Rightarrow> int \<Rightarrow> CAmount \<Rightarrow> CAmount result" where
  "getFounderPaymentAmount startBlock rewardStructures blockHeight blockReward =
     (if blockHeight < startBlock then Inr 0
      else case find (\<lambda>(h, percentage). h = INT32_MAX \<or> blockHeight \<le> h) rewardStructures of
        None \<Rightarrow> Inr 0
      | Some (h, percentage) \<Rightarrow> bindR (i64 (blockReward * percentage)) (\<lambda>x. Inr (x sdiv 100)))"

text \<open>The founder never gets more than the reward, whatever the structures, as long as their percentages are percentages.\<close>

lemma founder_payment_bounds:
  assumes "\<forall>(h, percentage) \<in> set rewardStructures. 0 \<le> percentage \<and> percentage \<le> 100" "MoneyRange blockReward"
  shows "\<exists>v. getFounderPaymentAmount startBlock rewardStructures blockHeight blockReward = Inr v \<and> 0 \<le> v \<and> v \<le> blockReward"
proof (cases "blockHeight < startBlock \<or> find (\<lambda>(h, percentage). h = INT32_MAX \<or> blockHeight \<le> h) rewardStructures = None")
  case True
  then show ?thesis using assms(2) by (auto simp: getFounderPaymentAmount_def MoneyRange_def)
next
  case False
  then obtain h p where f: "find (\<lambda>(h, percentage). h = INT32_MAX \<or> blockHeight \<le> h) rewardStructures = Some (h, p)" by auto
  then have "(h, p) \<in> set rewardStructures" by (auto simp: find_Some_iff in_set_conv_nth)
  then have p: "0 \<le> p" "p \<le> 100" using assms(1) by auto
  have r: "0 \<le> blockReward" "blockReward \<le> 20060937500000000" using assms(2) by (simp_all add: MoneyRange_def MAX_MONEY_def COIN_def)
  have m: "0 \<le> blockReward * p" "blockReward * p \<le> blockReward * 100" using p r by (simp_all add: mult_left_mono)
  then have "in_int64 (blockReward * p)" using r unfolding in_int64_def INT64_MAX_def by linarith
  moreover have "(blockReward * p) div 100 \<le> blockReward" using m(2) by linarith
  ultimately show ?thesis using False f m(1) by (simp add: getFounderPaymentAmount_def sdiv_nonneg)
qed

subsection \<open>What \<open>CheckTxInputs\<close> accepts\<close>

definition mature :: "(COutPoint \<Rightarrow> Coin option) \<Rightarrow> int \<Rightarrow> CTxIn \<Rightarrow> bool" where
  "mature m height txin = (case m (prevout txin) of
     None \<Rightarrow> False
   | Some x \<Rightarrow> fCoinBase x \<longrightarrow> height - uint (coin_nHeight x) \<ge> COINBASE_MATURITY)"

lemma AccessCoin_shows:
  assumes "shows_coins usage c base m ls h" "m out = Some x"
  obtains c' base' where "AccessCoin usage c base out = (x, c', base')" "shows_coins usage c' base' m ls h" "\<not> IsSpent x"
proof -
  have w: "wf_view usage (ViewCache c base)" and m: "coins_of (ViewCache c base) out = Some x"
    using assms by (simp_all add: shows_coins_def del: wf_view.simps coins_of.simps)
  show ?thesis
    by (rule AccessCoin_refines [OF w m])
      (use that shows_coins_levels [OF assms(1)] coins_of_unspent [OF w m] in blast)
qed

lemma coin_values_simps [simp]:
  "coin_values m [] = []" "coin_values m (i # ins) = nValue (coin_out (the (m (prevout i)))) # coin_values m ins"
  by (simp_all add: coin_values_def)

lemma MoneyRange_bounds: "MoneyRange v \<longleftrightarrow> 0 \<le> v \<and> v \<le> 20060937500000000"
  by (auto simp: MoneyRange_def MAX_MONEY_def COIN_def)

lemma sum_MoneyRange_nonneg: "\<forall>v \<in> set vs. MoneyRange v \<Longrightarrow> 0 \<le> sum_list vs"
  by (induction vs) (simp_all add: MoneyRange_bounds)

lemma check_inputs_step:
  assumes "shows_coins usage c base m ls h" "m (prevout i) = Some x" "0 \<le> height" "height < 2 ^ 31"
  obtains c' base' where "shows_coins usage c' base' m ls h"
    "check_inputs usage height (i # ins) acc c base =
      (if \<not> mature m height i then Inr (Inl ''bad-txns-premature-spend-of-coinbase'')
       else bindR (i64 (acc + nValue (coin_out x))) (\<lambda>n.
         if \<not> MoneyRange (nValue (coin_out x)) \<or> \<not> MoneyRange n then Inr (Inl ''bad-txns-inputvalues-outofrange'')
         else check_inputs usage height ins n c' base'))"
proof -
  obtain c' base' where a: "AccessCoin usage c base (prevout i) = (x, c', base')" "shows_coins usage c' base' m ls h" "\<not> IsSpent x"
    by (rule AccessCoin_shows [OF assms(1,2)])
  have "uint (coin_nHeight x) < 2147483648" "0 \<le> uint (coin_nHeight x)" "height < 2147483648"
    using unsigned_less [where ?'a = int, of "coin_nHeight x"] assms(4) by simp_all
  then have "in_int32 (height - uint (coin_nHeight x))" using assms(3) unfolding in_int32_def INT32_MAX_def by linarith
  then show ?thesis using that [OF a(2)] a assms(2) by (auto simp: mature_def)
qed

definition inputs_ok :: "(COutPoint \<Rightarrow> Coin option) \<Rightarrow> int \<Rightarrow> CTxIn list \<Rightarrow> CAmount \<Rightarrow> bool" where
  "inputs_ok m height ins acc \<longleftrightarrow> list_all (mature m height) ins \<and> list_all MoneyRange (coin_values m ins) \<and>
     MoneyRange (acc + sum_list (coin_values m ins))"

lemma inputs_ok_Cons:
  assumes "m (prevout i) = Some x" "MoneyRange acc"
  shows "inputs_ok m height (i # ins) acc \<longleftrightarrow> mature m height i \<and> MoneyRange (nValue (coin_out x)) \<and>
    MoneyRange (acc + nValue (coin_out x)) \<and> inputs_ok m height ins (acc + nValue (coin_out x))"
  using assms sum_MoneyRange_nonneg [of "coin_values m ins"]
  by (auto simp: inputs_ok_def add.assoc list_all_iff MoneyRange_bounds)

lemma check_inputs_spec:
  assumes "shows_coins usage c base m ls h" "list_all (\<lambda>i. m (prevout i) \<noteq> None) ins" "MoneyRange acc"
    and "0 \<le> height" "height < 2 ^ 31"
  shows "if inputs_ok m height ins acc
    then \<exists>c' base'. check_inputs usage height ins acc c base = Inr (Inr (acc + sum_list (coin_values m ins), c', base')) \<and>
      shows_coins usage c' base' m ls h
    else \<forall>y. check_inputs usage height ins acc c base \<noteq> Inr (Inr y)"
  using assms(1-3)
proof (induction ins arbitrary: acc c base)
  case Nil
  then show ?case by (simp add: inputs_ok_def)
next
  case (Cons i ins)
  obtain x where x: "m (prevout i) = Some x" using Cons.prems(2) by auto
  let ?n = "acc + nValue (coin_out x)"
  obtain c' base' where s: "shows_coins usage c' base' m ls h"
    and eq: "check_inputs usage height (i # ins) acc c base =
      (if \<not> mature m height i then Inr (Inl ''bad-txns-premature-spend-of-coinbase'')
       else bindR (i64 ?n) (\<lambda>n.
         if \<not> MoneyRange (nValue (coin_out x)) \<or> \<not> MoneyRange n then Inr (Inl ''bad-txns-inputvalues-outofrange'')
         else check_inputs usage height ins n c' base'))"
    by (rule check_inputs_step [OF Cons.prems(1) x assms(4,5)])
  note ok = inputs_ok_Cons [of m i x acc height ins, OF x Cons.prems(3)]
  show ?case
  proof (cases "mature m height i \<and> MoneyRange (nValue (coin_out x)) \<and> MoneyRange ?n")
    case True
    then have "check_inputs usage height (i # ins) acc c base = check_inputs usage height ins ?n c' base'"
      unfolding eq by (simp add: MAX_MONEY_in_int64)
    then show ?thesis using Cons.IH [OF s, of ?n] Cons.prems(2) True x
      by (cases "inputs_ok m height ins ?n") (simp_all add: ok add.assoc del: check_inputs.simps)
  next
    case False
    then show ?thesis unfolding eq ok by (auto simp: i64_def)
  qed
qed

text \<open>A transaction that is not a coinbase, over the coins \<open>m\<close>.\<close>

definition tx_ok :: "(COutPoint \<Rightarrow> Coin option) \<Rightarrow> int \<Rightarrow> CTransaction \<Rightarrow> CAmount \<Rightarrow> bool" where
  "tx_ok m height tx fee \<longleftrightarrow> list_all (\<lambda>i. m (prevout i) \<noteq> None) (vin tx) \<and> inputs_ok m height (vin tx) 0 \<and>
     (\<exists>value_out. GetValueOut tx = Inr value_out \<and> sum_list (coin_values m (vin tx)) = value_out + fee) \<and> 0 \<le> fee"

lemma CheckTxInputs_spec:
  assumes "shows_coins usage c base m ls h" "\<not> IsCoinBase tx" "0 \<le> height" "height < 2 ^ 31"
  shows "(\<exists>c' base'. CheckTxInputs usage tx height c base = Inr (Inr (fee, c', base'))) \<longleftrightarrow> tx_ok m height tx fee"
    and "CheckTxInputs usage tx height c base = Inr (Inr (fee, c1, b1)) \<Longrightarrow> shows_coins usage c1 b1 m ls h"
proof -
  have w: "wf_view usage (ViewCache c base)" and m: "coins_of (ViewCache c base) = m"
    using assms(1) by (simp_all add: shows_coins_def del: wf_view.simps coins_of.simps)
  obtain have_it c' base' where hi: "HaveInputs usage tx c base = (have_it, c', base')" by (metis prod_cases3)
  have h: "have_it = list_all (\<lambda>i. m (prevout i) \<noteq> None) (vin tx)" and s: "shows_coins usage c' base' m ls h"
    using HaveInputs_iff [OF w hi] assms(2) shows_coins_levels [OF assms(1)] unfolding m by (auto simp: list_all_iff)
  have "MoneyRange 0" by (simp add: MoneyRange_bounds)
  note spec = check_inputs_spec [OF s _ this assms(3,4), of "vin tx"]
  have "(\<exists>c1 b1. CheckTxInputs usage tx height c base = Inr (Inr (fee, c1, b1))) \<longleftrightarrow> tx_ok m height tx fee \<and>
     (\<forall>c1 b1. CheckTxInputs usage tx height c base = Inr (Inr (fee, c1, b1)) \<longrightarrow> shows_coins usage c1 b1 m ls h)"
  proof (cases "have_it \<and> inputs_ok m height (vin tx) 0")
    case False
    then show ?thesis using spec h hi by (auto simp: CheckTxInputs_def tx_ok_def bindR_Inr_iff split: sum.splits)
  next
    case True
    then obtain c2 b2 where c: "check_inputs usage height (vin tx) 0 c' base' = Inr (Inr (sum_list (coin_values m (vin tx)), c2, b2))"
      "shows_coins usage c2 b2 m ls h" using spec h by auto
    have r: "MoneyRange (sum_list (coin_values m (vin tx)))" using True by (simp add: inputs_ok_def)
    have o: "GetValueOut tx = Inr v \<Longrightarrow> MoneyRange v" for v using GetValueOut_iff by blast
    show ?thesis using True h hi c r o
      by (cases "GetValueOut tx") (auto simp: CheckTxInputs_def tx_ok_def bindR_Inr_iff MoneyRange_bounds in_int64_def INT64_MAX_def split: if_splits)
  qed
  then show "(\<exists>c' base'. CheckTxInputs usage tx height c base = Inr (Inr (fee, c', base'))) \<longleftrightarrow> tx_ok m height tx fee"
    and "CheckTxInputs usage tx height c base = Inr (Inr (fee, c1, b1)) \<Longrightarrow> shows_coins usage c1 b1 m ls h"
    by blast+
qed

subsection \<open>The supply\<close>

definition total_supply :: "(COutPoint \<Rightarrow> Coin option) \<Rightarrow> int" where
  "total_supply m = (\<Sum>out \<in> dom m. nValue (coin_out (the (m out))))"

lemma supply_remove:
  assumes "finite (dom m)" "m out = Some x"
  shows "total_supply (m(out := None)) = total_supply m - nValue (coin_out x)"
proof -
  have "total_supply m = nValue (coin_out (the (m out))) + (\<Sum>q \<in> dom m - {out}. nValue (coin_out (the (m q))))"
    unfolding total_supply_def using assms by (intro sum.remove) auto
  moreover have "(\<Sum>q \<in> dom m - {out}. nValue (coin_out (the (m q)))) = total_supply (m(out := None))"
    unfolding total_supply_def by (intro sum.cong) auto
  ultimately show ?thesis using assms(2) by simp
qed

lemma supply_insert:
  assumes "finite (dom m)" "m out = None"
  shows "total_supply (m(out \<mapsto> x)) = total_supply m + nValue (coin_out x)"
  using supply_remove [of "m(out \<mapsto> x)" out x] assms by (simp add: fun_upd_idem)

lemma finite_coins: "finite (dom (coins_of v))"
proof (induction v)
  case (ViewDB db)
  have "coins_of (ViewDB db) = map_of (db_coins db)" by (rule ext) simp
  then show ?case by (simp add: finite_dom_map_of del: coins_of.simps)
next
  case (ViewCache c b)
  have "dom (coins_of (ViewCache c b)) \<subseteq> dom (map_of (cacheCoins c)) \<union> dom (coins_of b)"
    by (auto simp: dom_def split: option.splits)
  then show ?case using ViewCache by (meson finite_UnI finite_dom_map_of finite_subset)
qed

text \<open>The check for duplicate inputs in \<open>CheckTransaction\<close>.\<close>

fun unique_prevouts :: "COutPoint set \<Rightarrow> CTxIn list \<Rightarrow> bool" where
  "unique_prevouts vInOutPoints [] \<longleftrightarrow> True"
| "unique_prevouts vInOutPoints (txin # ins) \<longleftrightarrow>
     prevout txin \<notin> vInOutPoints \<and> unique_prevouts (insert (prevout txin) vInOutPoints) ins"

lemma unique_prevouts_distinct:
  "unique_prevouts S ins \<longleftrightarrow> distinct (map prevout ins) \<and> S \<inter> prevout ` set ins = {}"
  by (induction ins arbitrary: S) auto

lemma unique_spendable:
  "distinct (map prevout ins) \<Longrightarrow> list_all (\<lambda>i. m (prevout i) \<noteq> None) ins \<Longrightarrow> all_spendable ins m"
proof (induction ins arbitrary: m)
  case (Cons i ins)
  have "list_all (\<lambda>j. (m(prevout i := None)) (prevout j) \<noteq> None) ins"
    using Cons.prems by (auto simp: list_all_iff image_iff)
  then show ?case using Cons.IH [of "m(prevout i := None)"] Cons.prems by (simp del: fun_upd_apply)
qed simp

lemma coin_values_upd: "out \<notin> prevout ` set ins \<Longrightarrow> coin_values (m(out := v)) ins = coin_values m ins"
  by (auto simp: coin_values_def image_iff)

lemma supply_spend:
  assumes "finite (dom m)" "distinct (map prevout ins)" "list_all (\<lambda>i. m (prevout i) \<noteq> None) ins"
  shows "finite (dom (snd (spec_spend ins m))) \<and> total_supply (snd (spec_spend ins m)) = total_supply m - sum_list (coin_values m ins)"
  using assms
proof (induction ins arbitrary: m)
  case (Cons i ins)
  obtain x where x: "m (prevout i) = Some x" using Cons.prems(3) by auto
  let ?m = "m(prevout i := None)"
  have "list_all (\<lambda>j. ?m (prevout j) \<noteq> None) ins" using Cons.prems(2,3) by (auto simp: list_all_iff image_iff)
  then have "finite (dom (snd (spec_spend ins ?m))) \<and> total_supply (snd (spec_spend ins ?m)) = total_supply ?m - sum_list (coin_values ?m ins)"
    using Cons.IH [of ?m] Cons.prems(1,2) by (simp del: fun_upd_apply)
  moreover have "coin_values ?m ins = coin_values m ins" using Cons.prems(2) by (intro coin_values_upd) simp
  ultimately show ?case using supply_remove [OF Cons.prems(1) x] x by (simp del: fun_upd_apply)
qed simp

lemma supply_outputs:
  assumes "finite (dom m)" "\<forall>txout \<in> set outs. 0 \<le> nValue txout" "i + length outs \<le> 2 ^ 32"
    and "\<forall>j. i \<le> j \<and> j < i + length outs \<longrightarrow> m \<lparr>prev_hash = txid, prev_n = of_nat j\<rparr> = None"
  shows "finite (dom (spec_outputs txid cb ht i outs m)) \<and> total_supply (spec_outputs txid cb ht i outs m) \<le> total_supply m + sum_list (map nValue outs)"
  using assms
proof (induction outs arbitrary: i m)
  case (Cons txout outs)
  let ?p = "\<lparr>prev_hash = txid, prev_n = of_nat i\<rparr> :: COutPoint"
  let ?m = "if IsUnspendable (scriptPubKey txout) then m else m(?p \<mapsto> Coin_of txout ht cb)"
  have "m ?p = None" using Cons.prems(4) by simp
  then have s: "total_supply ?m \<le> total_supply m + nValue txout" "finite (dom ?m)"
    using Cons.prems(1,2) supply_insert [OF Cons.prems(1), of ?p "Coin_of txout ht cb"] by simp_all
  have "of_nat j \<noteq> (of_nat i :: u32)" if "i + 1 \<le> j" "j < i + 1 + length outs" for j
    using that Cons.prems(3) of_nat_eq_word32 [of j i] by simp
  then have "\<forall>j. i + 1 \<le> j \<and> j < i + 1 + length outs \<longrightarrow> ?m \<lparr>prev_hash = txid, prev_n = of_nat j\<rparr> = None"
    using Cons.prems(4) by simp
  then show ?case using Cons.IH [OF s(2), of "i + 1"] s(1) Cons.prems(2,3) by simp
qed simp

definition fresh_outputs :: "crypto \<Rightarrow> CTransaction \<Rightarrow> (COutPoint \<Rightarrow> Coin option) \<Rightarrow> bool" where
  "fresh_outputs cr tx m \<longleftrightarrow> list_all (\<lambda>txout. \<not> CTxOut_IsNull txout) (vout tx) \<and> length (vout tx) \<le> 2 ^ 32 \<and>
     list_all (\<lambda>j. snd (spec_ins tx m) \<lparr>prev_hash = GetHash cr tx, prev_n = of_nat j\<rparr> = None) [0..<length (vout tx)]"

lemma legal_tx_fresh: "legal_tx cr tx m \<longleftrightarrow> (IsCoinBase tx \<or> all_spendable (vin tx) m) \<and> fresh_outputs cr tx m"
  by (simp add: legal_tx_def fresh_outputs_def)

lemma supply_tx:
  assumes "finite (dom m)" "fresh_outputs cr tx m" "GetValueOut tx = Inr v"
    and "\<not> IsCoinBase tx \<Longrightarrow> distinct (map prevout (vin tx)) \<and> list_all (\<lambda>i. m (prevout i) \<noteq> None) (vin tx)"
  shows "finite (dom (spec_tx cr ht tx m)) \<and>
    total_supply (spec_tx cr ht tx m) \<le> total_supply m - (if IsCoinBase tx then 0 else sum_list (coin_values m (vin tx))) + v"
proof -
  have v: "v = sum_list (map nValue (vout tx))" "\<forall>txout \<in> set (vout tx). 0 \<le> nValue txout"
    using assms(3) by (auto simp: GetValueOut_iff MoneyRange_bounds)
  have f: "0 + length (vout tx) \<le> 2 ^ 32"
    "\<forall>j. 0 \<le> j \<and> j < 0 + length (vout tx) \<longrightarrow> snd (spec_ins tx m) \<lparr>prev_hash = GetHash cr tx, prev_n = of_nat j\<rparr> = None"
    using assms(2) by (auto simp: fresh_outputs_def list_all_iff)
  have i: "finite (dom (snd (spec_ins tx m))) \<and>
      total_supply (snd (spec_ins tx m)) = total_supply m - (if IsCoinBase tx then 0 else sum_list (coin_values m (vin tx)))"
    using assms(1,4) supply_spend by (auto simp: spec_ins_def)
  show ?thesis using supply_outputs [OF _ v(2) f, of "IsCoinBase tx" ht] i v(1) by (simp add: spec_tx_def)
qed

text \<open>The transactions of a block in the order \<open>ConnectBlock\<close> takes them: \<open>nFees\<close> so far and in the end.\<close>

lemma connect_fees_step:
  assumes "connect_fees cr usage height (tx # txs) nFees c base = Inr (Inr r)" "\<not> IsCoinBase tx"
  obtains fee c1 b1 where "CheckTxInputs usage tx height c base = Inr (Inr (fee, c1, b1))"
    "bindR (UpdateCoins cr usage tx height c1 b1) (\<lambda>(u, c, base). connect_fees cr usage height txs (nFees + fee) c base) = Inr (Inr r)"
proof (cases "CheckTxInputs usage tx height c base")
  case (Inr a)
  then show ?thesis
  proof (cases a)
    case b: (Inr y)
    obtain fee c1 b1 where y: "y = (fee, c1, b1)" by (metis prod_cases3)
    have "in_int64 (nFees + fee)" "MoneyRange (nFees + fee)"
      using assms Inr unfolding b y by (auto simp: i64_def split: if_splits)
    then show ?thesis using assms Inr that unfolding b y by simp
  qed (use assms in simp)
qed (use assms in simp)

lemma connect_fees_supply:
  assumes "shows_coins usage c base m ls h" "usage Coin_Clear = 0" "0 \<le> height" "height < 2 ^ 31" "finite (dom m)"
    and "connect_fees cr usage height txs nFees c base = Inr (Inr (nFees', c', base'))"
    and "list_all (\<lambda>tx. \<not> IsCoinBase tx \<and> unique_prevouts {} (vin tx)) txs"
    and "\<And>i. i < length txs \<Longrightarrow> fresh_outputs cr (txs ! i) (spec_txs cr height (take i txs) m)"
  shows "shows_coins usage c' base' (spec_txs cr height txs m) ls h \<and> finite (dom (spec_txs cr height txs m)) \<and>
    total_supply (spec_txs cr height txs m) \<le> total_supply m - (nFees' - nFees)"
  using assms(1,5-8)
proof (induction txs arbitrary: c base m nFees)
  case Nil
  then show ?case by (auto simp: spec_txs_def)
next
  case (Cons tx txs)
  have tx: "\<not> IsCoinBase tx" "distinct (map prevout (vin tx))" using Cons.prems(4) by (simp_all add: unique_prevouts_distinct)
  obtain fee c1 b1 where ci: "CheckTxInputs usage tx height c base = Inr (Inr (fee, c1, b1))"
    and rest: "bindR (UpdateCoins cr usage tx height c1 b1) (\<lambda>(u, c, base). connect_fees cr usage height txs (nFees + fee) c base) =
      Inr (Inr (nFees', c', base'))"
    by (rule connect_fees_step [OF Cons.prems(3) tx(1)])
  have ok: "tx_ok m height tx fee" and s1: "shows_coins usage c1 b1 m ls h"
    using CheckTxInputs_spec [OF Cons.prems(1) tx(1) assms(3,4)] ci by blast+
  obtain v where v: "GetValueOut tx = Inr v" "sum_list (coin_values m (vin tx)) = v + fee"
    and here: "list_all (\<lambda>i. m (prevout i) \<noteq> None) (vin tx)" using ok by (auto simp: tx_ok_def)
  have fr: "fresh_outputs cr tx m" using Cons.prems(5) [of 0] by (simp add: spec_txs_def)
  have "legal_tx cr tx m" unfolding legal_tx_fresh using fr unique_spendable [OF tx(2) here] by blast
  then obtain c2 b2 where u: "UpdateCoins cr usage tx height c1 b1 = Inr (fst (spec_ins tx m), c2, b2)"
    "shows_coins usage c2 b2 (spec_tx cr height tx m) ls h"
    using UpdateCoins_shows [OF s1 assms(2), of cr tx height] by blast
  have t: "finite (dom (spec_tx cr height tx m))" "total_supply (spec_tx cr height tx m) \<le> total_supply m - fee"
    using supply_tx [OF Cons.prems(2) fr v(1), of height] tx here v(2) by simp_all
  have step: "spec_txs cr height (tx # xs) m = spec_txs cr height xs (spec_tx cr height tx m)" for xs by (simp add: spec_txs_def)
  have "fresh_outputs cr (txs ! i) (spec_txs cr height (take i txs) (spec_tx cr height tx m))" if "i < length txs" for i
    using Cons.prems(5) [of "Suc i"] that by (simp add: step)
  then have "shows_coins usage c' base' (spec_txs cr height txs (spec_tx cr height tx m)) ls h \<and>
    finite (dom (spec_txs cr height txs (spec_tx cr height tx m))) \<and>
    total_supply (spec_txs cr height txs (spec_tx cr height tx m)) \<le> total_supply (spec_tx cr height tx m) - (nFees' - (nFees + fee))"
    using Cons.IH [OF u(2) t(1), of "nFees + fee"] rest u(1) Cons.prems(4) by simp
  then show ?case using t(2) unfolding step by simp
qed

text \<open>A block without a superblock payment: its first transaction is the coinbase, its value is at most the
  fees and the subsidy (\<open>IsBlockValueValid\<close> where no superblock can be), the inputs of every transaction
  are distinct, and its outputs are new.\<close>

definition block_passes :: "crypto \<Rightarrow> (Coin \<Rightarrow> u64) \<Rightarrow> int \<Rightarrow> CTransaction list \<Rightarrow> CCoinsViewCache \<Rightarrow> view \<Rightarrow> CAmount \<Rightarrow> CCoinsViewCache \<Rightarrow> view \<Rightarrow> bool" where
  "block_passes cr usage height vtx c base nFees c' base' \<longleftrightarrow>
     vtx \<noteq> [] \<and> IsCoinBase (hd vtx) \<and> list_all (\<lambda>tx. \<not> IsCoinBase tx \<and> unique_prevouts {} (vin tx)) (tl vtx) \<and>
     (\<forall>i < length vtx. fresh_outputs cr (vtx ! i) (spec_txs cr height (take i vtx) (coins_of (ViewCache c base)))) \<and>
     connect_fees cr usage height vtx 0 c base = Inr (Inr (nFees, c', base')) \<and>
     (\<exists>v. GetValueOut (hd vtx) = Inr v \<and> v \<le> nFees + GetBlockSubsidy (height - 1))"

lemma block_supply:
  assumes "wf_view usage (ViewCache c base)" "usage Coin_Clear = 0" "0 \<le> height" "height < 2 ^ 31"
    and "block_passes cr usage height vtx c base nFees c' base'"
  shows "wf_view usage (ViewCache c' base') \<and>
    total_supply (coins_of (ViewCache c' base')) \<le> total_supply (coins_of (ViewCache c base)) + GetBlockSubsidy (height - 1)"
proof -
  let ?m = "coins_of (ViewCache c base)"
  obtain cb txs where vtx: "vtx = cb # txs" using assms(5) by (cases vtx) (auto simp: block_passes_def)
  have cb: "IsCoinBase cb" and txs: "list_all (\<lambda>tx. \<not> IsCoinBase tx \<and> unique_prevouts {} (vin tx)) txs"
    and fr: "\<And>i. i < length vtx \<Longrightarrow> fresh_outputs cr (vtx ! i) (spec_txs cr height (take i vtx) ?m)"
    and run: "connect_fees cr usage height (cb # txs) 0 c base = Inr (Inr (nFees, c', base'))"
    using assms(5) by (auto simp: block_passes_def vtx)
  obtain v where v: "GetValueOut cb = Inr v" "v \<le> nFees + GetBlockSubsidy (height - 1)"
    using assms(5) by (auto simp: block_passes_def vtx)
  have sh: "shows_coins usage c base ?m (levels base) (hashBlock c)"
    using assms(1) by (simp add: shows_coins_def del: wf_view.simps coins_of.simps)
  have fcb: "fresh_outputs cr cb ?m" using fr [of 0] by (simp add: vtx spec_txs_def del: coins_of.simps)
  have lcb: "legal_tx cr cb ?m" unfolding legal_tx_fresh using cb fcb by simp
  from UpdateCoins_shows [OF sh assms(2) lcb, of height]
  obtain c1 b1 where u: "UpdateCoins cr usage cb height c base = Inr (fst (spec_ins cb ?m), c1, b1)"
    "shows_coins usage c1 b1 (spec_tx cr height cb ?m) (levels base) (hashBlock c)" by blast
  have t: "finite (dom (spec_tx cr height cb ?m)) \<and> total_supply (spec_tx cr height cb ?m) \<le> total_supply ?m + v"
    using supply_tx [OF finite_coins fcb v(1), of height] cb by simp
  have rest: "connect_fees cr usage height txs 0 c1 b1 = Inr (Inr (nFees, c', base'))" using run cb u(1) by simp
  have step: "spec_txs cr height (cb # xs) ?m = spec_txs cr height xs (spec_tx cr height cb ?m)" for xs
    by (simp add: spec_txs_def)
  have fr': "fresh_outputs cr (txs ! i) (spec_txs cr height (take i txs) (spec_tx cr height cb ?m))" if "i < length txs" for i
    using fr [of "Suc i"] that by (simp add: vtx step del: coins_of.simps)
  have "shows_coins usage c' base' (spec_txs cr height txs (spec_tx cr height cb ?m)) (levels base) (hashBlock c) \<and>
    total_supply (spec_txs cr height txs (spec_tx cr height cb ?m)) \<le> total_supply (spec_tx cr height cb ?m) - nFees"
    using connect_fees_supply [OF u(2) assms(2-4) _ rest txs fr'] t by simp
  then show ?thesis using t v(2) by (auto simp: shows_coins_def simp del: wf_view.simps coins_of.simps)
qed

subsection \<open>Issuance\<close>

text \<open>A chain of blocks connected one after the other from an empty set of coins; between two blocks the
  caches may change in any way that keeps what they show, as flushes do.\<close>

inductive connected :: "crypto \<Rightarrow> (Coin \<Rightarrow> u64) \<Rightarrow> nat \<Rightarrow> CCoinsViewCache \<Rightarrow> view \<Rightarrow> bool" for cr usage where
  start: "wf_view usage (ViewCache c base) \<Longrightarrow> coins_of (ViewCache c base) = (\<lambda>_. None) \<Longrightarrow> connected cr usage 0 c base"
| block: "connected cr usage n c base \<Longrightarrow> int n + 1 < 2 ^ 31 \<Longrightarrow> block_passes cr usage (int n + 1) vtx c base nFees c' base' \<Longrightarrow>
    connected cr usage (Suc n) c' base'"
| keep: "connected cr usage n c base \<Longrightarrow> wf_view usage (ViewCache c' base') \<Longrightarrow>
    coins_of (ViewCache c' base') = coins_of (ViewCache c base) \<Longrightarrow> connected cr usage n c' base'"

definition issued :: "nat \<Rightarrow> int" where
  "issued n = (\<Sum>k < n. GetBlockSubsidy (int k))"

lemma sum_const_block:
  assumes "\<And>k. a \<le> k \<Longrightarrow> k < b \<Longrightarrow> f k = (c :: int)" "a \<le> b"
  shows "sum f {..<b} = sum f {..<a} + int (b - a) * c"
proof -
  have "{..<b} = {..<a} \<union> {a..<b}" using assms(2) by auto
  then have "sum f {..<b} = sum f {..<a} + sum f {a..<b}" by (simp add: sum.union_disjoint ivl_disj_int)
  also have "sum f {a..<b} = sum (\<lambda>_. c) {a..<b}" using assms(1) by (intro sum.cong) auto
  finally show ?thesis by simp
qed

lemma GetBlockSubsidy_nonneg: "0 \<le> GetBlockSubsidy n"
  by (simp add: GetBlockSubsidy_def COIN_def)

lemma issued_mono: "n \<le> n' \<Longrightarrow> issued n \<le> issued n'"
  unfolding issued_def by (intro sum_mono2) (auto simp: GetBlockSubsidy_nonneg)

lemma issued_9000001: "issued 9000001 = MAX_MONEY"
proof -
  let ?f = "\<lambda>k. GetBlockSubsidy (int k)"
  have "sum ?f {..<1} = 1000000 * COIN" by (simp add: GetBlockSubsidy_def)
  moreover have "sum ?f {..<1000001} = sum ?f {..<1} + int (1000001 - 1) * (100 * COIN)"
    by (rule sum_const_block) (simp_all add: GetBlockSubsidy_def)
  moreover have "sum ?f {..<2000001} = sum ?f {..<1000001} + int (2000001 - 1000001) * (50 * COIN)"
    by (rule sum_const_block) (simp_all add: GetBlockSubsidy_def)
  moreover have "sum ?f {..<3000001} = sum ?f {..<2000001} + int (3000001 - 2000001) * (25 * COIN)"
    by (rule sum_const_block) (simp_all add: GetBlockSubsidy_def)
  moreover have "sum ?f {..<4000001} = sum ?f {..<3000001} + int (4000001 - 3000001) * 1250000000"
    by (rule sum_const_block) (simp_all add: GetBlockSubsidy_def)
  moreover have "sum ?f {..<5000001} = sum ?f {..<4000001} + int (5000001 - 4000001) * 625000000"
    by (rule sum_const_block) (simp_all add: GetBlockSubsidy_def)
  moreover have "sum ?f {..<6000001} = sum ?f {..<5000001} + int (6000001 - 5000001) * 312500000"
    by (rule sum_const_block) (simp_all add: GetBlockSubsidy_def)
  moreover have "sum ?f {..<7000001} = sum ?f {..<6000001} + int (7000001 - 6000001) * 156250000"
    by (rule sum_const_block) (simp_all add: GetBlockSubsidy_def)
  moreover have "sum ?f {..<8000001} = sum ?f {..<7000001} + int (8000001 - 7000001) * 78125000"
    by (rule sum_const_block) (simp_all add: GetBlockSubsidy_def)
  moreover have "sum ?f {..<9000001} = sum ?f {..<8000001} + int (9000001 - 8000001) * 39062500"
    by (rule sum_const_block) (simp_all add: GetBlockSubsidy_def)
  ultimately show ?thesis unfolding issued_def MAX_MONEY_def COIN_def by simp
qed

lemma connected_supply:
  assumes "connected cr usage n c base" "usage Coin_Clear = 0"
  shows "wf_view usage (ViewCache c base) \<and> total_supply (coins_of (ViewCache c base)) \<le> issued n"
  using assms(1)
proof (induction rule: connected.induct)
  case (start c base)
  then show ?case by (simp add: total_supply_def issued_def del: wf_view.simps coins_of.simps)
next
  case (block n c base vtx nFees c' base')
  have "wf_view usage (ViewCache c' base') \<and>
    total_supply (coins_of (ViewCache c' base')) \<le> total_supply (coins_of (ViewCache c base)) + GetBlockSubsidy (int n + 1 - 1)"
    using block.IH block.hyps by (intro block_supply [where cr = cr and vtx = vtx and nFees = nFees] assms(2)) simp_all
  then show ?case using block.IH by (simp add: issued_def del: wf_view.simps coins_of.simps)
next
  case (keep n c base c' base')
  then show ?case by (simp del: wf_view.simps coins_of.simps)
qed

text \<open>C2. No chain of regular blocks, starting from no coins, creates more than the subsidies: the coins that
  \<open>CheckTxInputs\<close>, \<open>UpdateCoins\<close> and the limit on the coinbase let exist after \<open>n\<close> blocks are worth at most
  the first \<open>n\<close> subsidies. The first 9000001 subsidies, up to the start of the tail of \<open>0.01\<close>, add up to
  exactly \<open>MAX_MONEY\<close>, so that up to that height the supply is within \<open>MAX_MONEY\<close>. A block is regular when
  its outputs are new coins and its coinbase takes no more than the subsidy and the fees.\<close>

theorem supply_within_issuance:
  assumes "connected cr usage n c base" and "usage Coin_Clear = 0"
  shows "total_supply (coins_of (ViewCache c base)) \<le> (\<Sum>k < n. GetBlockSubsidy (int k)) \<and>
    (\<Sum>k < (9000001 :: nat). GetBlockSubsidy (int k)) = MAX_MONEY \<and>
    (n \<le> 9000001 \<longrightarrow> total_supply (coins_of (ViewCache c base)) \<le> MAX_MONEY)"
  using connected_supply [OF assms] issued_mono [of n 9000001] issued_9000001 unfolding issued_def by auto

definition empty_coins :: view where
  "empty_coins = ViewDB \<lparr>db_coins = [], db_best = None, db_heads = None\<rparr>"

lemma empty_wf: "wf_view usage (ViewCache CCoinsViewCache_new empty_coins)"
  by (simp add: empty_coins_def cache_ok_def CCoinsViewCache_new_def)

lemma empty_coins_none: "coins_of (ViewCache CCoinsViewCache_new empty_coins) = (\<lambda>_. None)"
  by (simp add: empty_coins_def CCoinsViewCache_new_def fun_eq_iff)

lemma sample_vout: "vout sample_coinbase = [\<lparr>nValue = 50, scriptPubKey = [0x51], nRounds = - 10\<rparr>]"
  by (simp add: sample_coinbase_def)

lemma sample_fresh: "fresh_outputs plain_crypto sample_coinbase (\<lambda>_. None)"
  by (simp add: fresh_outputs_def spec_ins_def sample_coinbases sample_vout CTxOut_IsNull_def)

lemma sample_connected:
  "\<exists>c base. connected plain_crypto (\<lambda>_. 0) 1 c base \<and> total_supply (coins_of (ViewCache c base)) = 50"
proof -
  let ?c = CCoinsViewCache_new and ?b = empty_coins
  have sh: "shows_coins (\<lambda>_. 0) ?c ?b (\<lambda>_. None) (levels ?b) (hashBlock ?c)"
    using empty_wf empty_coins_none by (simp add: shows_coins_def del: wf_view.simps coins_of.simps)
  have "legal_tx plain_crypto sample_coinbase (\<lambda>_. None)" unfolding legal_tx_fresh using sample_coinbases(1) sample_fresh by simp
  from UpdateCoins_shows [OF sh _ this, of 1] obtain c b where u:
    "UpdateCoins plain_crypto (\<lambda>_. 0) sample_coinbase 1 ?c ?b = Inr (fst (spec_ins sample_coinbase (\<lambda>_. None)), c, b)"
    "shows_coins (\<lambda>_. 0) c b (spec_tx plain_crypto 1 sample_coinbase (\<lambda>_. None)) (levels ?b) (hashBlock ?c)" by auto
  have v: "GetValueOut sample_coinbase = Inr 50" by code_simp
  have "block_passes plain_crypto (\<lambda>_. 0) (int 0 + 1) [sample_coinbase] ?c ?b 0 c b"
    unfolding block_passes_def using sample_coinbases(1) sample_fresh v u(1) empty_coins_none
    by (simp add: spec_txs_def GetBlockSubsidy_def COIN_def del: coins_of.simps)
  then have "connected plain_crypto (\<lambda>_. 0) (Suc 0) c b"
    by (intro connected.block [OF connected.start [OF empty_wf empty_coins_none], where vtx = "[sample_coinbase]" and nFees = 0]) simp_all
  moreover have "coins_of (ViewCache c b) = [\<lparr>prev_hash = GetHash plain_crypto sample_coinbase, prev_n = 0\<rparr> \<mapsto>
      Coin_of \<lparr>nValue = 50, scriptPubKey = [0x51], nRounds = - 10\<rparr> 1 True]"
    using u(2) sample_scripts(1) sample_coinbases(1)
    by (simp add: shows_coins_def spec_tx_def spec_ins_def sample_vout del: coins_of.simps wf_view.simps)
  then have "total_supply (coins_of (ViewCache c b)) = 50"
    by (simp add: total_supply_def Coin_of_def del: coins_of.simps)
  ultimately show ?thesis by auto
qed

theorem supply_within_issuance_witness:
  "\<exists>c base. connected plain_crypto (\<lambda>_. 0) 1 c base \<and> 0 < total_supply (coins_of (ViewCache c base)) \<and>
    total_supply (coins_of (ViewCache c base)) \<le> MAX_MONEY"
proof -
  obtain c base where c: "connected plain_crypto (\<lambda>_. 0) 1 c base" "total_supply (coins_of (ViewCache c base)) = 50"
    using sample_connected by blast
  have "total_supply (coins_of (ViewCache c base)) \<le> MAX_MONEY" using supply_within_issuance [OF c(1)] by simp
  then show ?thesis using c by (intro exI [of _ c] exI [of _ base]) (simp del: coins_of.simps)
qed

text \<open>C32. \<open>CheckTxInputs\<close> accepts a transaction, with the fee it reports, exactly when every input is a
  coin of the set, every coinbase among them is 100 blocks deep, every value and their sum is in the money
  range, and the outputs and the fee add up to the inputs; whatever it answers, accepting does not change
  the coins the caches show.\<close>

theorem CheckTxInputs_accepts:
  assumes "wf_view usage (ViewCache c base)" and "coins_of (ViewCache c base) = m" and "\<not> IsCoinBase tx"
    and "0 \<le> height" and "height < 2 ^ 31"
  shows "(\<exists>c' base'. CheckTxInputs usage tx height c base = Inr (Inr (fee, c', base')) \<and> coins_of (ViewCache c' base') = m) \<longleftrightarrow>
    list_all (\<lambda>i. \<exists>x. m (prevout i) = Some x \<and> (fCoinBase x \<longrightarrow> uint (coin_nHeight x) + 100 \<le> height) \<and> MoneyRange (nValue (coin_out x))) (vin tx) \<and>
    MoneyRange (sum_list (coin_values m (vin tx))) \<and> 0 \<le> fee \<and>
    GetValueOut tx = Inr (sum_list (coin_values m (vin tx)) - fee)"
proof -
  have s: "shows_coins usage c base m (levels base) (hashBlock c)"
    using assms(1,2) by (simp add: shows_coins_def del: wf_view.simps coins_of.simps)
  note spec = CheckTxInputs_spec [OF s assms(3-5)]
  have "(\<exists>c' base'. CheckTxInputs usage tx height c base = Inr (Inr (fee, c', base')) \<and> coins_of (ViewCache c' base') = m) \<longleftrightarrow>
    tx_ok m height tx fee"
    using spec(1) [of fee] spec(2) [of fee] unfolding shows_coins_def by blast
  also have "\<dots> \<longleftrightarrow> list_all (\<lambda>i. \<exists>x. m (prevout i) = Some x \<and> (fCoinBase x \<longrightarrow> uint (coin_nHeight x) + 100 \<le> height) \<and>
      MoneyRange (nValue (coin_out x))) (vin tx) \<and>
    MoneyRange (sum_list (coin_values m (vin tx))) \<and> 0 \<le> fee \<and> GetValueOut tx = Inr (sum_list (coin_values m (vin tx)) - fee)"
  proof -
    have "(list_all (\<lambda>i. m (prevout i) \<noteq> None) ins \<and> list_all (mature m height) ins \<and> list_all MoneyRange (coin_values m ins)) =
      list_all (\<lambda>i. \<exists>x. m (prevout i) = Some x \<and> (fCoinBase x \<longrightarrow> uint (coin_nHeight x) + 100 \<le> height) \<and>
        MoneyRange (nValue (coin_out x))) ins" for ins
      by (induction ins) (auto simp: mature_def COINBASE_MATURITY_def)
    then show ?thesis by (auto simp: tx_ok_def inputs_ok_def)
  qed
  finally show ?thesis .
qed

theorem CheckTxInputs_accepts_witness:
  "\<exists>c' base'. CheckTxInputs (\<lambda>_. 0) sample_spend 9 (fst sample_stack) (snd sample_stack) =
    Inr (Inr (nValue (coin_out sample_coin) - 3, c', base')) \<and> coins_of (ViewCache c' base') = [sample_outpoint \<mapsto> sample_coin]"
proof -
  have w: "wf_view (\<lambda>_. 0) (ViewCache (fst sample_stack) (snd sample_stack))"
    using sample_stack_wf [of "\<lambda>_. 0"] by (simp add: wf_stack_def sample_stack_def del: wf_view.simps)
  have v: "vin sample_spend = [\<lparr>prevout = sample_outpoint, scriptSig = [], nSequence = - 1, scriptWitness = []\<rparr>]"
    by (simp add: sample_spend_def)
  have g: "GetValueOut sample_spend = Inr 3" "3 \<le> nValue (coin_out sample_coin)" "MoneyRange (nValue (coin_out sample_coin))"
    "fCoinBase sample_coin \<longrightarrow> uint (coin_nHeight sample_coin) + 100 \<le> 9" by code_simp+
  show ?thesis
    using CheckTxInputs_accepts [OF w sample_coins sample_coinbases(2), of 9 "nValue (coin_out sample_coin) - 3"] g
    by (simp add: v del: coins_of.simps)
qed

subsection \<open>Lock times from the script to the chain\<close>

lemma cltv_success:
  assumes "op_checklocktimeverify (TransactionSignatureChecker cr Verify tx nIn amount txdata) flags s = Inr s'"
    and "flag_set flags SCRIPT_VERIFY_CHECKLOCKTIMEVERIFY" "stk s = v # st"
  obtains n where "script_num flags 5 v = Inr n" "0 \<le> n" "tx_CheckLockTime tx nIn n = Inr True"
  using assms by (auto simp: op_checklocktimeverify_def TransactionSignatureChecker_def bindR_Inr_iff split: if_splits)

text \<open>C33. Absolute lock times reach from the script to the block: if \<open>OP_CHECKLOCKTIMEVERIFY\<close> passes with
  the transaction's own checker on an argument \<open>v\<close>, and \<open>IsFinalTx\<close> lets the transaction into a block of
  some height and time, then the height (for an argument below \<open>LOCKTIME_THRESHOLD\<close>) or the time is
  beyond the number that \<open>v\<close> encodes.\<close>

theorem cltv_delays_spend:
  assumes "op_checklocktimeverify (TransactionSignatureChecker cr Verify tx nIn amount txdata) flags s = Inr s'"
    and "flag_set flags SCRIPT_VERIFY_CHECKLOCKTIMEVERIFY" and "stk s = v # st"
    and "nIn < length (vin tx)" and "IsFinalTx tx height time" and "0 < height"
  shows "\<exists>n. script_num flags 5 v = Inr n \<and> 0 \<le> n \<and> (if n < LOCKTIME_THRESHOLD then n < height else n < time)"
proof -
  obtain n where n: "script_num flags 5 v = Inr n" "0 \<le> n" "tx_CheckLockTime tx nIn n = Inr True"
    by (rule cltv_success [OF assms(1-3)])
  then have c: "uint (nLockTime tx) < LOCKTIME_THRESHOLD \<longleftrightarrow> n < LOCKTIME_THRESHOLD" "n \<le> uint (nLockTime tx)"
    "nSequence (vin tx ! nIn) \<noteq> SEQUENCE_FINAL" using tx_CheckLockTime_iff [OF assms(4)] by blast+
  then have "\<not> list_all (\<lambda>txin. nSequence txin = SEQUENCE_FINAL) (vin tx)" using assms(4) by (auto simp: list_all_length)
  then have "nLockTime tx = 0 \<or> uint (nLockTime tx) < (if n < LOCKTIME_THRESHOLD then height else time)"
    using assms(5) c(1) by (auto simp: IsFinalTx_def split: if_splits)
  then have "if n < LOCKTIME_THRESHOLD then n < height else n < time"
    using c(1,2) assms(6) by (auto simp: LOCKTIME_THRESHOLD_def split: if_splits)
  then show ?thesis using n by blast
qed

definition locked_spend :: CTransaction where
  "locked_spend = sample_spend\<lparr>nLockTime := 8, tx_nVersion := 2,
     vin := [\<lparr>prevout = sample_outpoint, scriptSig = [], nSequence = 1, scriptWitness = []\<rparr>]\<rparr>"

theorem cltv_delays_spend_witness:
  "\<exists>n. script_num SCRIPT_VERIFY_CHECKLOCKTIMEVERIFY 5 [7] = Inr n \<and> 0 \<le> n \<and> (if n < LOCKTIME_THRESHOLD then n < 9 else n < 1000)"
proof (rule cltv_delays_spend)
  let ?s = "\<lparr>stk = [[7]], altstk = [], vfExec = [], nOpCount = 0, codehash = []\<rparr>"
  show "op_checklocktimeverify (TransactionSignatureChecker plain_crypto (\<lambda>_ _ _. True) locked_spend 0 0 None)
      SCRIPT_VERIFY_CHECKLOCKTIMEVERIFY ?s = Inr ?s" by code_simp
  show "flag_set SCRIPT_VERIFY_CHECKLOCKTIMEVERIFY SCRIPT_VERIFY_CHECKLOCKTIMEVERIFY" by code_simp
  show "stk ?s = [7] # []" by simp
  show "0 < length (vin locked_spend)" by (simp add: locked_spend_def)
  show "IsFinalTx locked_spend 9 1000" by code_simp
qed simp

text \<open>What one input asks of the lock pair.\<close>

definition input_lock :: "store \<Rightarrow> ptr \<Rightarrow> CTxIn \<Rightarrow> int \<Rightarrow> int \<times> int \<Rightarrow> bool" where
  "input_lock m block txin h mins \<longleftrightarrow>
     nSequence txin AND SEQUENCE_LOCKTIME_DISABLE_FLAG \<noteq> 0 \<or>
     (if nSequence txin AND SEQUENCE_LOCKTIME_TYPE_FLAG \<noteq> 0
      then \<exists>q t. GetAncestor m block (max (h - 1) 0) = Inr (Some q) \<and> GetMedianTimePast m q = Inr t \<and>
        t + uint (push_bit SEQUENCE_LOCKTIME_GRANULARITY (nSequence txin AND SEQUENCE_LOCKTIME_MASK)) - 1 \<le> snd mins
      else h + uint (nSequence txin AND SEQUENCE_LOCKTIME_MASK) - 1 \<le> fst mins)"

lemma input_lock_mono: "input_lock m block txin h (a, b) \<Longrightarrow> a \<le> a' \<Longrightarrow> b \<le> b' \<Longrightarrow> input_lock m block txin h (a', b')"
  unfolding input_lock_def by (auto intro: order_trans split: if_splits)

lemma seq_locks_input:
  assumes "seq_locks m block (txin # ins) (h # hs) (a, b) = Inr r"
  obtains a' b' hs' h' where "a \<le> a'" "b \<le> b'" "input_lock m block txin h (a', b')"
    "seq_locks m block ins hs (a', b') = Inr (fst r, hs')" "snd r = h' # hs'"
proof (cases "nSequence txin AND SEQUENCE_LOCKTIME_DISABLE_FLAG \<noteq> 0")
  case True
  then obtain hs' where "seq_locks m block ins hs (a, b) = Inr (fst r, hs')" "snd r = 0 # hs'"
    using assms by (auto simp: bindR_Inr_iff)
  then show ?thesis using True by (intro that [of a b]) (auto simp: input_lock_def)
next
  case e: False
  show ?thesis
  proof (cases "nSequence txin AND SEQUENCE_LOCKTIME_TYPE_FLAG \<noteq> 0")
    case True
    then obtain q t hs' where "GetAncestor m block (max (h - 1) 0) = Inr (Some q)" "GetMedianTimePast m q = Inr t"
      "seq_locks m block ins hs (a, max b (t + uint (push_bit SEQUENCE_LOCKTIME_GRANULARITY (nSequence txin AND SEQUENCE_LOCKTIME_MASK)) - 1)) = Inr (fst r, hs')"
      "snd r = h # hs'"
      using assms e by (auto simp: bindR_Inr_iff i32_def i64_def split: option.splits if_splits)
    then show ?thesis using True e
      by (intro that [of a "max b (t + uint (push_bit SEQUENCE_LOCKTIME_GRANULARITY (nSequence txin AND SEQUENCE_LOCKTIME_MASK)) - 1)"])
        (auto simp: input_lock_def)
  next
    case False
    then obtain hs' where "seq_locks m block ins hs (max a (h + uint (nSequence txin AND SEQUENCE_LOCKTIME_MASK) - 1), b) = Inr (fst r, hs')"
      "snd r = h # hs'"
      using assms e by (auto simp: bindR_Inr_iff i32_def split: if_splits)
    then show ?thesis using False e
      by (intro that [of "max a (h + uint (nSequence txin AND SEQUENCE_LOCKTIME_MASK) - 1)" b]) (auto simp: input_lock_def)
  qed
qed

lemma seq_locks_all:
  assumes "seq_locks m block ins hs mins = Inr (mins', hs')" "length hs = length ins"
  shows "fst mins \<le> fst mins' \<and> snd mins \<le> snd mins' \<and> (\<forall>i < length ins. input_lock m block (ins ! i) (hs ! i) mins')"
  using assms
proof (induction ins arbitrary: hs mins hs')
  case (Cons txin ins)
  obtain h hs1 where hs: "hs = h # hs1" using Cons.prems(2) by (cases hs) auto
  obtain a b where mins: "mins = (a, b)" by force
  obtain a' b' hs2 h' where s: "a \<le> a'" "b \<le> b'" "input_lock m block txin h (a', b')"
    "seq_locks m block ins hs1 (a', b') = Inr (mins', hs2)"
    using Cons.prems(1) unfolding hs mins by (rule seq_locks_input) (use that in simp)
  have ih: "a' \<le> fst mins' \<and> b' \<le> snd mins' \<and> (\<forall>i < length ins. input_lock m block (ins ! i) (hs1 ! i) mins')"
    using Cons.IH [OF s(4)] Cons.prems(2) by (simp add: hs)
  then have "input_lock m block txin h mins'" using input_lock_mono [OF s(3), of "fst mins'" "snd mins'"] by simp
  then show ?case using ih s(1,2) by (auto simp: hs mins nth_Cons split: nat.split)
qed simp

lemma SequenceLocks_locks:
  assumes "SequenceLocks m tx flags hs block = Inr (True, hs')" "flags AND LOCKTIME_VERIFY_SEQUENCE \<noteq> 0" "2 \<le> tx_nVersion tx mod 2 ^ 32"
  obtains b p t mins where "m block = Some b" "pprev b = Some p" "GetMedianTimePast m p = Inr t" "fst mins < nHeight b" "snd mins < t"
    "length hs = length (vin tx)" "\<forall>i < length (vin tx). input_lock m block (vin tx ! i) (hs ! i) mins"
proof -
  from assms obtain mins where c: "seq_locks m block (vin tx) hs (- 1, - 1) = Inr (mins, hs')" "length hs = length (vin tx)"
    and e: "EvaluateSequenceLocks m block mins = Inr True"
    by (auto simp: SequenceLocks_def CalculateSequenceLocks_def bindR_Inr_iff assertR_def split: if_splits)
  from e obtain b p t where "m block = Some b" "pprev b = Some p" "GetMedianTimePast m p = Inr t" "fst mins < nHeight b" "snd mins < t"
    by (auto simp: EvaluateSequenceLocks_def bindR_Inr_iff deref_def split: option.splits)
  then show ?thesis using that seq_locks_all [OF c] c(2) by blast
qed

text \<open>The two fields of a sequence number under the mask that \<open>CheckSequence\<close> compares.\<close>

lemma sequence_fields:
  "x AND uint (SEQUENCE_LOCKTIME_TYPE_FLAG OR SEQUENCE_LOCKTIME_MASK) = (if bit x 22 then 2 ^ 22 else 0) + x mod 2 ^ 16"
proof -
  have m: "uint (SEQUENCE_LOCKTIME_TYPE_FLAG OR SEQUENCE_LOCKTIME_MASK) = 2 ^ 22 OR mask 16" by code_simp
  have a: "x AND 2 ^ 22 = (if bit x 22 then 2 ^ 22 else 0)" by (rule bit_eqI) (auto simp: bit_simps simp del: power_numeral)
  have b: "x AND mask 16 = x mod 2 ^ 16" by (simp add: take_bit_eq_mask [symmetric] take_bit_eq_mod)
  have "(x AND 2 ^ 22) AND (x AND mask 16) = 0" by (rule bit_eqI) (auto simp: bit_simps simp del: power_numeral)
  then show ?thesis unfolding m a [symmetric] b [symmetric] by (simp add: bit.conj_disj_distrib disjunctive_add_eq_or)
qed

lemma csv_success:
  assumes "op_checksequenceverify (TransactionSignatureChecker cr Verify tx nIn amount txdata) flags s = Inr s'"
    and "flag_set flags SCRIPT_VERIFY_CHECKSEQUENCEVERIFY" "stk s = v # st"
  obtains n where "script_num flags 5 v = Inr n" "0 \<le> n"
    "num_and n 0x80000000 \<noteq> 0 \<or> tx_CheckSequence tx nIn n = Inr True"
  using assms
  by (auto simp: op_checksequenceverify_def TransactionSignatureChecker_def bindR_Inr_iff Interpreter.SEQUENCE_LOCKTIME_DISABLE_FLAG_def split: if_splits)

lemma sequence_bit22: "(w :: u32) AND SEQUENCE_LOCKTIME_TYPE_FLAG \<noteq> 0 \<longleftrightarrow> bit (uint w) 22"
proof -
  have f: "SEQUENCE_LOCKTIME_TYPE_FLAG = (push_bit 22 1 :: u32)" by code_simp
  have "w AND push_bit 22 1 = (if bit w 22 then push_bit 22 1 else 0)"
    by (rule bit_eqI) (auto simp: bit_simps simp del: push_bit_of_1)
  moreover have "push_bit 22 1 \<noteq> (0 :: u32)" by code_simp
  ultimately show ?thesis unfolding f by (auto simp: bit_uint_iff simp del: push_bit_of_1)
qed

lemma sequence_low: "uint ((w :: u32) AND SEQUENCE_LOCKTIME_MASK) = uint w mod 2 ^ 16"
proof -
  have "uint SEQUENCE_LOCKTIME_MASK = mask 16" by code_simp
  then show ?thesis by (simp add: unsigned_and_eq take_bit_eq_mask [symmetric] take_bit_eq_mod)
qed

lemma sequence_time: "uint (push_bit SEQUENCE_LOCKTIME_GRANULARITY ((w :: u32) AND SEQUENCE_LOCKTIME_MASK)) = 512 * (uint w mod 2 ^ 16)"
proof -
  have g: "SEQUENCE_LOCKTIME_GRANULARITY = 9" by code_simp
  have "512 * (uint w mod 2 ^ 16) < 2 ^ 32" "0 \<le> uint w mod 2 ^ 16" using pos_mod_bound [of "2 ^ 16" "uint w"] by simp_all
  then show ?thesis unfolding g unsigned_push_bit_eq sequence_low by (simp add: push_bit_eq_mult take_bit_eq_mod mult.commute)
qed

lemma CheckSequence_fields:
  assumes "tx_CheckSequence tx nIn n = Inr True" "nIn < length (vin tx)"
  shows "2 \<le> tx_nVersion tx mod 2 ^ 32" "nSequence (vin tx ! nIn) AND SEQUENCE_LOCKTIME_DISABLE_FLAG = 0"
    "bit (uint (nSequence (vin tx ! nIn))) 22 \<longleftrightarrow> bit n 22" "n mod 2 ^ 16 \<le> uint (nSequence (vin tx ! nIn)) mod 2 ^ 16"
proof -
  let ?w = "uint (nSequence (vin tx ! nIn))"
  note iff = tx_CheckSequence_iff [OF assms(2), of n]
  show "2 \<le> tx_nVersion tx mod 2 ^ 32" "nSequence (vin tx ! nIn) AND SEQUENCE_LOCKTIME_DISABLE_FLAG = 0" using assms(1) iff by blast+
  have t: "uint SEQUENCE_LOCKTIME_TYPE_FLAG = 2 ^ 22" by code_simp
  have l: "0 \<le> x mod 2 ^ 16" "x mod 2 ^ 16 < 2 ^ 22" for x :: int using pos_mod_bound [of "2 ^ 16" x] by simp_all
  have "((if bit ?w 22 then 2 ^ 22 else 0) + ?w mod 2 ^ 16 < 2 ^ 22 \<longleftrightarrow> (if bit n 22 then 2 ^ 22 else 0) + n mod 2 ^ 16 < 2 ^ 22) \<and>
     (if bit n 22 then 2 ^ 22 else 0) + n mod 2 ^ 16 \<le> (if bit ?w 22 then 2 ^ 22 else 0) + ?w mod 2 ^ 16"
    using assms(1) unfolding iff Let_def unsigned_and_eq sequence_fields t by blast
  then show "bit ?w 22 \<longleftrightarrow> bit n 22" "n mod 2 ^ 16 \<le> ?w mod 2 ^ 16"
    using l [of n] l [of ?w] by (auto split: if_splits)
qed

text \<open>C34. Relative lock times reach from the script to the chain: if \<open>OP_CHECKSEQUENCEVERIFY\<close> passes with
  the transaction's own checker on an argument \<open>v\<close> that is not disabled, and \<open>SequenceLocks\<close> lets the
  transaction into the block, then the coin it spends has the age that \<open>v\<close> encodes: its height and the low
  16 bits add up to at most the height of the block, or, when bit 22 is set, the median time of the block's
  parent is at least as many units of 512 seconds later than the median time before the coin's block.\<close>

theorem csv_delays_spend:
  assumes "op_checksequenceverify (TransactionSignatureChecker cr Verify tx nIn amount txdata) flags s = Inr s'"
    and "flag_set flags SCRIPT_VERIFY_CHECKSEQUENCEVERIFY" and "stk s = v # st" and "script_num flags 5 v = Inr n"
    and "num_and n 0x80000000 = 0" and "nIn < length (vin tx)"
    and "SequenceLocks m tx LOCKTIME_VERIFY_SEQUENCE prevHeights block = Inr (True, hs)"
  shows "\<exists>b p. m block = Some b \<and> pprev b = Some p \<and>
    (if bit n 22
     then \<exists>q t t'. GetAncestor m block (max (prevHeights ! nIn - 1) 0) = Inr (Some q) \<and>
       GetMedianTimePast m q = Inr t \<and> GetMedianTimePast m p = Inr t' \<and> t + 512 * (n mod 2 ^ 16) \<le> t'
     else prevHeights ! nIn + n mod 2 ^ 16 \<le> nHeight b)"
proof -
  let ?w = "nSequence (vin tx ! nIn)"
  have cs: "tx_CheckSequence tx nIn n = Inr True" by (rule csv_success [OF assms(1-3)]) (use assms(4,5) in simp)
  note f = CheckSequence_fields [OF cs assms(6)]
  have "LOCKTIME_VERIFY_SEQUENCE AND LOCKTIME_VERIFY_SEQUENCE \<noteq> 0" by code_simp
  then obtain b p t mins where
    b: "m block = Some b" "pprev b = Some p" "GetMedianTimePast m p = Inr t" "fst mins < nHeight b" "snd mins < t"
    and l: "input_lock m block (vin tx ! nIn) (prevHeights ! nIn) mins"
    by (rule SequenceLocks_locks [OF assms(7) _ f(1)]) (use assms(6) in simp)
  have l': "if bit n 22
      then \<exists>q t. GetAncestor m block (max (prevHeights ! nIn - 1) 0) = Inr (Some q) \<and> GetMedianTimePast m q = Inr t \<and>
        t + 512 * (uint ?w mod 2 ^ 16) - 1 \<le> snd mins
      else prevHeights ! nIn + uint ?w mod 2 ^ 16 - 1 \<le> fst mins"
    using l f(2) unfolding input_lock_def sequence_bit22 sequence_time sequence_low f(3) by blast
  show ?thesis
  proof (cases "bit n 22")
    case True
    then obtain q t0 where q: "GetAncestor m block (max (prevHeights ! nIn - 1) 0) = Inr (Some q)" "GetMedianTimePast m q = Inr t0"
      "t0 + 512 * (uint ?w mod 2 ^ 16) - 1 \<le> snd mins" using l' unfolding if_P [OF True] by blast
    have "t0 + 512 * (n mod 2 ^ 16) \<le> t" using q(3) b(5) f(4) by linarith
    then show ?thesis unfolding if_P [OF True] using b(1-3) q(1,2) by blast
  next
    case False
    have "prevHeights ! nIn + n mod 2 ^ 16 \<le> nHeight b" using l' b(4) f(4) unfolding if_not_P [OF False] by linarith
    then show ?thesis unfolding if_not_P [OF False] using b(1,2) by blast
  qed
qed

theorem csv_delays_spend_witness:
  "\<exists>b p. fork_store 2 = Some b \<and> pprev b = Some p \<and>
    (if bit (1 :: int) 22
     then \<exists>q t t'. GetAncestor fork_store 2 (max ([0] ! 0 - 1) 0) = Inr (Some q) \<and>
       GetMedianTimePast fork_store q = Inr t \<and> GetMedianTimePast fork_store p = Inr t' \<and> t + 512 * (1 mod 2 ^ 16) \<le> t'
     else [0] ! 0 + 1 mod 2 ^ 16 \<le> nHeight b)"
proof (rule csv_delays_spend)
  let ?s = "\<lparr>stk = [[1]], altstk = [], vfExec = [], nOpCount = 0, codehash = []\<rparr>"
  show "op_checksequenceverify (TransactionSignatureChecker plain_crypto (\<lambda>_ _ _. True) locked_spend 0 0 None)
      SCRIPT_VERIFY_CHECKSEQUENCEVERIFY ?s = Inr ?s" by code_simp
  show "flag_set SCRIPT_VERIFY_CHECKSEQUENCEVERIFY SCRIPT_VERIFY_CHECKSEQUENCEVERIFY"
    "script_num SCRIPT_VERIFY_CHECKSEQUENCEVERIFY 5 [1] = Inr 1" "num_and 1 0x80000000 = 0" by code_simp+
  show "stk ?s = [1] # []" by simp
  show "0 < length (vin locked_spend)" by (simp add: locked_spend_def)
  show "SequenceLocks fork_store locked_spend LOCKTIME_VERIFY_SEQUENCE [0] 2 = Inr (True, [0])" by code_simp
qed

end
