(* ===== verification/Verifier.thy ===== *)
theory Verifier
  imports Text_Prelude
begin

text \<open>
  Verifier strings of restricted assets: the boolean expressions of \<open>src/src/LibBoolEE.cpp\<close>, with the
  error report of \<open>src/src/assets/assets.h\<close>. Strings are shorter than \<open>2 ^ 31\<close>, and the classification of
  characters is that of the C locale, which knows no letters outside ASCII.

  An exception is \<open>Inl\<close> of its text and of the report as the caller finds it; without a report object the
  same exceptions are thrown.
\<close>

datatype ErrorType = NotSetError | InvalidQualifierName | EmptyString | LengthToLarge | InvalidSubExpressionFormula
  | InvalidSyntax | AssetDoesntExist | FailedToVerifyAgainstAddress | EmptySubExpression | UnknownOperator
  | ParenthesisParity | VariableNotFound

record ErrorReport =
  err_type :: ErrorType
  strDevData :: string
  vecUserData :: "string list"

type_synonym 'a verifier_result = "(string \<times> ErrorReport) + 'a"

definition isalnum :: "char \<Rightarrow> bool" where
  "isalnum c \<longleftrightarrow> isdigit c \<or> (let n = of_char c :: nat in 65 \<le> n \<and> n \<le> 90 \<or> 97 \<le> n \<and> n \<le> 122)"

definition belongsToName :: "char \<Rightarrow> bool" where
  "belongsToName ch \<longleftrightarrow> isalnum ch \<or> ch = CHR ''_'' \<or> ch = CHR ''#'' \<or> ch = CHR ''.''"

definition removeWhitespaces :: "string \<Rightarrow> string" where
  "removeWhitespaces source = filter (\<lambda>c. \<not> isspace c) source"

definition removeCharacter :: "string \<Rightarrow> char \<Rightarrow> string" where
  "removeCharacter source ch = filter (\<lambda>c. ch \<noteq> c) source"

text \<open>The loop of \<open>singleParse\<close> over the characters from index \<open>i\<close> on; \<open>None\<close> is a \<open>start_pos\<close> of \<open>-1\<close>.\<close>

fun parse_loop :: "string \<Rightarrow> char \<Rightarrow> string \<Rightarrow> nat \<Rightarrow> nat option \<Rightarrow> int \<Rightarrow> string list \<Rightarrow>
   (string list \<times> nat option \<times> int) verifier_result" where
  "parse_loop formula op [] i start_pos parity_count subexpressions = Inr (subexpressions, start_pos, parity_count)"
| "parse_loop formula op (ch # rest) i start_pos parity_count subexpressions =
     (if ch = CHR '')'' then parse_loop formula op rest (i + 1) start_pos (parity_count - 1) subexpressions
      else if ch = CHR ''('' then
        parse_loop formula op rest (i + 1) (if start_pos = None then Some i else start_pos) (parity_count + 1) subexpressions
      else if parity_count = 0 then
        (case start_pos of
           None \<Rightarrow>
             parse_loop formula op rest (i + 1) (if belongsToName ch \<or> ch = CHR ''!'' then Some i else None) parity_count subexpressions
         | Some start \<Rightarrow>
             if \<not> (belongsToName ch \<or> ch = CHR ''!'') then
               if op = ch then
                 parse_loop formula op rest (i + 1) (Some (i + 1)) parity_count (subexpressions @ [take (i - start) (drop start formula)])
               else if ch \<noteq> CHR ''&'' \<and> ch \<noteq> CHR ''|'' then
                 Inl (''Unknown operator '' @ [CHR 0x27] @ [ch] @ [CHR 0x27] @ '' in the (sub)expression '' @ [CHR 0x27] @ formula @ [CHR 0x27] @ ''.'',
                   \<lparr>err_type = EmptySubExpression, strDevData = ''invalid-verifier-unknown-operator-in-expression'', vecUserData = [[ch], formula]\<rparr>)
               else parse_loop formula op rest (i + 1) start_pos parity_count subexpressions
             else parse_loop formula op rest (i + 1) start_pos parity_count subexpressions)
      else parse_loop formula op rest (i + 1) start_pos parity_count subexpressions)"

definition singleParse :: "string \<Rightarrow> char \<Rightarrow> string list verifier_result" where
  "singleParse formula op =
     bindR (parse_loop formula op formula 0 None 0 []) (\<lambda>(subexpressions, start_pos, parity_count).
       let subexpressions = (case start_pos of None \<Rightarrow> subexpressions | Some start \<Rightarrow> subexpressions @ [drop start formula]) in
       if parity_count \<noteq> 0 then
         Inl (''Wrong parenthesis parity in the (sub)expression '' @ [CHR 0x27] @ formula @ [CHR 0x27] @ ''.'',
           \<lparr>err_type = ParenthesisParity, strDevData = ''invalid-verifier-parenthesis-parity'', vecUserData = [formula]\<rparr>)
       else Inr subexpressions)"

definition pieces_ok :: "string \<Rightarrow> nat \<Rightarrow> nat option \<Rightarrow> string list \<Rightarrow> bool" where
  "pieces_ok f i start subs \<longleftrightarrow> (\<forall>s \<in> set subs. length s < length f) \<and>
     (case start of None \<Rightarrow> subs = [] | Some k \<Rightarrow> k \<le> i \<and> (subs \<noteq> [] \<longrightarrow> 1 \<le> k))"

lemma pieces_ok_step:
  "pieces_ok f i start subs \<Longrightarrow> pieces_ok f (i + 1) start subs"
  "pieces_ok f i None subs \<Longrightarrow> pieces_ok f (i + 1) (Some i) subs"
  "pieces_ok f i (Some k) subs \<Longrightarrow> i < length f \<Longrightarrow> pieces_ok f (i + 1) (Some (i + 1)) (subs @ [take (i - k) (drop k f)])"
  by (auto simp: pieces_ok_def split: option.splits)

lemma parse_loop_step:
  assumes "parse_loop f op (ch # rest) i start par subs = Inr r" "pieces_ok f i start subs" "i < length f"
  obtains start' par' subs' where "parse_loop f op rest (i + 1) start' par' subs' = Inr r" "pieces_ok f (i + 1) start' subs'"
proof -
  have "(\<exists>par'. parse_loop f op rest (i + 1) start par' subs = Inr r) \<or>
    (start = None \<and> (\<exists>par'. parse_loop f op rest (i + 1) (Some i) par' subs = Inr r)) \<or>
    (\<exists>k. start = Some k \<and> parse_loop f op rest (i + 1) (Some (i + 1)) par (subs @ [take (i - k) (drop k f)]) = Inr r)"
    using assms(1) by (cases start) (auto split: if_splits)
  then show ?thesis using that pieces_ok_step assms(2,3) by blast
qed

lemma parse_loop_pieces:
  "parse_loop f op rest i start par subs = Inr (subs', start', par') \<Longrightarrow> pieces_ok f i start subs \<Longrightarrow>
   i + length rest = length f \<Longrightarrow> pieces_ok f (length f) start' subs'"
proof (induction rest arbitrary: i start par subs)
  case (Cons ch rest)
  obtain start1 par1 subs1 where "parse_loop f op rest (i + 1) start1 par1 subs1 = Inr (subs', start', par')" "pieces_ok f (i + 1) start1 subs1"
    by (rule parse_loop_step [OF Cons.prems(1,2)]) (use Cons.prems(3) in auto)
  then show ?case using Cons.IH Cons.prems(3) by simp
qed simp

lemma singleParse_shorter:
  assumes "singleParse f op = Inr subs" "length subs \<noteq> 1" "s \<in> set subs"
  shows "length s < length f"
proof -
  obtain subs' start par where p: "parse_loop f op f 0 None 0 [] = Inr (subs', start, par)"
    "subs = (case start of None \<Rightarrow> subs' | Some k \<Rightarrow> subs' @ [drop k f])"
    using assms(1) by (auto simp: singleParse_def Let_def bindR_Inr_iff split: if_splits)
  have "pieces_ok f (length f) start subs'" using parse_loop_pieces [OF p(1)] by (simp add: pieces_ok_def)
  then show ?thesis using p(2) assms(2,3) by (cases f) (auto simp: pieces_ok_def split: option.splits)
qed

text \<open>The calls of \<open>resolve\<close> in the body of \<open>resolveRec\<close> and in its loops go to the first argument.\<close>

fun resolve_all :: "(string \<Rightarrow> bool verifier_result) \<Rightarrow> char \<Rightarrow> string list \<Rightarrow> bool \<Rightarrow> bool verifier_result" where
  "resolve_all resolve current_op [] res = Inr res"
| "resolve_all resolve current_op (s # ss) res =
     bindR (resolve s) (\<lambda>b. resolve_all resolve current_op ss (if current_op = CHR ''|'' then res \<or> b else res \<and> b))"

definition resolveRec :: "(string \<Rightarrow> bool verifier_result) \<Rightarrow> string \<Rightarrow> (string \<rightharpoonup> bool) \<Rightarrow> bool verifier_result" where
  "resolveRec resolve source valuation =
     (if source = [] then
        Inl (''An empty subexpression was encountered'',
          \<lparr>err_type = EmptySubExpression, strDevData = ''bad-txns-null-verifier-empty-sub-expression'', vecUserData = [source]\<rparr>)
      else
        bindR (bindR (singleParse source CHR ''|'') (\<lambda>subexpressions.
                 if length subexpressions = 1
                 then bindR (singleParse source CHR ''&'') (\<lambda>subexpressions. Inr (CHR ''&'', subexpressions))
                 else Inr (CHR ''|'', subexpressions))) (\<lambda>(current_op, subexpressions).
          if length subexpressions = 0 then
            Inl (''The subexpression '' @ source @ '' is not a valid formula.'',
              \<lparr>err_type = InvalidQualifierName, strDevData = ''bad-txns-null-verifier-no-sub-expressions'', vecUserData = [source]\<rparr>)
          else if length subexpressions = 1 then
            if hd source = CHR ''!'' then bindR (resolve (drop 1 source)) (\<lambda>b. Inr (\<not> b))
            else if hd source = CHR ''('' then resolve (take (length source - 2) (drop 1 source))
            else if source = ''1'' then Inr True
            else if source = ''0'' then Inr False
            else (case valuation source of
                None \<Rightarrow> Inl (''Variable '' @ [CHR 0x27] @ source @ [CHR 0x27] @ '' not found in the interpretation.'',
                  \<lparr>err_type = VariableNotFound, strDevData = ''bad-txns-null-verifier-variable-not-found'', vecUserData = [source]\<rparr>)
              | Some b \<Rightarrow> Inr b)
          else resolve_all resolve current_op subexpressions (current_op \<noteq> CHR ''|'')))"

lemma top_level_shorter:
  assumes "bindR (singleParse f CHR ''|'') (\<lambda>subs. if length subs = 1 then bindR (singleParse f CHR ''&'') (\<lambda>subs. Inr (CHR ''&'', subs))
      else Inr (CHR ''|'', subs)) = Inr (op, subs)" "length subs \<noteq> 1" "s \<in> set subs"
  shows "length s < length f"
  using assms singleParse_shorter by (auto simp: bindR_Inr_iff split: if_splits)

lemma resolve_all_cong: "(\<And>s. s \<in> set ss \<Longrightarrow> f s = g s) \<Longrightarrow> resolve_all f op ss r = resolve_all g op ss r"
proof (induction ss arbitrary: r)
  case (Cons s ss)
  then have "f s = g s" "\<And>r. resolve_all f op ss r = resolve_all g op ss r" by simp_all
  then show ?case by simp
qed simp

text \<open>\<open>resolve\<close> is only called on shorter strings.\<close>

lemma resolveRec_cong [fundef_cong]:
  assumes "source = source'" "valuation = valuation'" "\<And>s. length s < length source' \<Longrightarrow> f s = g s"
  shows "resolveRec f source valuation = resolveRec g source' valuation'"
proof (cases "source' = []")
  case True
  then show ?thesis unfolding resolveRec_def assms(1,2) by simp
next
  case False
  let ?p = "bindR (singleParse source' CHR ''|'') (\<lambda>subs. if length subs = 1 then bindR (singleParse source' CHR ''&'') (\<lambda>subs. Inr (CHR ''&'', subs))
      else Inr (CHR ''|'', subs))"
  have d: "f (drop 1 source') = g (drop 1 source')" "f (take (length source' - 2) (drop 1 source')) = g (take (length source' - 2) (drop 1 source'))"
    using False by (auto intro!: assms(3))
  show ?thesis
  proof (cases ?p)
    case (Inl e)
    then show ?thesis unfolding resolveRec_def assms(1,2) by simp
  next
    case (Inr x)
    obtain op subs where x: "x = (op, subs)" by force
    have "resolve_all f op subs r = resolve_all g op subs r" if "length subs \<noteq> 1" for r
      using top_level_shorter [OF Inr [unfolded x] that] assms(3) by (intro resolve_all_cong) blast
    then show ?thesis using False d unfolding resolveRec_def assms(1,2) Inr x by simp
  qed
qed

function resolve :: "string \<Rightarrow> (string \<rightharpoonup> bool) \<Rightarrow> bool verifier_result" where
  "resolve source valuation = resolveRec (\<lambda>s. resolve s valuation) (removeWhitespaces source) valuation"
  by pat_completeness auto

termination
proof (relation "measure (\<lambda>(source, valuation). length source)")
  show "((s, valuation), source, valuation) \<in> measure (\<lambda>(source, valuation). length source)"
    if "length s < length (removeWhitespaces source)" for s source and valuation :: "string \<rightharpoonup> bool"
    using that unfolding removeWhitespaces_def by (auto intro: less_le_trans [OF _ length_filter_le])
qed simp

declare resolve.simps [simp del]

subsection \<open>Formulas\<close>

text \<open>Formulas as they are written: \<open>&\<close> binds stronger than \<open>|\<close>, and \<open>!\<close> stronger than both.\<close>

datatype vexp = Name string | Lit bool | Neg vexp | Paren vexp | Conj "vexp list" | Disj "vexp list"

fun join :: "char \<Rightarrow> string list \<Rightarrow> string" where
  "join op [] = []"
| "join op [u] = u"
| "join op (u # v # us) = u @ op # join op (v # us)"

fun vprint :: "vexp \<Rightarrow> string" where
  "vprint (Name s) = s"
| "vprint (Lit b) = (if b then ''1'' else ''0'')"
| "vprint (Neg e) = CHR ''!'' # vprint e"
| "vprint (Paren e) = CHR ''('' # vprint e @ '')''"
| "vprint (Conj es) = join CHR ''&'' (map vprint es)"
| "vprint (Disj es) = join CHR ''|'' (map vprint es)"

fun unary :: "vexp \<Rightarrow> bool" where
  "unary (Conj es) = False"
| "unary (Disj es) = False"
| "unary e = True"

fun is_disj :: "vexp \<Rightarrow> bool" where
  "is_disj (Disj es) = True"
| "is_disj e = False"

fun wf_vexp :: "vexp \<Rightarrow> bool" where
  "wf_vexp (Name s) \<longleftrightarrow> s \<noteq> [] \<and> list_all belongsToName s \<and> s \<noteq> ''0'' \<and> s \<noteq> ''1''"
| "wf_vexp (Lit b) \<longleftrightarrow> True"
| "wf_vexp (Neg e) \<longleftrightarrow> unary e \<and> wf_vexp e"
| "wf_vexp (Paren e) \<longleftrightarrow> wf_vexp e"
| "wf_vexp (Conj es) \<longleftrightarrow> 2 \<le> length es \<and> (\<forall>e \<in> set es. unary e \<and> wf_vexp e)"
| "wf_vexp (Disj es) \<longleftrightarrow> 2 \<le> length es \<and> (\<forall>e \<in> set es. \<not> is_disj e \<and> wf_vexp e)"

fun veval :: "(string \<rightharpoonup> bool) \<Rightarrow> vexp \<Rightarrow> bool" where
  "veval v (Name s) = (v s = Some True)"
| "veval v (Lit b) = b"
| "veval v (Neg e) = (\<not> veval v e)"
| "veval v (Paren e) = veval v e"
| "veval v (Conj es) = list_all (veval v) es"
| "veval v (Disj es) = list_ex (veval v) es"

fun names :: "vexp \<Rightarrow> string set" where
  "names (Name s) = {s}"
| "names (Lit b) = {}"
| "names (Neg e) = names e"
| "names (Paren e) = names e"
| "names (Conj es) = (\<Union>e \<in> set es. names e)"
| "names (Disj es) = (\<Union>e \<in> set es. names e)"

subsection \<open>Depth\<close>

definition bal :: "string \<Rightarrow> int" where
  "bal u = int (count_list u CHR ''('') - int (count_list u CHR '')'')"

lemma bal_simps [simp]:
  "bal [] = 0" "bal (c # u) = (if c = CHR ''('' then 1 else if c = CHR '')'' then - 1 else 0) + bal u" "bal (u @ v) = bal u + bal v"
  by (simp_all add: bal_def)

definition closed :: "string \<Rightarrow> bool" where
  "closed u \<longleftrightarrow> bal u = 0 \<and> (\<forall>k. 0 \<le> bal (take k u))"

lemma closed_Nil [simp]: "closed []"
  by (simp add: closed_def)

lemma closed_append: "closed u \<Longrightarrow> closed v \<Longrightarrow> closed (u @ v)"
  by (auto simp: closed_def)

lemma closed_Cons: "c \<noteq> CHR ''('' \<Longrightarrow> c \<noteq> CHR '')'' \<Longrightarrow> closed u \<Longrightarrow> closed (c # u)"
  by (auto simp: closed_def take_Cons split: nat.split)

lemma closed_paren: "closed u \<Longrightarrow> closed (CHR ''('' # u @ '')'')"
  by (auto simp: closed_def take_Cons split: nat.split)

text \<open>The characters at the outermost level satisfy \<open>P\<close>.\<close>

fun tops :: "(char \<Rightarrow> bool) \<Rightarrow> int \<Rightarrow> string \<Rightarrow> bool" where
  "tops P d [] \<longleftrightarrow> True"
| "tops P d (c # u) \<longleftrightarrow>
     (if c = CHR '')'' then tops P (d - 1) u else if c = CHR ''('' then tops P (d + 1) u
      else (d = 0 \<longrightarrow> P c) \<and> tops P d u)"

lemma tops_append: "tops P d (u @ v) \<longleftrightarrow> tops P d u \<and> tops P (d + bal u) v"
  by (induction u arbitrary: d) (auto simp: algebra_simps)

lemma tops_inside: "(\<And>k. 0 < d + bal (take k u)) \<Longrightarrow> tops P d u"
proof (induction u arbitrary: d)
  case (Cons c u)
  have d: "0 < d" using Cons.prems [of 0] by simp
  have "0 < (d + (if c = CHR ''('' then 1 else if c = CHR '')'' then - 1 else 0)) + bal (take k u)" for k
    using Cons.prems [of "Suc k"] by simp
  from Cons.IH [OF this] show ?case using d by (auto split: if_splits)
qed simp

lemma tops_mono: "tops P d u \<Longrightarrow> (\<And>c. P c \<Longrightarrow> Q c) \<Longrightarrow> tops Q d u"
  by (induction u arbitrary: d) (auto split: if_splits)

lemma tops_paren: "closed u \<Longrightarrow> tops P 0 (CHR ''('' # u @ '')'')"
proof -
  assume u: "closed u"
  then have "0 < 1 + bal (take k u)" for k by (simp add: closed_def add_pos_nonneg)
  then have "tops P 1 u" by (rule tops_inside)
  then show ?thesis using u by (simp add: tops_append closed_def)
qed

definition operand_char :: "char \<Rightarrow> bool" where
  "operand_char c \<longleftrightarrow> belongsToName c \<or> c = CHR ''!''"

lemma name_chars:
  assumes "belongsToName c"
  shows "c \<noteq> CHR ''('' \<and> c \<noteq> CHR '')'' \<and> c \<noteq> CHR ''!'' \<and> c \<noteq> CHR ''&'' \<and> c \<noteq> CHR ''|'' \<and> \<not> isspace c"
  using assms by (auto simp: belongsToName_def isalnum_def isdigit_def isspace_def Let_def)

lemma closed_names: "list_all belongsToName s \<Longrightarrow> closed s"
  by (induction s) (auto intro!: closed_Cons dest: name_chars)

lemma tops_names: "list_all belongsToName s \<Longrightarrow> tops operand_char 0 s"
  by (induction s) (auto simp: operand_char_def dest: name_chars)

lemma closed_join: "\<forall>u \<in> set us. closed u \<Longrightarrow> op \<noteq> CHR ''('' \<Longrightarrow> op \<noteq> CHR '')'' \<Longrightarrow> closed (join op us)"
  by (induction op us rule: join.induct) (auto intro!: closed_append closed_Cons)

lemma tops_join:
  "\<forall>u \<in> set us. closed u \<and> tops P 0 u \<Longrightarrow> op \<noteq> CHR ''('' \<Longrightarrow> op \<noteq> CHR '')'' \<Longrightarrow> P op \<Longrightarrow> tops P 0 (join op us)"
  by (induction op us rule: join.induct) (auto simp: tops_append closed_def)

lemma closed_vprint: "wf_vexp e \<Longrightarrow> closed (vprint e)"
proof (induction e)
  case (Name s)
  then show ?case by (simp add: closed_names)
next
  case (Paren e)
  then show ?case using closed_paren by simp
next
  case (Conj es)
  then show ?case by (auto intro!: closed_join)
next
  case (Disj es)
  then show ?case by (auto intro!: closed_join)
qed (auto intro!: closed_Cons)

lemma vprint_unary: "unary e \<Longrightarrow> wf_vexp e \<Longrightarrow> tops operand_char 0 (vprint e)"
proof (induction e)
  case (Name s)
  then show ?case by (simp add: tops_names)
next
  case (Paren e)
  then show ?case using tops_paren [OF closed_vprint, of e] by simp
qed (auto simp: operand_char_def belongsToName_def isalnum_def isdigit_def)

lemma vprint_conj:
  assumes "\<not> is_disj e" "wf_vexp e"
  shows "tops (\<lambda>c. operand_char c \<or> c = CHR ''&'') 0 (vprint e)"
proof (cases e)
  case (Conj es)
  have "tops (\<lambda>c. operand_char c \<or> c = CHR ''&'') 0 (vprint x)" if "x \<in> set es" for x
    using assms(2) that unfolding Conj by (intro tops_mono [OF vprint_unary]) auto
  then show ?thesis using assms(2) closed_vprint unfolding Conj by (auto intro!: tops_join)
qed (use assms vprint_unary [of e] in \<open>auto elim!: tops_mono simp del: tops.simps vprint.simps\<close>)

text \<open>A formula begins with a character that starts an operand, and has no white space.\<close>

definition start_char :: "char \<Rightarrow> bool" where
  "start_char c \<longleftrightarrow> operand_char c \<or> c = CHR ''(''"

lemma join_Nil_iff: "join op us = [] \<longleftrightarrow> us = [] \<or> us = [[]]"
  by (induction op us rule: join.induct) auto

lemma hd_join: "us \<noteq> [] \<Longrightarrow> hd us \<noteq> [] \<Longrightarrow> hd (join op us) = hd (hd us)"
  by (induction op us rule: join.induct) auto

lemma vprint_start: "wf_vexp e \<Longrightarrow> vprint e \<noteq> [] \<and> start_char (hd (vprint e))"
proof (induction e)
  case (Name s)
  then show ?case by (cases s) (auto simp: start_char_def operand_char_def)
next
  case (Conj es)
  then show ?case by (cases es) (auto simp: hd_join join_Nil_iff)
next
  case (Disj es)
  then show ?case by (cases es) (auto simp: hd_join join_Nil_iff)
qed (auto simp: start_char_def operand_char_def belongsToName_def isalnum_def isdigit_def)

lemma removeWhitespaces_id: "\<forall>c \<in> set u. \<not> isspace c \<Longrightarrow> removeWhitespaces u = u"
  by (simp add: removeWhitespaces_def)

lemma set_join: "set (join op us) \<subseteq> insert op (\<Union>u \<in> set us. set u)"
  by (induction op us rule: join.induct) auto

lemma op_chars:
  "\<not> isspace CHR ''&''" "\<not> isspace CHR ''|''" "\<not> isspace CHR ''!''" "\<not> isspace CHR ''(''" "\<not> isspace CHR '')''" "\<not> isspace CHR ''0''"
  "\<not> isspace CHR ''1''" "\<not> operand_char CHR ''&''" "\<not> operand_char CHR ''|''" "\<not> operand_char CHR ''(''" "\<not> operand_char CHR '')''"
  by (simp_all add: isspace_def operand_char_def belongsToName_def isalnum_def isdigit_def)

lemma vprint_nospace: "wf_vexp e \<Longrightarrow> c \<in> set (vprint e) \<Longrightarrow> \<not> isspace c"
proof (induction e)
  case (Name s)
  then show ?case by (auto simp: list_all_iff dest: name_chars)
next
  case (Conj es)
  have "c = CHR ''&'' \<or> (\<exists>e \<in> set es. c \<in> set (vprint e))" using set_join [of "CHR ''&''" "map vprint es"] Conj.prems(2) by auto
  then show ?case using Conj op_chars by auto
next
  case (Disj es)
  have "c = CHR ''|'' \<or> (\<exists>e \<in> set es. c \<in> set (vprint e))" using set_join [of "CHR ''|''" "map vprint es"] Disj.prems(2) by auto
  then show ?case using Disj op_chars by auto
qed (auto simp: op_chars split: if_splits)

subsection \<open>Splitting\<close>

text \<open>The loop passes over a part that has no operator \<open>op\<close> at the outermost level.\<close>

lemma parse_loop_over:
  assumes "tops (\<lambda>c. operand_char c \<or> c \<noteq> op \<and> (c = CHR ''&'' \<or> c = CHR ''|'')) d u"
  shows "parse_loop f op (u @ r) i (Some st) d subs = parse_loop f op r (i + length u) (Some st) (d + bal u) subs"
  using assms
proof (induction u arbitrary: d i)
  case (Cons c u)
  consider "c = CHR '')''" | "c = CHR ''(''" | "c \<noteq> CHR '')''" "c \<noteq> CHR ''(''" by blast
  then show ?case
  proof cases
    case 1
    then show ?thesis using Cons.prems Cons.IH [of "d - 1" "i + 1"] by (simp add: algebra_simps)
  next
    case 2
    then show ?thesis using Cons.prems Cons.IH [of "d + 1" "i + 1"] by (simp add: algebra_simps)
  next
    case 3
    then have t: "d = 0 \<longrightarrow> operand_char c \<or> c \<noteq> op \<and> (c = CHR ''&'' \<or> c = CHR ''|'')"
      "parse_loop f op (u @ r) (i + 1) (Some st) d subs = parse_loop f op r (i + 1 + length u) (Some st) (d + bal u) subs"
      using Cons.prems Cons.IH [of d "i + 1"] by simp_all
    have "parse_loop f op (c # u @ r) i (Some st) d subs = parse_loop f op (u @ r) (i + 1) (Some st) d subs"
      using 3 t(1) unfolding operand_char_def by (cases "d = 0"; cases "belongsToName c \<or> c = CHR ''!''") auto
    then show ?thesis using 3 t(2) by simp
  qed
qed simp

lemma parse_loop_start:
  "start_char c \<Longrightarrow> parse_loop f op (c # r) i None 0 [] = parse_loop f op (c # r) i (Some i) 0 []"
  using op_chars by (cases "c = CHR ''(''"; cases "c = CHR '')''") (auto simp: start_char_def operand_char_def)

lemma parse_loop_join:
  assumes "\<forall>u \<in> set us. closed u \<and> tops (\<lambda>c. operand_char c \<or> c \<noteq> op \<and> (c = CHR ''&'' \<or> c = CHR ''|'')) 0 u"
    and "us \<noteq> []" "op = CHR ''&'' \<or> op = CHR ''|''" "f = p @ join op us"
  shows "parse_loop f op (join op us) (length p) (Some (length p)) 0 subs =
    Inr (subs @ butlast us, Some (length f - length (last us)), 0)"
  using assms
proof (induction op us arbitrary: p subs rule: join.induct)
  case (2 op u)
  have "parse_loop f op (u @ []) (length p) (Some (length p)) 0 subs = parse_loop f op [] (length p + length u) (Some (length p)) (0 + bal u) subs"
    by (rule parse_loop_over) (use 2 in simp)
  then show ?case using 2 by (simp add: closed_def)
next
  case (3 op u v us)
  let ?r = "join op (v # us)"
  have "parse_loop f op (u @ op # ?r) (length p) (Some (length p)) 0 subs = parse_loop f op (op # ?r) (length p + length u) (Some (length p)) (0 + bal u) subs"
    by (rule parse_loop_over) (use 3 in simp)
  also have "\<dots> = parse_loop f op ?r (length p + length u + 1) (Some (length p + length u + 1)) 0 (subs @ [u])"
    using 3 name_chars [of op] by (auto simp: closed_def)
  also have "\<dots> = Inr ((subs @ [u]) @ butlast (v # us), Some (length f - length (last (v # us))), 0)"
    using 3(1) [of "p @ u @ [op]" "subs @ [u]"] 3(2-) by simp
  finally show ?case by simp
qed simp

lemma drop_join: "us \<noteq> [] \<Longrightarrow> \<exists>p. join op us = p @ last us"
proof (induction op us rule: join.induct)
  case (3 op u v us)
  then obtain p where "join op (v # us) = p @ last (v # us)" by auto
  then show ?case by (intro exI [of _ "u @ op # p"]) simp
qed auto

definition junk_char :: "char \<Rightarrow> bool" where
  "junk_char c \<longleftrightarrow> \<not> start_char c \<and> c \<noteq> CHR '')'' \<and> \<not> isspace c"

lemma parse_loop_junk: "list_all junk_char j \<Longrightarrow> parse_loop f op (j @ r) i None 0 [] = parse_loop f op r (i + length j) None 0 []"
  by (induction j arbitrary: i) (auto simp: junk_char_def start_char_def operand_char_def)

lemma singleParse_junk:
  assumes "\<forall>u \<in> set us. closed u \<and> tops (\<lambda>c. operand_char c \<or> c \<noteq> op \<and> (c = CHR ''&'' \<or> c = CHR ''|'')) 0 u"
    and "us \<noteq> []" "op = CHR ''&'' \<or> op = CHR ''|''" "hd us \<noteq> []" "start_char (hd (hd us))" "list_all junk_char j"
  shows "singleParse (j @ join op us) op = Inr us"
proof -
  let ?f = "j @ join op us"
  obtain c r where f: "join op us = c # r" using assms(2,4) by (cases "join op us") (auto simp: join_Nil_iff)
  have c: "start_char c" using f assms(2,4,5) hd_join [of us op] by simp
  have "parse_loop ?f op (join op us) (length j) (Some (length j)) 0 [] = Inr (butlast us, Some (length ?f - length (last us)), 0)"
    using parse_loop_join [OF assms(1-3), of ?f j "[]"] unfolding append_Nil by blast
  then have "parse_loop ?f op (join op us) (length j) None 0 [] = Inr (butlast us, Some (length ?f - length (last us)), 0)"
    using parse_loop_start [OF c, of ?f op r "length j"] unfolding f by metis
  then have "parse_loop ?f op ?f 0 None 0 [] = Inr (butlast us, Some (length ?f - length (last us)), 0)"
    using parse_loop_junk [OF assms(6), of ?f op "join op us" 0] by simp
  moreover obtain p where "join op us = p @ last us" using drop_join [OF assms(2)] by blast
  then have "drop (length ?f - length (last us)) ?f = last us" by simp
  ultimately show ?thesis unfolding singleParse_def using assms(2) by (simp del: parse_loop.simps)
qed

lemmas singleParse_join = singleParse_junk [where j = "[]", simplified]

subsection \<open>Evaluation\<close>

lemma resolve_vprint: "wf_vexp e \<Longrightarrow> resolve (vprint e) v = resolveRec (\<lambda>s. resolve s v) (vprint e) v"
  using removeWhitespaces_id [of "vprint e"] vprint_nospace [of e] by (subst resolve.simps) simp

lemma parse_unary:
  assumes "unary e" "wf_vexp e" "op = CHR ''&'' \<or> op = CHR ''|''"
  shows "singleParse (vprint e) op = Inr [vprint e]"
proof -
  have "tops (\<lambda>c. operand_char c \<or> c \<noteq> op \<and> (c = CHR ''&'' \<or> c = CHR ''|'')) 0 (vprint e)"
    by (rule tops_mono [OF vprint_unary [OF assms(1,2)]]) simp
  then show ?thesis using singleParse_join [of "[vprint e]" op] closed_vprint [OF assms(2)] vprint_start [OF assms(2)] assms(3) by simp
qed

lemma parse_conj_by_or:
  assumes "\<not> is_disj e" "wf_vexp e" "list_all junk_char j"
  shows "singleParse (j @ vprint e) CHR ''|'' = Inr [vprint e]"
proof -
  have "tops (\<lambda>c. operand_char c \<or> c \<noteq> CHR ''|'' \<and> (c = CHR ''&'' \<or> c = CHR ''|'')) 0 (vprint e)"
    by (rule tops_mono [OF vprint_conj [OF assms(1,2)]]) auto
  then show ?thesis using singleParse_junk [of "[vprint e]" "CHR ''|''" j] assms(3) closed_vprint [OF assms(2)] vprint_start [OF assms(2)] by simp
qed

lemma parse_conj:
  assumes "wf_vexp (Conj es)" "list_all junk_char j"
  shows "singleParse (j @ vprint (Conj es)) CHR ''&'' = Inr (map vprint es)"
proof -
  have "\<forall>u \<in> set (map vprint es). closed u \<and> tops (\<lambda>c. operand_char c \<or> c \<noteq> CHR ''&'' \<and> (c = CHR ''&'' \<or> c = CHR ''|'')) 0 u"
    using assms(1) closed_vprint vprint_unary by (auto intro: tops_mono)
  moreover have "es \<noteq> []" "hd (map vprint es) \<noteq> []" "start_char (hd (hd (map vprint es)))"
    using assms(1) vprint_start [of "hd es"] by (cases es; auto)+
  ultimately show ?thesis using singleParse_junk [of "map vprint es" "CHR ''&''" j] assms(2) by simp
qed

lemma parse_disj:
  assumes "wf_vexp (Disj es)" "list_all junk_char j"
  shows "singleParse (j @ vprint (Disj es)) CHR ''|'' = Inr (map vprint es)"
proof -
  have "\<forall>u \<in> set (map vprint es). closed u \<and> tops (\<lambda>c. operand_char c \<or> c \<noteq> CHR ''|'' \<and> (c = CHR ''&'' \<or> c = CHR ''|'')) 0 u"
    using assms(1) closed_vprint vprint_conj by (auto intro: tops_mono)
  moreover have "es \<noteq> []" "hd (map vprint es) \<noteq> []" "start_char (hd (hd (map vprint es)))"
    using assms(1) vprint_start [of "hd es"] by (cases es; auto)+
  ultimately show ?thesis using singleParse_junk [of "map vprint es" "CHR ''|''" j] assms(2) by simp
qed

lemma resolveRec_binary:
  assumes "list_all junk_char j"
  shows "wf_vexp (Conj es) \<Longrightarrow> resolveRec (\<lambda>s. resolve s v) (j @ vprint (Conj es)) v = resolve_all (\<lambda>s. resolve s v) CHR ''&'' (map vprint es) True"
    and "wf_vexp (Disj es) \<Longrightarrow> resolveRec (\<lambda>s. resolve s v) (j @ vprint (Disj es)) v = resolve_all (\<lambda>s. resolve s v) CHR ''|'' (map vprint es) False"
proof -
  assume w: "wf_vexp (Conj es)"
  have "length es \<noteq> 1" "es \<noteq> []" "vprint (Conj es) \<noteq> []" using w vprint_start [OF w] by auto
  then show "resolveRec (\<lambda>s. resolve s v) (j @ vprint (Conj es)) v = resolve_all (\<lambda>s. resolve s v) CHR ''&'' (map vprint es) True"
    using parse_conj [OF w assms] parse_conj_by_or [OF _ w assms] by (simp add: resolveRec_def)
next
  assume w: "wf_vexp (Disj es)"
  have "length es \<noteq> 1" "es \<noteq> []" "vprint (Disj es) \<noteq> []" using w vprint_start [OF w] by auto
  then show "resolveRec (\<lambda>s. resolve s v) (j @ vprint (Disj es)) v = resolve_all (\<lambda>s. resolve s v) CHR ''|'' (map vprint es) False"
    using parse_disj [OF w assms] by (simp add: resolveRec_def)
qed

text \<open>What \<open>resolve\<close> returns for a formula: its value, or an exception when a name has no value.\<close>

definition answers :: "(string \<rightharpoonup> bool) \<Rightarrow> vexp \<Rightarrow> bool verifier_result \<Rightarrow> bool" where
  "answers v e r \<longleftrightarrow> (if names e \<subseteq> dom v then r = Inr (veval v e) else \<exists>x. r = Inl x)"

lemma resolve_all_answers:
  assumes "\<forall>e \<in> set es. answers v e (resolve (vprint e) v)"
  shows "if (\<Union>e \<in> set es. names e) \<subseteq> dom v
    then resolve_all (\<lambda>s. resolve s v) op (map vprint es) r = Inr (if op = CHR ''|'' then r \<or> list_ex (veval v) es else r \<and> list_all (veval v) es)
    else \<exists>x. resolve_all (\<lambda>s. resolve s v) op (map vprint es) r = Inl x"
  using assms
proof (induction es arbitrary: r)
  case (Cons e es)
  show ?case
  proof (cases "names e \<subseteq> dom v")
    case True
    then have e: "resolve (vprint e) v = Inr (veval v e)" using Cons.prems by (simp add: answers_def)
    show ?thesis using Cons.IH [of "if op = CHR ''|'' then r \<or> veval v e else r \<and> veval v e"] Cons.prems True
      by (auto simp: e split: if_splits)
  next
    case False
    then obtain x where "resolve (vprint e) v = Inl x" using Cons.prems by (auto simp: answers_def)
    then show ?thesis using False by auto
  qed
qed simp

lemma resolveRec_unary:
  assumes "unary e" "wf_vexp e"
  shows "resolveRec (\<lambda>s. resolve s v) (vprint e) v =
    (if hd (vprint e) = CHR ''!'' then bindR (resolve (drop 1 (vprint e)) v) (\<lambda>b. Inr (\<not> b))
     else if hd (vprint e) = CHR ''('' then resolve (take (length (vprint e) - 2) (drop 1 (vprint e))) v
     else if vprint e = ''1'' then Inr True
     else if vprint e = ''0'' then Inr False
     else (case v (vprint e) of
         None \<Rightarrow> Inl (''Variable '' @ [CHR 0x27] @ vprint e @ [CHR 0x27] @ '' not found in the interpretation.'',
           \<lparr>err_type = VariableNotFound, strDevData = ''bad-txns-null-verifier-variable-not-found'', vecUserData = [vprint e]\<rparr>)
       | Some b \<Rightarrow> Inr b))"
  using parse_unary [OF assms, of "CHR ''|''"] parse_unary [OF assms, of "CHR ''&''"] vprint_start [OF assms(2)]
  by (simp add: resolveRec_def)

lemma resolve_answers: "wf_vexp e \<Longrightarrow> answers v e (resolve (vprint e) v)"
proof (induction e)
  case (Name s)
  then have "hd s \<noteq> CHR ''!'' \<and> hd s \<noteq> CHR ''(''" using name_chars [of "hd s"] by (cases s) auto
  then show ?case unfolding resolve_vprint [OF Name.prems]
    using Name resolveRec_unary [of "Name s" v] by (auto simp: answers_def dom_def split: option.splits)
next
  case (Lit b)
  show ?case unfolding resolve_vprint [OF Lit.prems] using resolveRec_unary [of "Lit b" v] by (simp add: answers_def)
next
  case (Neg e)
  then show ?case unfolding resolve_vprint [OF Neg.prems]
    using resolveRec_unary [of "Neg e" v] by (auto simp: answers_def split: if_splits)
next
  case (Paren e)
  then show ?case unfolding resolve_vprint [OF Paren.prems]
    using resolveRec_unary [of "Paren e" v] by (auto simp: answers_def split: if_splits)
next
  case (Conj es)
  then have a: "\<forall>e \<in> set es. answers v e (resolve (vprint e) v)" by auto
  have "resolve (vprint (Conj es)) v = resolve_all (\<lambda>s. resolve s v) CHR ''&'' (map vprint es) True"
    using resolveRec_binary(1) [of "[]", OF _ Conj.prems] resolve_vprint [OF Conj.prems] by simp
  then show ?case using resolve_all_answers [OF a, of "CHR ''&''" True] by (auto simp: answers_def split: if_splits)
next
  case (Disj es)
  then have a: "\<forall>e \<in> set es. answers v e (resolve (vprint e) v)" by auto
  have "resolve (vprint (Disj es)) v = resolve_all (\<lambda>s. resolve s v) CHR ''|'' (map vprint es) False"
    using resolveRec_binary(2) [of "[]", OF _ Disj.prems] resolve_vprint [OF Disj.prems] by simp
  then show ?case using resolve_all_answers [OF a, of "CHR ''|''" False] by (auto simp: answers_def split: if_splits)
qed

text \<open>C38. \<open>LibBoolEE::resolve\<close> evaluates boolean formulas: for every string that, but for white space, is a
  formula with \<open>!\<close> before \<open>&\<close> before \<open>|\<close> and parentheses, it returns the value of the formula when the
  valuation has all its names, and throws when a name is missing. The constants are \<open>1\<close> and \<open>0\<close>, as the code
  has them; the \<open>tt\<close> and \<open>ff\<close> that the documentation gives as constants are names like any other.\<close>

theorem resolve_evaluates:
  assumes "wf_vexp e" and "removeWhitespaces source = vprint e"
  shows "if names e \<subseteq> dom valuation then resolve source valuation = Inr (veval valuation e)
    else \<exists>what report. resolve source valuation = Inl (what, report)"
proof -
  have "resolve source valuation = resolve (vprint e) valuation"
    unfolding resolve_vprint [OF assms(1)] resolve.simps [of source] assms(2) ..
  then show ?thesis using resolve_answers [OF assms(1), of valuation] unfolding answers_def by (auto split: if_splits)
qed

definition sample_formula :: vexp where
  "sample_formula = Disj [Conj [Name ''#KY_C'', Neg (Paren (Disj [Name ''#CI.A'', Lit False]))], Name ''#B'']"

theorem resolve_evaluates_witness:
  "resolve ''#KY_C & !(#CI.A | 0) | #B'' [''#KY_C'' \<mapsto> True, ''#CI.A'' \<mapsto> False, ''#B'' \<mapsto> False] = Inr True"
proof -
  have "wf_vexp sample_formula" by code_simp
  moreover have "removeWhitespaces ''#KY_C & !(#CI.A | 0) | #B'' = vprint sample_formula" by code_simp
  ultimately show ?thesis
    using resolve_evaluates [of sample_formula _ "[''#KY_C'' \<mapsto> True, ''#CI.A'' \<mapsto> False, ''#B'' \<mapsto> False]"]
    by (auto simp: sample_formula_def)
qed

text \<open>C39. Characters before the first operand are not looked at: in front of a formula whose outermost operator
  is \<open>&\<close> or \<open>|\<close>, any characters that are neither names nor \<open>!\<close> nor parentheses change nothing, so that
  strings like \<open>|A|B\<close> or \<open>%&A&B\<close>, which are not formulas, evaluate like \<open>A|B\<close> and \<open>A&B\<close>.\<close>

theorem resolve_skips_leading_junk:
  assumes "wf_vexp e" and "\<not> unary e" and "list_all junk_char junk"
  shows "resolve (junk @ vprint e) valuation = resolve (vprint e) valuation"
proof -
  have "\<forall>c \<in> set (junk @ vprint e). \<not> isspace c"
    using assms(3) vprint_nospace [OF assms(1)] by (auto simp: list_all_iff junk_char_def)
  then have "resolve (junk @ vprint e) valuation = resolveRec (\<lambda>s. resolve s valuation) (junk @ vprint e) valuation"
    using removeWhitespaces_id by (subst resolve.simps) simp
  moreover have "resolveRec (\<lambda>s. resolve s valuation) (junk @ vprint e) valuation = resolveRec (\<lambda>s. resolve s valuation) (vprint e) valuation"
    using assms resolveRec_binary [OF assms(3)] resolveRec_binary [of "[]"] by (cases e) simp_all
  ultimately show ?thesis using resolve_vprint [OF assms(1)] by simp
qed

theorem resolve_skips_leading_junk_witness:
  "resolve ''|%A|B'' [''A'' \<mapsto> True, ''B'' \<mapsto> False] = resolve ''A|B'' [''A'' \<mapsto> True, ''B'' \<mapsto> False]"
proof -
  have "wf_vexp (Disj [Name ''A'', Name ''B''])" "list_all junk_char ''|%''" by code_simp+
  then show ?thesis using resolve_skips_leading_junk [of "Disj [Name ''A'', Name ''B'']" "''|%''"] by simp
qed

end
