(* ===== verification/Siphash.thy ===== *)
theory Siphash
  imports RVC_Prelude
begin

text \<open>
  SipHash-2-4 of \<open>src/src/hash.cpp\<close>: the incremental \<open>CSipHasher\<close> and the two specialized functions that the
  hash tables of coins, of the memory pool and of compact blocks use.
\<close>

type_synonym sip_state = "u64 \<times> u64 \<times> u64 \<times> u64"

definition SIPROUND :: "sip_state \<Rightarrow> sip_state" where
  "SIPROUND v =
     (let ROTL = (\<lambda>(x :: u64) b. push_bit b x OR drop_bit (64 - b) x);
          (v0, v1, v2, v3) = v;
          v0 = v0 + v1; v1 = ROTL v1 13; v1 = v1 XOR v0;
          v0 = ROTL v0 32;
          v2 = v2 + v3; v3 = ROTL v3 16; v3 = v3 XOR v2;
          v0 = v0 + v3; v3 = ROTL v3 21; v3 = v3 XOR v0;
          v2 = v2 + v1; v1 = ROTL v1 17; v1 = v1 XOR v2;
          v2 = ROTL v2 32 in
      (v0, v1, v2, v3))"

text \<open>The steps that take in one word.\<close>

definition sip_word :: "u64 \<Rightarrow> sip_state \<Rightarrow> sip_state" where
  "sip_word d v =
     (let (v0, v1, v2, v3) = v;
          v3 = v3 XOR d;
          (v0, v1, v2, v3) = SIPROUND (SIPROUND (v0, v1, v2, v3));
          v0 = v0 XOR d in
      (v0, v1, v2, v3))"

record CSipHasher =
  sip_v :: sip_state
  sip_tmp :: u64
  sip_count :: int

definition CSipHasher_new :: "u64 \<Rightarrow> u64 \<Rightarrow> CSipHasher" where
  "CSipHasher_new k0 k1 =
     \<lparr>sip_v = (0x736f6d6570736575 XOR k0, 0x646f72616e646f6d XOR k1, 0x6c7967656e657261 XOR k0, 0x7465646279746573 XOR k1),
      sip_tmp = 0, sip_count = 0\<rparr>"

definition Write_u64 :: "CSipHasher \<Rightarrow> u64 \<Rightarrow> CSipHasher result" where
  "Write_u64 h data =
     bindR (assertR (sip_count h smod 8 = 0)) (\<lambda>_.
     bindR (i32 (sip_count h + 8)) (\<lambda>count. Inr (h\<lparr>sip_v := sip_word data (sip_v h), sip_count := count\<rparr>)))"

fun Write_bytes :: "CSipHasher \<Rightarrow> bytes \<Rightarrow> CSipHasher result" where
  "Write_bytes h [] = Inr h"
| "Write_bytes h (b # bs) =
     (let t = sip_tmp h OR push_bit (nat (8 * (sip_count h smod 8))) (ucast b) in
      bindR (i32 (sip_count h + 1)) (\<lambda>c.
        if c AND 7 = 0 then Write_bytes (h\<lparr>sip_v := sip_word t (sip_v h), sip_tmp := 0, sip_count := c\<rparr>) bs
        else Write_bytes (h\<lparr>sip_tmp := t, sip_count := c\<rparr>) bs))"

definition Finalize :: "CSipHasher \<Rightarrow> u64" where
  "Finalize h =
     (let t = sip_tmp h OR push_bit 56 (word_of_int (sip_count h));
          (v0, v1, v2, v3) = sip_word t (sip_v h);
          v2 = v2 XOR 0xFF;
          (v0, v1, v2, v3) = SIPROUND (SIPROUND (SIPROUND (SIPROUND (v0, v1, v2, v3)))) in
      v0 XOR v1 XOR v2 XOR v3)"

definition GetUint64 :: "uint256 \<Rightarrow> nat \<Rightarrow> u64" where
  "GetUint64 val pos =
     (let ptr = (\<lambda>i. ucast (val ! (pos * 8 + i)) :: u64) in
      ptr 0 OR push_bit 8 (ptr 1) OR push_bit 16 (ptr 2) OR push_bit 24 (ptr 3) OR push_bit 32 (ptr 4) OR
      push_bit 40 (ptr 5) OR push_bit 48 (ptr 6) OR push_bit 56 (ptr 7))"

definition SipHashUint256 :: "u64 \<Rightarrow> u64 \<Rightarrow> uint256 \<Rightarrow> u64" where
  "SipHashUint256 k0 k1 val =
     (let d = GetUint64 val 0;
          v0 = 0x736f6d6570736575 XOR k0;
          v1 = 0x646f72616e646f6d XOR k1;
          v2 = 0x6c7967656e657261 XOR k0;
          v3 = (0x7465646279746573 XOR k1) XOR d;
          (v0, v1, v2, v3) = SIPROUND (SIPROUND (v0, v1, v2, v3));
          v0 = v0 XOR d;
          d = GetUint64 val 1; v3 = v3 XOR d;
          (v0, v1, v2, v3) = SIPROUND (SIPROUND (v0, v1, v2, v3));
          v0 = v0 XOR d;
          d = GetUint64 val 2; v3 = v3 XOR d;
          (v0, v1, v2, v3) = SIPROUND (SIPROUND (v0, v1, v2, v3));
          v0 = v0 XOR d;
          d = GetUint64 val 3; v3 = v3 XOR d;
          (v0, v1, v2, v3) = SIPROUND (SIPROUND (v0, v1, v2, v3));
          v0 = v0 XOR d;
          v3 = v3 XOR push_bit 59 4;
          (v0, v1, v2, v3) = SIPROUND (SIPROUND (v0, v1, v2, v3));
          v0 = v0 XOR push_bit 59 4;
          v2 = v2 XOR 0xFF;
          (v0, v1, v2, v3) = SIPROUND (SIPROUND (SIPROUND (SIPROUND (v0, v1, v2, v3)))) in
      v0 XOR v1 XOR v2 XOR v3)"

definition SipHashUint256Extra :: "u64 \<Rightarrow> u64 \<Rightarrow> uint256 \<Rightarrow> u32 \<Rightarrow> u64" where
  "SipHashUint256Extra k0 k1 val extra =
     (let d = GetUint64 val 0;
          v0 = 0x736f6d6570736575 XOR k0;
          v1 = 0x646f72616e646f6d XOR k1;
          v2 = 0x6c7967656e657261 XOR k0;
          v3 = (0x7465646279746573 XOR k1) XOR d;
          (v0, v1, v2, v3) = SIPROUND (SIPROUND (v0, v1, v2, v3));
          v0 = v0 XOR d;
          d = GetUint64 val 1; v3 = v3 XOR d;
          (v0, v1, v2, v3) = SIPROUND (SIPROUND (v0, v1, v2, v3));
          v0 = v0 XOR d;
          d = GetUint64 val 2; v3 = v3 XOR d;
          (v0, v1, v2, v3) = SIPROUND (SIPROUND (v0, v1, v2, v3));
          v0 = v0 XOR d;
          d = GetUint64 val 3; v3 = v3 XOR d;
          (v0, v1, v2, v3) = SIPROUND (SIPROUND (v0, v1, v2, v3));
          v0 = v0 XOR d;
          d = push_bit 56 36 OR ucast extra; v3 = v3 XOR d;
          (v0, v1, v2, v3) = SIPROUND (SIPROUND (v0, v1, v2, v3));
          v0 = v0 XOR d;
          v2 = v2 XOR 0xFF;
          (v0, v1, v2, v3) = SIPROUND (SIPROUND (SIPROUND (SIPROUND (v0, v1, v2, v3)))) in
      v0 XOR v1 XOR v2 XOR v3)"

subsection \<open>Words and bytes\<close>

definition le_word :: "bytes \<Rightarrow> u64" where
  "le_word bs = foldr (OR) (map (\<lambda>i. push_bit (8 * i) (ucast (bs ! i))) [0..<length bs]) 0"

lemma int_and_7: "(c :: int) AND 7 = c mod 8"
proof -
  have "c AND mask 3 = c mod 2 ^ 3" unfolding take_bit_eq_mask [symmetric] take_bit_eq_mod ..
  then show ?thesis by (simp add: mask_eq_exp_minus_1)
qed

lemma le_word_snoc: "le_word (bs @ [b]) = le_word bs OR push_bit (8 * length bs) (ucast b)"
proof -
  have f: "foldr (OR) xs y = foldr (OR) xs 0 OR (y :: u64)" for xs y by (induction xs) (simp_all add: or.assoc)
  have m: "map (\<lambda>i. push_bit (8 * i) (ucast ((bs @ [b]) ! i)) :: u64) [0..<length bs] = map (\<lambda>i. push_bit (8 * i) (ucast (bs ! i))) [0..<length bs]"
    by (simp add: nth_append)
  have "le_word (bs @ [b]) = foldr (OR) (map (\<lambda>i. push_bit (8 * i) (ucast ((bs @ [b]) ! i)) :: u64) [0..<length bs]) (push_bit (8 * length bs) (ucast b))"
    by (simp add: le_word_def)
  then show ?thesis unfolding m le_word_def f [of _ "push_bit (8 * length bs) (ucast b)"] .
qed

lemma Write_bytes_append: "Write_bytes h (xs @ ys) = bindR (Write_bytes h xs) (\<lambda>h. Write_bytes h ys)"
proof (induction xs arbitrary: h)
  case (Cons b xs)
  then show ?case by (cases "i32 (sip_count h + 1)") (simp_all add: Let_def)
qed simp

text \<open>Bytes that do not fill a word are kept in \<open>tmp\<close>; the eighth completes the word.\<close>

lemma Write_bytes_part:
  assumes "sip_tmp h = 0" "sip_count h mod 8 = 0" "0 \<le> sip_count h" "length bs < 8" "sip_count h + 8 \<le> INT32_MAX"
  shows "Write_bytes h bs = Inr (h\<lparr>sip_tmp := le_word bs, sip_count := sip_count h + int (length bs)\<rparr>)"
  using assms(4)
proof (induction bs rule: rev_induct)
  case Nil
  then show ?case using assms(1) by (simp add: le_word_def)
next
  case (snoc b bs)
  let ?c = "sip_count h + int (length bs)"
  have l: "length bs < 7" using snoc.prems by simp
  then have "?c mod 8 = int (length bs)" "(?c + 1) mod 8 = int (length bs) + 1" using assms(2) by presburger+
  then have "?c smod 8 = int (length bs)" "(?c + 1) AND 7 \<noteq> 0" "in_int32 (?c + 1)"
    using assms(3,5) l by (simp_all add: smod_nonneg int_and_7 in_int32_def)
  moreover have "nat (8 * int (length bs)) = 8 * length bs" by simp
  ultimately show ?case using snoc by (simp add: Write_bytes_append le_word_snoc Let_def)
qed

lemma Write_bytes_word:
  assumes "sip_tmp h = 0" "sip_count h mod 8 = 0" "0 \<le> sip_count h" "length bs = 8" "sip_count h + 8 \<le> INT32_MAX"
  shows "Write_bytes h bs = Write_u64 h (le_word bs)"
proof -
  obtain xs b where bs: "bs = xs @ [b]" "length xs = 7" using assms(4) by (cases bs rule: rev_cases) auto
  let ?c = "sip_count h + 7"
  have "?c mod 8 = 7" "(?c + 1) mod 8 = 0" using assms(2) by presburger+
  then have "?c smod 8 = 7" "(?c + 1) AND 7 = 0" "in_int32 (?c + 1)" "sip_count h smod 8 = 0"
    using assms(2,3,5) by (simp_all add: smod_nonneg int_and_7 in_int32_def)
  then show ?thesis using Write_bytes_part [OF assms(1-3) _ assms(5), of xs] assms(1) bs(2)
    by (simp add: bs(1) Write_bytes_append le_word_snoc Let_def Write_u64_def add.assoc)
qed

lemma GetUint64_le_word:
  assumes "length val = 32" "pos < 4"
  shows "GetUint64 val pos = le_word (take 8 (drop (pos * 8) val))"
proof -
  have "take 8 (drop (pos * 8) val) = map (\<lambda>i. val ! (pos * 8 + i)) [0..<8]"
    using assms by (intro nth_equalityI) auto
  also have "[0..<8] = [0, 1, 2, 3, 4, 5, 6, 7]" by code_simp
  finally show ?thesis by (simp add: GetUint64_def le_word_def upt_rec or.assoc)
qed

text \<open>The specialized functions as steps on the state.\<close>

definition sip_finish :: "sip_state \<Rightarrow> u64" where
  "sip_finish v = (let (v0, v1, v2, v3) = v; (v0, v1, v2, v3) = SIPROUND (SIPROUND (SIPROUND (SIPROUND (v0, v1, v2 XOR 0xFF, v3)))) in
     v0 XOR v1 XOR v2 XOR v3)"

lemma Finalize_finish: "Finalize h = sip_finish (sip_word (sip_tmp h OR push_bit 56 (word_of_int (sip_count h))) (sip_v h))"
  by (simp add: Finalize_def sip_finish_def Let_def split: prod.splits)

lemma SipHashUint256_steps:
  "SipHashUint256 k0 k1 val = sip_finish (sip_word (push_bit 59 4) (sip_word (GetUint64 val 3) (sip_word (GetUint64 val 2)
     (sip_word (GetUint64 val 1) (sip_word (GetUint64 val 0) (sip_v (CSipHasher_new k0 k1)))))))"
proof -
  obtain a0 a1 a2 a3 where a: "SIPROUND (SIPROUND (0x736f6d6570736575 XOR k0, 0x646f72616e646f6d XOR k1, 0x6c7967656e657261 XOR k0,
      (0x7465646279746573 XOR k1) XOR GetUint64 val 0)) = (a0, a1, a2, a3)" by (metis prod_cases4)
  obtain b0 b1 b2 b3 where b: "SIPROUND (SIPROUND (a0 XOR GetUint64 val 0, a1, a2, a3 XOR GetUint64 val 1)) = (b0, b1, b2, b3)" by (metis prod_cases4)
  obtain c0 c1 c2 c3 where c: "SIPROUND (SIPROUND (b0 XOR GetUint64 val 1, b1, b2, b3 XOR GetUint64 val 2)) = (c0, c1, c2, c3)" by (metis prod_cases4)
  obtain d0 d1 d2 d3 where d: "SIPROUND (SIPROUND (c0 XOR GetUint64 val 2, c1, c2, c3 XOR GetUint64 val 3)) = (d0, d1, d2, d3)" by (metis prod_cases4)
  obtain e0 e1 e2 e3 where e: "SIPROUND (SIPROUND (d0 XOR GetUint64 val 3, d1, d2, d3 XOR (push_bit 59 4))) = (e0, e1, e2, e3)" by (metis prod_cases4)
  show ?thesis
    unfolding SipHashUint256_def sip_finish_def sip_word_def CSipHasher_new_def CSipHasher.select_convs Let_def prod.case a b c d e ..
qed

lemma SipHashUint256Extra_steps:
  "SipHashUint256Extra k0 k1 val extra = sip_finish (sip_word (push_bit 56 36 OR ucast extra) (sip_word (GetUint64 val 3) (sip_word (GetUint64 val 2)
     (sip_word (GetUint64 val 1) (sip_word (GetUint64 val 0) (sip_v (CSipHasher_new k0 k1)))))))"
proof -
  obtain a0 a1 a2 a3 where a: "SIPROUND (SIPROUND (0x736f6d6570736575 XOR k0, 0x646f72616e646f6d XOR k1, 0x6c7967656e657261 XOR k0,
      (0x7465646279746573 XOR k1) XOR GetUint64 val 0)) = (a0, a1, a2, a3)" by (metis prod_cases4)
  obtain b0 b1 b2 b3 where b: "SIPROUND (SIPROUND (a0 XOR GetUint64 val 0, a1, a2, a3 XOR GetUint64 val 1)) = (b0, b1, b2, b3)" by (metis prod_cases4)
  obtain c0 c1 c2 c3 where c: "SIPROUND (SIPROUND (b0 XOR GetUint64 val 1, b1, b2, b3 XOR GetUint64 val 2)) = (c0, c1, c2, c3)" by (metis prod_cases4)
  obtain d0 d1 d2 d3 where d: "SIPROUND (SIPROUND (c0 XOR GetUint64 val 2, c1, c2, c3 XOR GetUint64 val 3)) = (d0, d1, d2, d3)" by (metis prod_cases4)
  obtain e0 e1 e2 e3 where e: "SIPROUND (SIPROUND (d0 XOR GetUint64 val 3, d1, d2, d3 XOR (push_bit 56 36 OR ucast extra))) = (e0, e1, e2, e3)" by (metis prod_cases4)
  show ?thesis
    unfolding SipHashUint256Extra_def sip_finish_def sip_word_def CSipHasher_new_def CSipHasher.select_convs Let_def prod.case a b c d e ..
qed

lemma write_uint256:
  assumes "length val = 32"
  shows "bindR (Write_u64 (CSipHasher_new k0 k1) (GetUint64 val 0)) (\<lambda>h. bindR (Write_u64 h (GetUint64 val 1)) (\<lambda>h.
      bindR (Write_u64 h (GetUint64 val 2)) (\<lambda>h. Write_u64 h (GetUint64 val 3)))) =
    Inr \<lparr>sip_v = sip_word (GetUint64 val 3) (sip_word (GetUint64 val 2) (sip_word (GetUint64 val 1) (sip_word (GetUint64 val 0) (sip_v (CSipHasher_new k0 k1))))),
      sip_tmp = 0, sip_count = 32\<rparr>"
    and "Write_bytes (CSipHasher_new k0 k1) val =
    Inr \<lparr>sip_v = sip_word (GetUint64 val 3) (sip_word (GetUint64 val 2) (sip_word (GetUint64 val 1) (sip_word (GetUint64 val 0) (sip_v (CSipHasher_new k0 k1))))),
      sip_tmp = 0, sip_count = 32\<rparr>"
proof -
  have w: "Write_u64 \<lparr>sip_v = v, sip_tmp = 0, sip_count = c\<rparr> d = Inr \<lparr>sip_v = sip_word d v, sip_tmp = 0, sip_count = c + 8\<rparr>"
    if "c \<in> {0, 8, 16, 24}" for v c d
    using that by (auto simp: Write_u64_def in_int32_def INT32_MAX_def smod_nonneg)
  have new: "CSipHasher_new k0 k1 = \<lparr>sip_v = sip_v (CSipHasher_new k0 k1), sip_tmp = 0, sip_count = 0\<rparr>" by (simp add: CSipHasher_new_def)
  show first: "bindR (Write_u64 (CSipHasher_new k0 k1) (GetUint64 val 0)) (\<lambda>h. bindR (Write_u64 h (GetUint64 val 1)) (\<lambda>h.
      bindR (Write_u64 h (GetUint64 val 2)) (\<lambda>h. Write_u64 h (GetUint64 val 3)))) =
    Inr \<lparr>sip_v = sip_word (GetUint64 val 3) (sip_word (GetUint64 val 2) (sip_word (GetUint64 val 1) (sip_word (GetUint64 val 0) (sip_v (CSipHasher_new k0 k1))))),
      sip_tmp = 0, sip_count = 32\<rparr>"
    by (subst new) (simp add: w)
  have b: "Write_bytes \<lparr>sip_v = v, sip_tmp = 0, sip_count = c\<rparr> (take 8 (drop (pos * 8) val) @ r) =
      Write_bytes \<lparr>sip_v = sip_word (GetUint64 val pos) v, sip_tmp = 0, sip_count = c + 8\<rparr> r"
    if "c \<in> {0, 8, 16, 24}" "pos < 4" for v c pos r
    using that Write_bytes_word [of "\<lparr>sip_v = v, sip_tmp = 0, sip_count = c\<rparr>" "take 8 (drop (pos * 8) val)"] assms w [OF that(1)]
    by (auto simp: Write_bytes_append GetUint64_le_word INT32_MAX_def)
  have split: "val = take 8 (drop (0 * 8) val) @ take 8 (drop (1 * 8) val) @ take 8 (drop (2 * 8) val) @ take 8 (drop (3 * 8) val) @ []"
    using assms take_add [of 8 24 val] take_add [of 8 16 "drop 8 val"] take_add [of 8 8 "drop 16 val"] by (simp add: add.commute)
  show "Write_bytes (CSipHasher_new k0 k1) val =
    Inr \<lparr>sip_v = sip_word (GetUint64 val 3) (sip_word (GetUint64 val 2) (sip_word (GetUint64 val 1) (sip_word (GetUint64 val 0) (sip_v (CSipHasher_new k0 k1))))),
      sip_tmp = 0, sip_count = 32\<rparr>"
  proof -
    have "Write_bytes (CSipHasher_new k0 k1) val = Write_bytes \<lparr>sip_v = sip_v (CSipHasher_new k0 k1), sip_tmp = 0, sip_count = 0\<rparr>
        (take 8 (drop (0 * 8) val) @ take 8 (drop (1 * 8) val) @ take 8 (drop (2 * 8) val) @ take 8 (drop (3 * 8) val) @ [])"
      using new split by simp
    also have "\<dots> = Inr \<lparr>sip_v = sip_word (GetUint64 val 3) (sip_word (GetUint64 val 2) (sip_word (GetUint64 val 1) (sip_word (GetUint64 val 0) (sip_v (CSipHasher_new k0 k1))))),
      sip_tmp = 0, sip_count = 32\<rparr>"
      by (subst b, simp, simp)+ simp
    finally show ?thesis .
  qed
qed

text \<open>C40. The specialized functions compute SipHash: \<open>SipHashUint256\<close> is what \<open>hash.h\<close> says it is, the four words
  of the number written one by one, and also its 32 bytes; \<open>SipHashUint256Extra\<close> is the 32 bytes followed by the
  four bytes of the extra number in little-endian order.\<close>

theorem siphash_specialized:
  assumes "length val = 32" and "length bs = 4" and "ucast extra = le_word bs"
  shows "bindR (bindR (Write_u64 (CSipHasher_new k0 k1) (GetUint64 val 0)) (\<lambda>h. bindR (Write_u64 h (GetUint64 val 1)) (\<lambda>h.
      bindR (Write_u64 h (GetUint64 val 2)) (\<lambda>h. Write_u64 h (GetUint64 val 3))))) (\<lambda>h. Inr (Finalize h)) = Inr (SipHashUint256 k0 k1 val) \<and>
    bindR (Write_bytes (CSipHasher_new k0 k1) val) (\<lambda>h. Inr (Finalize h)) = Inr (SipHashUint256 k0 k1 val) \<and>
    bindR (Write_bytes (CSipHasher_new k0 k1) (val @ bs)) (\<lambda>h. Inr (Finalize h)) = Inr (SipHashUint256Extra k0 k1 val extra)"
proof -
  let ?h = "\<lparr>sip_v = sip_word (GetUint64 val 3) (sip_word (GetUint64 val 2) (sip_word (GetUint64 val 1) (sip_word (GetUint64 val 0) (sip_v (CSipHasher_new k0 k1))))),
      sip_tmp = 0, sip_count = 32\<rparr>"
  have c: "(push_bit 56 (word_of_int 32) :: u64) = push_bit 59 4" "(push_bit 56 (word_of_int 36) :: u64) = push_bit 56 36" by simp_all
  have "Write_bytes ?h bs = Inr (?h\<lparr>sip_tmp := le_word bs, sip_count := 36\<rparr>)"
    using Write_bytes_part [of ?h bs] assms(2) by (simp add: INT32_MAX_def)
  then have "bindR (Write_bytes (CSipHasher_new k0 k1) (val @ bs)) (\<lambda>h. Inr (Finalize h)) = Inr (SipHashUint256Extra k0 k1 val extra)"
    using write_uint256(2) [OF assms(1)] unfolding SipHashUint256Extra_steps Write_bytes_append Finalize_finish assms(3)
    by (simp add: c or.commute del: push_bit_numeral)
  moreover have "Finalize ?h = SipHashUint256 k0 k1 val" unfolding SipHashUint256_steps Finalize_finish by (simp add: c)
  ultimately show ?thesis unfolding write_uint256 [OF assms(1)] by simp
qed

theorem siphash_specialized_witness:
  "bindR (Write_bytes (CSipHasher_new 3 4) (map of_nat [0..<32])) (\<lambda>h. Inr (Finalize h)) = Inr (SipHashUint256 3 4 (map of_nat [0..<32])) \<and>
   bindR (Write_bytes (CSipHasher_new 1 2) (map of_nat [0..<32] @ [1, 2, 3, 4])) (\<lambda>h. Inr (Finalize h)) =
     Inr (SipHashUint256Extra 1 2 (map of_nat [0..<32]) 0x04030201)"
proof -
  have e: "ucast (0x04030201 :: u32) = le_word [1, 2, 3, 4]" by code_simp
  have l: "length (map of_nat [0..<32] :: bytes) = 32" "length [1, 2, 3, 4 :: byte] = 4" by simp_all
  show ?thesis
    using siphash_specialized [OF l e, where ?k0.0 = 3 and ?k1.0 = 4] siphash_specialized [OF l e, where ?k0.0 = 1 and ?k1.0 = 2] by blast
qed

end
