(* ===== verification/Spec2Isabelle.thy ===== *)
theory Spec2Isabelle
  imports RVC_Prelude Amount Serialize Arith_Uint Chain Pow Versionbits Merkle Interpreter Transaction Sighash Asset_Names Asset_Types Coins Compressor Block_Undo Tx_Verify Verifier Siphash
begin

text \<open>
  A verification development for the consensus core of the ravencash node (\<open>src/src\<close>).

  \<^bold>\<open>The program.\<close> The node keeps a tree of block headers with the work and time of every chain, chooses a
  chain, and applies its blocks to a set of unspent outputs (coins). A block has to meet a difficulty target
  computed from its ancestors, commits to its transactions by a Merkle root, and signals deployments in its
  version. A transaction spends coins by scripts that are run by an interpreter, with signatures over parts
  of the transaction, and it may carry assets in its output scripts. The coins are kept in a stack of caches
  over a database; connecting a block records undo data from which disconnecting it restores them.

  \<^bold>\<open>Conventions.\<close> \<open>RVC_Prelude\<close> holds the fault monad and the integer widths: unsigned types are words,
  signed types are integers that go through \<open>i32\<close> and \<open>i64\<close> where they can overflow, and an assertion, an
  exception, a null dereference, an access out of range or a signed overflow is a value of \<open>cpp_fault\<close>, so
  that a theorem that a result is \<open>Inr\<close> says that none of them happens. Objects behind pointers are entries
  of a store (block index) or levels of a stack (coin views). \<open>Text_Prelude\<close> has characters and numerals.
  Definitions have the names of the functions they model; loops are definitions of their own.

  \<^bold>\<open>Theories.\<close>
  \<^item> \<open>Amount\<close>: \<open>amount.h\<close>, \<open>policy/feerate.cpp\<close>, \<open>utilmoneystr.cpp\<close>. Fees; printing and parsing of amounts
    are inverse.
  \<^item> \<open>Serialize\<close>: \<open>serialize.h\<close>. Compact sizes, variable-length integers, blobs and vectors. The locales
    \<open>codec\<close> and \<open>canonical_codec\<close> state what a reader owes its writer; they are interpreted for every
    format here and in \<open>Transaction\<close> and \<open>Asset_Types\<close>, whose round trips rest on them.
  \<^item> \<open>Arith_Uint\<close>: \<open>arith_uint256.{h,cpp}\<close>. The loops over 32-bit limbs refine 256-bit words; division;
    compact targets; \<open>SetHex\<close>.
  \<^item> \<open>Chain\<close>: \<open>chain.{h,cpp}\<close> and \<open>AddToBlockIndex\<close> of \<open>validation.cpp\<close>. Adding headers in any order keeps
    the index a tree with right heights, skip pointers, work and times; ancestors, forks, the active chain.
  \<^item> \<open>Consensus_Params\<close>, \<open>Pow\<close>: \<open>consensus/params.h\<close>, \<open>chainparams.cpp\<close>, \<open>pow.cpp\<close>. The value of the
    difficulty adjustment, its bounds, and the wrap-around of its product on the main network.
  \<^item> \<open>Versionbits\<close>: \<open>versionbits.{h,cpp}\<close>. The cached computation is the BIP 9 state machine, and every
    deployment settles.
  \<^item> \<open>Merkle\<close>: \<open>consensus/merkle.cpp\<close>. The routine in constant space computes the tree; branches; what the
    mutation flag rules out.
  \<^item> \<open>Script\<close>, \<open>Interpreter\<close>: \<open>script/script.{h,cpp}\<close>, \<open>script/interpreter.cpp\<close>. Script numbers and
    parsing; all opcodes, \<open>EvalScript\<close> and \<open>VerifyScript\<close> with their limits; accepted inputs under fewer flags; the
    standard forms of payment; multisignatures.
  \<^item> \<open>Transaction\<close>, \<open>Sighash\<close>: \<open>primitives/transaction.{h,cpp}\<close> and the signature hashes of
    \<open>script/interpreter.cpp\<close>. Formats, identifiers, output sums; the signature hash against the old
    definition kept in \<open>test/sighash_tests.cpp\<close>; \<open>TransactionSignatureChecker\<close>.
  \<^item> \<open>Regex\<close>, \<open>Asset_Names\<close>, \<open>Asset_Types\<close>: \<open>assets/assets.cpp\<close>, \<open>assets/assettypes.h\<close>. Names against a
    grammar over character codes, parents, owner names of restricted assets; the data of assets in scripts.
  \<^item> \<open>Coins\<close>: \<open>coins.{h,cpp}\<close>, \<open>txdb.cpp\<close>. A stack of caches over the database refines a stack of maps;
    flushes in batches and what a crash between them leaves.
  \<^item> \<open>Compressor\<close>: \<open>compressor.{h,cpp}\<close>, \<open>undo.h\<close>. The compact records of coins and of undo data.
  \<^item> \<open>Block_Undo\<close>: \<open>UpdateCoins\<close>, \<open>ApplyTxInUndo\<close>, \<open>DisconnectBlock\<close> and the coins in \<open>ConnectBlock\<close>, all in
    \<open>validation.cpp\<close>. \<open>shows_coins\<close> relates a cache to the map it shows.
  \<^item> \<open>Tx_Verify\<close>: \<open>consensus/tx_verify.cpp\<close>, \<open>GetBlockSubsidy\<close>, \<open>founder_payment.cpp\<close>. Lock times from the
    script to the chain, \<open>CheckTxInputs\<close>, and the bound on the money that blocks create.
  \<^item> \<open>Verifier\<close>: \<open>LibBoolEE.cpp\<close>. The evaluator of verifier strings.
  \<^item> \<open>Siphash\<close>: \<open>hash.cpp\<close>. The specialized functions are the incremental hasher.
  \<^item> This theory composes \<open>Block_Undo\<close> with \<open>Compressor\<close>: connect, write, read, disconnect.

  \<^bold>\<open>Parameters.\<close> The cryptographic hashes and the signature check (\<open>crypto\<close> and the argument \<open>Verify\<close>), the
  validity and decompression of public keys (\<open>points\<close>, with the law \<open>good_points\<close>: decompressing the
  compressed form of a valid key gives the key), the memory a coin occupies, the size at which a batch is
  full, and \<open>boost::split\<close>. Statements about commitments are up to collisions of the hash.

  \<^bold>\<open>Bounds.\<close> Loops that follow pointers have a bound on their steps and end in \<open>OutOfFuel\<close> when it is used up:
  the height of the starting block plus one or two, which is enough in a well-formed store, where heights fall
  by one along \<open>pprev\<close>; the theorems show results, not only that they would be right. The constant-space
  Merkle routine has an array of 32 hashes and is stated for fewer than \<open>2 ^ 32\<close> leaves. Heights are below
  \<open>2 ^ 31\<close>.

  \<^bold>\<open>Not modelled.\<close> The asset caches and databases and the checks that read them (\<open>CheckTransaction\<close> but for
  its check of duplicate inputs, \<open>CheckTxAssets\<close>); the calls in \<open>Coins\<close> and \<open>Block_Undo\<close> are those with no
  asset cache. Superblocks, smartnode payments, sporks, quorums, InstantSend and governance, which depend on
  the state of the network: the bound on the supply is for blocks whose coinbase pays at most the fees and the
  subsidy, the limit of \<open>IsBlockValueValid\<close> when no superblock is allowed. \<open>ConnectBlock\<close> has no check that the
  outputs of a transaction are new, so this is a hypothesis there. Indexes, block files, the memory
  pool, the network, the wallet, mixing, remote calls and the user interface are input, output, threads and
  local policy. The hash functions and the bundled libraries (LevelDB, secp256k1, UniValue) are called only
  through the parameters above.
\<close>

section \<open>Reorganizations\<close>

text \<open>C1. A block that is connected and later disconnected leaves no trace in the coins, with everything
  between the two: \<open>ConnectBlock\<close> updates the cache and collects the undo data, the undo data is written to
  disk in the compact format, read back, and \<open>DisconnectBlock\<close> runs on what was read. The result is clean
  and every level of the stack of caches shows the coins it showed before, with the hash of the previous
  block on top.\<close>

theorem reorg_restores_coins:
  assumes "wf_stack usage (c, base)" and "usage Coin_Clear = 0"
    and "live_coins (coins_of (ViewCache c base))" and "storable_coins (coins_of (ViewCache c base))"
    and "IsCoinBase cb" and "list_all (\<lambda>tx. \<not> IsCoinBase tx) txs"
    and "legal_txs cr height (cb # txs) (coins_of (ViewCache c base))" and "0 < height" and "height < 2 ^ 31"
    and "list_all (\<lambda>tx. list_all (\<lambda>txout. storable (Coin_of txout height (IsCoinBase tx))) (vout tx)) (cb # txs)"
    and "list_all (\<lambda>tx. length (vin tx) \<le> max_input_undos assets) (cb # txs)" and "length txs \<le> MAX_SIZE"
    and "good_points pt"
  shows "\<exists>us b c1 b1 c2 b2. connect_coins cr usage (cb # txs) height c base = Inr (us, c1, b1) \<and>
    Serialize_CBlockUndo pt us = Inr b \<and>
    bindR (Unserialize_CBlockUndo pt assets b) (\<lambda>(us, _). DisconnectBlock cr usage (cb # txs) us height hashPrev c1 b1) =
      Inr (DISCONNECT_OK, c2, b2) \<and>
    stack_levels (c2, b2) = (coins_of (ViewCache c base), hashPrev) # levels base"
proof -
  let ?us = "spec_undos cr height (cb # txs) (coins_of (ViewCache c base))"
  have "list_all (list_all storable) ?us" using assms(4,7,10) by (rule undos_storable)
  moreover have "\<forall>u \<in> set ?us. length u \<le> max_input_undos assets"
    using undos_lengths [of "cb # txs"] assms(11) by (simp add: list_all_iff del: spec_undos.simps)
  ultimately have "\<forall>u \<in> set (tl ?us). length u \<le> max_input_undos assets \<and> (\<forall>c \<in> set u. storable c)"
    unfolding list_all_iff using list.set_sel(2) by (metis tl_Nil)
  moreover have "length (tl ?us) \<le> MAX_SIZE" using assms(12) by (simp del: spec_undos.simps)
  ultimately obtain b where b: "Serialize_CBlockUndo pt (tl ?us) = Inr b" "\<And>s. Unserialize_CBlockUndo pt assets (b @ s) = Inr (tl ?us, s)"
    using block_undo_codec [OF assms(13), of "tl ?us" assets] by blast
  then have r: "Unserialize_CBlockUndo pt assets b = Inr (tl ?us, [])" using b(2) [of "[]"] by simp
  show ?thesis
    using connect_disconnect [OF assms(1-3,5-9), of hashPrev] b(1) r by (auto simp del: spec_undos.simps coins_of.simps)
qed

lemma sample_storables:
  "storable sample_coin"
  "list_all (\<lambda>tx. list_all (\<lambda>txout. storable (Coin_of txout 9 (IsCoinBase tx))) (vout tx)) [sample_coinbase, sample_spend]"
  "list_all (\<lambda>tx. length (vin tx) \<le> max_input_undos False) [sample_coinbase, sample_spend]"
  by (simp_all add: storable_def sample_coin_def sample_coinbase_def sample_spend_def Coin_of_def CTxOut_null_def
      MAX_SCRIPT_SIZE_def max_input_undos_def MIN_TRANSACTION_INPUT_WEIGHT_def)

theorem reorg_restores_coins_witness:
  "\<exists>us b c1 b1 c2 b2. connect_coins plain_crypto (\<lambda>_. 0) [sample_coinbase, sample_spend] 9 (fst sample_stack) (snd sample_stack) = Inr (us, c1, b1) \<and>
    Serialize_CBlockUndo sample_points us = Inr b \<and>
    bindR (Unserialize_CBlockUndo sample_points False b) (\<lambda>(us, _).
      DisconnectBlock plain_crypto (\<lambda>_. 0) [sample_coinbase, sample_spend] us 9 (replicate 32 2) c1 b1) = Inr (DISCONNECT_OK, c2, b2) \<and>
    fst (hd (stack_levels (c2, b2))) = [sample_outpoint \<mapsto> sample_coin]"
proof -
  have "storable_coins [sample_outpoint \<mapsto> sample_coin]" using sample_storables(1) by (simp add: storable_coins_def)
  then show ?thesis
    using reorg_restores_coins [of "\<lambda>_. 0" "fst sample_stack" "snd sample_stack" sample_coinbase "[sample_spend]" plain_crypto 9 False sample_points "replicate 32 2"]
      sample_stack_wf [of "\<lambda>_. 0"] sample_block_legal sample_coinbases sample_live sample_storables(2,3) sample_points_good
    unfolding sample_coins by (force simp: MAX_SIZE_def)
qed

end
